(* ===== verification/Prelude.thy ===== *)
theory Prelude
  imports Complex_Main "HOL-Library.Word" "HOL-Library.Char_ord" "HOL-Library.List_Lexorder"
    "HOL-Library.Product_Lexorder"
begin

text \<open>
  What every component of the development shares: the outcome of a Rust function (a value, an
  error value or a panic) with the operations the source applies to it (the question mark,
  \<open>unwrap\<close>, \<open>map_err\<close>), and the decimal integers of the Rust standard library
  (\<open>str::parse\<close> and \<open>to_string\<close>) at a given width.  A Rust \<open>String\<close> is the list of its
  UTF-8 bytes, a HOL \<open>string\<close>; its order is the bytewise lexicographic one, as in Rust.
\<close>

named_theorems outcome_simps \<open>unfolding the sequencing of outcomes\<close>

section \<open>Outcomes\<close>

datatype ('a, 'e) outcome = Ok 'a | Err 'e | Panic

primrec and_then :: "('a, 'e) outcome \<Rightarrow> ('a \<Rightarrow> ('b, 'e) outcome) \<Rightarrow> ('b, 'e) outcome" where
  "and_then (Ok x) f = f x"
| "and_then (Err e) f = Err e"
| "and_then Panic f = Panic"

primrec map_err :: "('e \<Rightarrow> 'f) \<Rightarrow> ('a, 'e) outcome \<Rightarrow> ('a, 'f) outcome" where
  "map_err f (Ok x) = Ok x"
| "map_err f (Err e) = Err (f e)"
| "map_err f Panic = Panic"

primrec map_ok :: "('a \<Rightarrow> 'b) \<Rightarrow> ('a, 'e) outcome \<Rightarrow> ('b, 'e) outcome" where
  "map_ok f (Ok x) = Ok (f x)"
| "map_ok f (Err e) = Err e"
| "map_ok f Panic = Panic"

primrec unwrap :: "('a, 'e) outcome \<Rightarrow> ('a, 'f) outcome" where
  "unwrap (Ok x) = Ok x"
| "unwrap (Err e) = Panic"
| "unwrap Panic = Panic"

definition unwrap_opt :: "'a option \<Rightarrow> ('a, 'e) outcome" where
  "unwrap_opt x = (case x of None \<Rightarrow> Panic | Some v \<Rightarrow> Ok v)"

definition ok_or :: "'e \<Rightarrow> 'a option \<Rightarrow> ('a, 'e) outcome" where
  "ok_or e x = (case x of None \<Rightarrow> Err e | Some v \<Rightarrow> Ok v)"

primrec ok_opt :: "('a, 'e) outcome \<Rightarrow> 'a option" where
  "ok_opt (Ok x) = Some x"
| "ok_opt (Err e) = None"
| "ok_opt Panic = None"

lemma unwrap_opt_simps [simp]:
  "unwrap_opt (Some v) = Ok v" "unwrap_opt None = Panic"
  by (simp_all add: unwrap_opt_def)

lemma ok_or_simps [simp]:
  "ok_or e (Some v) = Ok v" "ok_or e None = Err e"
  by (simp_all add: ok_or_def)

lemma and_then_eq_Ok [outcome_simps]:
  "and_then m f = Ok y \<longleftrightarrow> (\<exists>x. m = Ok x \<and> f x = Ok y)"
  by (cases m) auto

lemma and_then_eq_Err [outcome_simps]:
  "and_then m f = Err e \<longleftrightarrow> m = Err e \<or> (\<exists>x. m = Ok x \<and> f x = Err e)"
  by (cases m) auto

lemma and_then_eq_Panic [outcome_simps]:
  "and_then m f = Panic \<longleftrightarrow> m = Panic \<or> (\<exists>x. m = Ok x \<and> f x = Panic)"
  by (cases m) auto

lemma and_then_assoc: "and_then (and_then m f) g = and_then m (\<lambda>x. and_then (f x) g)"
  by (cases m) auto

lemma map_err_eq_iff [outcome_simps]:
  "map_err f m = Ok x \<longleftrightarrow> m = Ok x" "map_err f m = Panic \<longleftrightarrow> m = Panic"
  by (cases m; simp)+

lemma unwrap_eq_iff [outcome_simps]:
  "unwrap m = Ok x \<longleftrightarrow> m = Ok x" "unwrap m = Err e \<longleftrightarrow> False"
  by (cases m; simp)+

section \<open>Decimal integers\<close>

text \<open>\<open>to_string\<close> of an integer: its decimal digits, with a minus sign when negative.\<close>

definition digit_char :: "nat \<Rightarrow> char" where
  "digit_char d = char_of (48 + d)"

definition digit_of :: "char \<Rightarrow> nat option" where
  "digit_of c = (let n = of_char c :: nat in if 48 \<le> n \<and> n \<le> 57 then Some (n - 48) else None)"

fun show_nat :: "nat \<Rightarrow> string" where
  "show_nat n = (if n < 10 then [digit_char n] else show_nat (n div 10) @ [digit_char (n mod 10)])"

declare show_nat.simps [simp del]

definition show_int :: "int \<Rightarrow> string" where
  "show_int i = (if i < 0 then CHR ''-'' # show_nat (nat (- i)) else show_nat (nat i))"

text \<open>
  \<open>str::parse\<close> of an integer type: at least one digit, an optional plus sign, a minus sign for
  the signed types only, and the value within the type's range.  Every failure is one \<open>None\<close>:
  no caller of the source looks at the kind of a \<open>ParseIntError\<close>.
\<close>

fun digits_acc :: "nat \<Rightarrow> string \<Rightarrow> nat option" where
  "digits_acc a [] = Some a"
| "digits_acc a (c # cs) =
     (case digit_of c of None \<Rightarrow> None | Some d \<Rightarrow> digits_acc (10 * a + d) cs)"

definition digits_value :: "string \<Rightarrow> nat option" where
  "digits_value s = (if s = [] then None else digits_acc 0 s)"

fun parse_uint :: "nat \<Rightarrow> string \<Rightarrow> nat option" where
  "parse_uint w s =
     (case (case s of c # cs \<Rightarrow> if c = CHR ''+'' then digits_value cs else digits_value s
                    | [] \<Rightarrow> None) of
        None \<Rightarrow> None
      | Some n \<Rightarrow> if n < 2 ^ w then Some n else None)"

fun parse_int :: "nat \<Rightarrow> string \<Rightarrow> int option" where
  "parse_int w s =
     (case (case s of
              [] \<Rightarrow> None
            | c # cs \<Rightarrow>
                if c = CHR ''-'' then map_option (\<lambda>n. - int n) (digits_value cs)
                else if c = CHR ''+'' then map_option int (digits_value cs)
                else map_option int (digits_value s)) of
        None \<Rightarrow> None
      | Some i \<Rightarrow> if - (2 ^ (w - 1)) \<le> i \<and> i < 2 ^ (w - 1) then Some i else None)"

declare parse_uint.simps [simp del] parse_int.simps [simp del]

definition in_i32 :: "int \<Rightarrow> bool" where
  "in_i32 i \<longleftrightarrow> - (2 ^ 31) \<le> i \<and> i < 2 ^ 31"

lemma digit_of_digit_char [simp]: "d < 10 \<Longrightarrow> digit_of (digit_char d) = Some d"
  by (simp add: digit_of_def digit_char_def Let_def)

lemma digits_acc_append:
  "digits_acc a (s @ t) = (case digits_acc a s of None \<Rightarrow> None | Some b \<Rightarrow> digits_acc b t)"
  by (induction s arbitrary: a) (auto split: option.splits)

lemma show_nat_not_Nil [simp]: "show_nat n \<noteq> []"
  by (subst show_nat.simps) simp

lemma digits_acc_show_nat: "digits_acc 0 (show_nat n) = Some n"
proof (induction n rule: show_nat.induct)
  case (1 n)
  show ?case
  proof (cases "n < 10")
    case True
    then show ?thesis by (subst show_nat.simps) simp
  next
    case False
    with "1.IH" show ?thesis
      by (subst show_nat.simps) (simp add: digits_acc_append)
  qed
qed

lemma digits_value_show_nat [simp]: "digits_value (show_nat n) = Some n"
  by (simp add: digits_value_def digits_acc_show_nat)

lemma show_nat_all_digits: "\<forall>c \<in> set (show_nat n). digit_of c \<noteq> None"
proof (induction n rule: show_nat.induct)
  case (1 n)
  then show ?case
    by (cases "n < 10") (auto simp: show_nat.simps [of n])
qed

lemma show_nat_no_sign:
  "show_nat n = c # cs \<Longrightarrow> c \<noteq> CHR ''-'' \<and> c \<noteq> CHR ''+''"
  using show_nat_all_digits [of n] by (auto simp: digit_of_def)

lemma parse_int_show_int:
  assumes "- (2 ^ (w - 1)) \<le> i" "i < 2 ^ (w - 1)"
  shows "parse_int w (show_int i) = Some i"
proof (cases "i < 0")
  case True
  then show ?thesis using assms
    by (simp add: parse_int.simps show_int_def)
next
  case False
  obtain c cs where s: "show_nat (nat i) = c # cs"
    by (cases "show_nat (nat i)") auto
  have "digits_value (c # cs) = Some (nat i)"
    unfolding s [symmetric] by simp
  with False assms show_nat_no_sign [OF s] s show ?thesis
    by (simp add: parse_int.simps show_int_def)
qed

lemma parse_uint_show_nat: "n < 2 ^ w \<Longrightarrow> parse_uint w (show_nat n) = Some n"
proof -
  assume n: "n < 2 ^ w"
  obtain c cs where s: "show_nat n = c # cs"
    by (cases "show_nat n") auto
  have "digits_value (c # cs) = Some n"
    unfolding s [symmetric] by simp
  with n show_nat_no_sign [OF s] s show ?thesis
    by (simp add: parse_uint.simps)
qed

lemma parse_int_range:
  "parse_int w s = Some i \<Longrightarrow> - (2 ^ (w - 1)) \<le> i \<and> i < 2 ^ (w - 1)"
  by (simp add: parse_int.simps split: option.splits if_splits)

lemma parse_uint_range: "parse_uint w s = Some n \<Longrightarrow> n < 2 ^ w"
  by (simp add: parse_uint.simps split: option.splits if_splits)

lemma parse_int_32_range: "parse_int 32 s = Some i \<Longrightarrow> in_i32 i"
  using parse_int_range [of 32 s i] by (simp add: in_i32_def)

section \<open>Floating point\<close>

text \<open>
  The source only computes \<open>f64\<close> values to report them or to sleep for them.  A value is the
  expression the code evaluates: the conversion of an integer, a literal \<open>m * 10 ^ e\<close>, and the
  operations applied to them; rounding is left to whoever evaluates it.
\<close>

datatype f64 =
    OfInt int
  | Lit int int
  | FAdd f64 f64
  | FMul f64 f64
  | FDiv f64 f64

text \<open>The exact value of an expression, for statements about it; a division by zero is left at 0.\<close>

primrec f64_value :: "f64 \<Rightarrow> rat" where
  "f64_value (OfInt i) = of_int i"
| "f64_value (Lit m e) = of_int m * (if e < 0 then 1 / 10 ^ nat (- e) else 10 ^ nat e)"
| "f64_value (FAdd a b) = f64_value a + f64_value b"
| "f64_value (FMul a b) = f64_value a * f64_value b"
| "f64_value (FDiv a b) = f64_value a / f64_value b"

end
