(* ===== verification/BTree.thy ===== *)
theory BTree
  imports Prelude
begin

text \<open>
  The ordered map of the Rust standard library (\<open>std::collections::BTreeMap\<close>), which the source
  uses for the process registry, environments, specs and results.  A map is the list of its entries
  in strictly increasing key order, the order in which iteration visits them.  The interface the
  components rely on is the locale \<open>ordered_map\<close>; the list operations provide it.
\<close>

type_synonym ('k, 'v) btree = "('k \<times> 'v) list"

definition bt_wf :: "('k::linorder, 'v) btree \<Rightarrow> bool" where
  "bt_wf m \<longleftrightarrow> sorted_wrt (<) (map fst m)"

definition bt_get :: "('k, 'v) btree \<Rightarrow> 'k \<Rightarrow> 'v option" where
  "bt_get m k = map_of m k"

fun bt_insert :: "'k::linorder \<Rightarrow> 'v \<Rightarrow> ('k, 'v) btree \<Rightarrow> ('k, 'v) btree" where
  "bt_insert k v [] = [(k, v)]"
| "bt_insert k v ((a, b) # m) =
     (if k < a then (k, v) # (a, b) # m
      else if k = a then (k, v) # m
      else (a, b) # bt_insert k v m)"

fun bt_remove :: "'k::linorder \<Rightarrow> ('k, 'v) btree \<Rightarrow> ('k, 'v) btree" where
  "bt_remove k [] = []"
| "bt_remove k ((a, b) # m) = (if k = a then m else (a, b) # bt_remove k m)"

definition bt_keys :: "('k, 'v) btree \<Rightarrow> 'k list" where
  "bt_keys m = map fst m"

text \<open>\<open>collect\<close> into a map: later entries replace earlier ones with the same key.\<close>

definition bt_collect :: "('k::linorder \<times> 'v) list \<Rightarrow> ('k, 'v) btree" where
  "bt_collect kvs = foldl (\<lambda>m (k, v). bt_insert k v m) [] kvs"

section \<open>The interface\<close>

locale ordered_map =
  fixes empty :: "'m"
    and insert :: "'k \<Rightarrow> 'v \<Rightarrow> 'm \<Rightarrow> 'm"
    and remove :: "'k \<Rightarrow> 'm \<Rightarrow> 'm"
    and get :: "'m \<Rightarrow> 'k \<Rightarrow> 'v option"
    and inv :: "'m \<Rightarrow> bool"
  assumes get_empty: "get empty k = None"
    and get_insert: "inv m \<Longrightarrow> get (insert k v m) k' = (if k' = k then Some v else get m k')"
    and get_remove: "inv m \<Longrightarrow> get (remove k m) k' = (if k' = k then None else get m k')"
    and inv_empty: "inv empty"
    and inv_insert: "inv m \<Longrightarrow> inv (insert k v m)"
    and inv_remove: "inv m \<Longrightarrow> inv (remove k m)"
begin

text \<open>A run of insertions: the last entry of a key wins, and other keys are kept.\<close>

lemma inv_inserts: "inv m \<Longrightarrow> inv (foldl (\<lambda>m (k, v). insert k v m) m kvs)"
  by (induction kvs arbitrary: m) (auto simp: inv_insert)

lemma get_inserts:
  "inv m \<Longrightarrow> get (foldl (\<lambda>m (k, v). insert k v m) m kvs) k =
     (case map_of (rev kvs) k of None \<Rightarrow> get m k | Some v \<Rightarrow> Some v)"
proof (induction kvs arbitrary: m)
  case Nil
  then show ?case by simp
next
  case (Cons kv kvs)
  obtain a b where kv: "kv = (a, b)" by (cases kv)
  from Cons.prems show ?case
    by (simp add: Cons.IH inv_insert get_insert kv map_add_def split: option.split)
qed

text \<open>A run of removals.\<close>

lemma inv_removes: "inv m \<Longrightarrow> inv (foldl (\<lambda>m k. remove k m) m ks)"
  by (induction ks arbitrary: m) (auto simp: inv_remove)

lemma get_removes:
  "inv m \<Longrightarrow> get (foldl (\<lambda>m k. remove k m) m ks) k = (if k \<in> set ks then None else get m k)"
  by (induction ks arbitrary: m) (auto simp: inv_remove get_remove)

text \<open>A run of edits, each an insertion or a removal of its key.\<close>

lemma inv_edits:
  "inv m \<Longrightarrow> inv (foldl (\<lambda>m (k, ov). case ov of Some v \<Rightarrow> insert k v m | None \<Rightarrow> remove k m) m es)"
  by (induction es arbitrary: m) (auto simp: inv_insert inv_remove split: option.split)

lemma get_edits:
  "inv m \<Longrightarrow>
   get (foldl (\<lambda>m (k, ov). case ov of Some v \<Rightarrow> insert k v m | None \<Rightarrow> remove k m) m es) k =
     (case map_of (rev es) k of None \<Rightarrow> get m k | Some ov \<Rightarrow> ov)"
proof (induction es arbitrary: m)
  case Nil
  then show ?case by simp
next
  case (Cons e es)
  obtain a b where e: "e = (a, b)" by (cases e)
  from Cons.prems show ?case
    by (cases b)
      (simp_all add: Cons.IH inv_insert inv_remove get_insert get_remove e map_add_def
        split: option.split)
qed

end

section \<open>The sorted lists provide it\<close>

lemma bt_wf_Nil [simp]: "bt_wf []"
  by (simp add: bt_wf_def)

lemma bt_wf_Cons:
  "bt_wf ((a, b) # m) \<longleftrightarrow> (\<forall>k \<in> set (map fst m). a < k) \<and> bt_wf m"
  by (simp add: bt_wf_def)

lemma set_bt_insert: "fst ` set (bt_insert k v m) = insert k (fst ` set m)"
  by (induction k v m rule: bt_insert.induct) auto

lemma set_bt_remove: "set (bt_remove k m) \<subseteq> set m"
  by (induction k m rule: bt_remove.induct) auto

lemma bt_wf_insert: "bt_wf m \<Longrightarrow> bt_wf (bt_insert k v m)"
proof (induction k v m rule: bt_insert.induct)
  case (1 k v)
  then show ?case by (simp add: bt_wf_def)
next
  case (2 k v a b m)
  from "2.prems" have a: "\<forall>x \<in> fst ` set m. a < x" and m: "bt_wf m"
    by (auto simp: bt_wf_Cons)
  consider "k < a" | "k = a" | "a < k" by force
  then show ?case
  proof cases
    case 1
    with a m "2.prems" show ?thesis by (auto simp: bt_wf_Cons)
  next
    case 2
    with a m show ?thesis by (auto simp: bt_wf_Cons)
  next
    case 3
    with "2.IH" m have "bt_wf (bt_insert k v m)" by auto
    moreover have "\<forall>x \<in> fst ` set (bt_insert k v m). a < x"
      using a 3 by (simp add: set_bt_insert)
    ultimately show ?thesis using 3 by (auto simp: bt_wf_Cons)
  qed
qed

lemma bt_wf_remove: "bt_wf m \<Longrightarrow> bt_wf (bt_remove k m)"
proof (induction k m rule: bt_remove.induct)
  case (2 k a b m)
  then show ?case
    using set_bt_remove [of k m] by (auto simp: bt_wf_Cons)
qed simp

lemma bt_get_None: "k \<notin> fst ` set m \<Longrightarrow> bt_get m k = None"
  by (simp add: bt_get_def map_of_eq_None_iff)

lemma bt_get_insert: "bt_get (bt_insert k v m) k' = (if k' = k then Some v else bt_get m k')"
  by (induction k v m rule: bt_insert.induct) (auto simp: bt_get_def)

lemma bt_get_Cons: "bt_get ((a, b) # m) k = (if k = a then Some b else bt_get m k)"
  by (simp add: bt_get_def)

lemma bt_get_remove:
  "bt_wf m \<Longrightarrow> bt_get (bt_remove k m) k' = (if k' = k then None else bt_get m k')"
proof (induction k m rule: bt_remove.induct)
  case (1 k)
  then show ?case by (simp add: bt_get_None)
next
  case (2 k a b m)
  then have "a \<notin> fst ` set m" and "bt_wf m" by (auto simp: bt_wf_Cons)
  then show ?case
    using "2.IH" bt_get_None [of a m] by (auto simp: bt_get_Cons)
qed

interpretation bt: ordered_map "[]" bt_insert bt_remove bt_get bt_wf
  by unfold_locales
    (simp_all add: bt_get_insert bt_get_remove bt_wf_insert bt_wf_remove bt_get_None)

lemma bt_wf_distinct: "bt_wf m \<Longrightarrow> distinct (map fst m)"
  by (simp add: bt_wf_def strict_sorted_iff)

lemma bt_wf_collect: "bt_wf (bt_collect kvs)"
  unfolding bt_collect_def by (rule bt.inv_inserts) simp

lemma bt_get_collect: "bt_get (bt_collect kvs) k = map_of (rev kvs) k"
  unfolding bt_collect_def
  by (subst bt.get_inserts) (auto simp: bt_get_def split: option.split)

lemma bt_get_in_keys: "k \<in> set (bt_keys m) \<longleftrightarrow> bt_get m k \<noteq> None"
  by (auto simp: bt_keys_def bt_get_def map_of_eq_None_iff)

lemma bt_get_in_set: "bt_wf m \<Longrightarrow> bt_get m k = Some v \<longleftrightarrow> (k, v) \<in> set m"
  by (simp add: bt_get_def bt_wf_distinct)

text \<open>Two maps with the same entries are the same list, so a result can be compared by look-ups.\<close>

lemma bt_from_keys: "bt_wf m \<Longrightarrow> map (\<lambda>k. (k, the (bt_get m k))) (bt_keys m) = m"
  by (auto simp: bt_keys_def bt_get_def bt_wf_distinct intro!: map_idI)

lemma bt_wf_ext:
  assumes "bt_wf m" "bt_wf n" "\<And>k. bt_get m k = bt_get n k"
  shows "m = n"
proof -
  have "set (bt_keys m) = set (bt_keys n)"
    by (simp only: set_eq_iff bt_get_in_keys assms(3)) simp
  then have keys: "bt_keys m = bt_keys n"
    using assms(1,2) strict_sorted_equal [of "bt_keys m" "bt_keys n"]
    by (simp add: bt_wf_def bt_keys_def)
  have "m = map (\<lambda>k. (k, the (bt_get m k))) (bt_keys m)"
    by (rule bt_from_keys [OF assms(1), symmetric])
  also have "\<dots> = map (\<lambda>k. (k, the (bt_get n k))) (bt_keys n)"
    by (simp only: keys assms(3))
  also have "\<dots> = n"
    by (rule bt_from_keys [OF assms(2)])
  finally show ?thesis .
qed

end
