(* ===== verification/Sig.thy ===== *)
theory Sig
  imports Prelude
begin

text \<open>
  The signal table of \<open>src/sig.rs\<close>: names and numbers of the Linux signals, \<open>parse_signum\<close> for
  the HTTP route, \<open>get_abbrev\<close> for results and \<open>/proc\<close> masks.
\<close>

type_synonym signum = int

definition NSIG :: signum where "NSIG = 32"
definition SIGINT :: signum where "SIGINT = 2"
definition SIGQUIT :: signum where "SIGQUIT = 3"
definition SIGKILL :: signum where "SIGKILL = 9"
definition SIGUSR1 :: signum where "SIGUSR1 = 10"
definition SIGUSR2 :: signum where "SIGUSR2 = 12"
definition SIGTERM :: signum where "SIGTERM = 15"

lemmas signal_consts = NSIG_def SIGINT_def SIGQUIT_def SIGKILL_def SIGUSR1_def SIGUSR2_def SIGTERM_def

definition SIGNAL_NUMS :: "(string \<times> signum) list" where
  "SIGNAL_NUMS =
    [(''SIGHUP'', 1), (''SIGINT'', SIGINT), (''SIGQUIT'', SIGQUIT), (''SIGILL'', 4),
     (''SIGTRAP'', 5), (''SIGABRT'', 6), (''SIGBUS'', 7), (''SIGFPE'', 8),
     (''SIGKILL'', SIGKILL), (''SIGUSR1'', SIGUSR1), (''SIGSEGV'', 11), (''SIGUSR2'', SIGUSR2),
     (''SIGPIPE'', 13), (''SIGALRM'', 14), (''SIGTERM'', SIGTERM), (''SIGCHLD'', 17),
     (''SIGCONT'', 18), (''SIGSTOP'', 19), (''SIGTSTP'', 20), (''SIGTTIN'', 21),
     (''SIGTTOU'', 22), (''SIGURG'', 23), (''SIGXCPU'', 24), (''SIGXFSZ'', 25),
     (''SIGVTALRM'', 26), (''SIGPROF'', 27), (''SIGWINCH'', 28), (''SIGIO'', 29),
     (''SIGPWR'', 30), (''SIGSYS'', 31)]"

text \<open>
  The inverse table; the numbers are distinct, so the order in which the hash map is iterated
  does not matter.
\<close>

definition SIGNAL_ABBREVS :: "(signum \<times> string) list" where
  "SIGNAL_ABBREVS = map (\<lambda>(n, i). (i, n)) SIGNAL_NUMS"

definition parse_signum :: "string \<Rightarrow> signum option" where
  "parse_signum s =
     (case map_of SIGNAL_NUMS s of Some n \<Rightarrow> Some n | None \<Rightarrow> parse_int 32 s)"

definition get_abbrev :: "signum \<Rightarrow> string option" where
  "get_abbrev n = map_of SIGNAL_ABBREVS n"

lemma signal_names_distinct: "distinct (map fst SIGNAL_NUMS)"
  by (simp add: SIGNAL_NUMS_def)

lemma signal_numbers_distinct: "distinct (map snd SIGNAL_NUMS)"
  by (simp add: SIGNAL_NUMS_def signal_consts)

lemma get_abbrev_iff: "get_abbrev n = Some s \<longleftrightarrow> (s, n) \<in> set SIGNAL_NUMS"
proof -
  have "map fst SIGNAL_ABBREVS = map snd SIGNAL_NUMS"
    by (auto simp: SIGNAL_ABBREVS_def)
  then have "distinct (map fst SIGNAL_ABBREVS)"
    by (simp add: signal_numbers_distinct)
  then show ?thesis
    by (force simp: get_abbrev_def SIGNAL_ABBREVS_def)
qed

lemma signal_numbers: "snd ` set SIGNAL_NUMS = {1..31} - {16}"
proof -
  have "{1..31::int} = {1,2,3,4,5,6,7,8,9,10,11,12,13,14,15,16,17,18,19,20,21,22,23,24,25,26,27,28,29,30,31}"
    by (simp add: simp_from_to)
  then show ?thesis unfolding SIGNAL_NUMS_def signal_consts by auto
qed

lemma get_abbrev_None: "get_abbrev n = None \<longleftrightarrow> n \<notin> {1..31} - {16}"
proof -
  have "get_abbrev n \<noteq> None \<longleftrightarrow> n \<in> snd ` set SIGNAL_NUMS"
    by (force simp: get_abbrev_iff)
  then show ?thesis unfolding signal_numbers by blast
qed

text \<open>
  Signal names and numbers are inverse: \<open>get_abbrev\<close> gives a name exactly for the standard
  signals 1 to 31 other than 16, and \<open>parse_signum\<close> of the name, or of the number's digits, is the
  number again.
\<close>

theorem signal_round_trip:
  "(get_abbrev n = None \<longleftrightarrow> n \<notin> {1..31} - {16}) \<and>
   (get_abbrev n = Some s \<longrightarrow> parse_signum s = Some n) \<and>
   (in_i32 n \<longrightarrow> parse_signum (show_int n) = Some n)"
proof (intro conjI impI)
  show "get_abbrev n = None \<longleftrightarrow> n \<notin> {1..31} - {16}" by (rule get_abbrev_None)
next
  assume "get_abbrev n = Some s"
  then show "parse_signum s = Some n"
    by (simp add: get_abbrev_iff parse_signum_def signal_names_distinct)
next
  assume n: "in_i32 n"
  have "map_of SIGNAL_NUMS (show_int n) = None"
  proof (rule ccontr)
    assume "map_of SIGNAL_NUMS (show_int n) \<noteq> None"
    then have "show_int n \<in> fst ` set SIGNAL_NUMS"
      by (simp add: map_of_eq_None_iff)
    then have "hd (show_int n) = CHR ''S''"
      by (auto simp: SIGNAL_NUMS_def)
    moreover obtain c cs where "show_nat (nat n) = c # cs" by (cases "show_nat (nat n)") auto
    ultimately show False
      using show_nat_all_digits [of "nat n"] by (auto simp: show_int_def digit_of_def split: if_splits)
  qed
  then show "parse_signum (show_int n) = Some n"
    using n parse_int_show_int [of 32 n] by (simp add: parse_signum_def in_i32_def)
qed

theorem signal_round_trip_witness:
  "get_abbrev 15 = Some ''SIGTERM'' \<and> parse_signum ''SIGTERM'' = Some 15 \<and>
   parse_signum (show_int 64) = Some 64 \<and> get_abbrev 64 = None"
proof -
  have "get_abbrev 15 = Some ''SIGTERM''"
    by (simp add: get_abbrev_def SIGNAL_ABBREVS_def SIGNAL_NUMS_def signal_consts)
  with signal_round_trip [of 15 "''SIGTERM''"] signal_round_trip [of 64 "''SIGTERM''"]
  show ?thesis by (simp add: in_i32_def)
qed

end
