(* ===== verification/Sys.thy ===== *)
theory Sys
  imports Prelude
begin

text \<open>
  The system call wrappers of \<open>src/sys.rs\<close>.  The C library is not part of the source: the record
  \<open>kernel\<close> holds the calls as functions of a kernel state \<open>'k\<close>, each giving the C return value, the
  value of \<open>errno\<close> and the next state.  Every wrapper is the source's \<open>match\<close> on the return value:
  \<open>-1\<close> is the last OS error, the documented success value is \<open>Ok\<close>, anything else panics.
\<close>

section \<open>Effects\<close>

text \<open>
  A function of the source that acts on a state \<open>'k\<close> (the kernel, the process registry) is a function
  from the state to an outcome and the next state.
\<close>

definition ret :: "'a \<Rightarrow> 'k \<Rightarrow> ('a, 'e) outcome \<times> 'k" where
  "ret x k = (Ok x, k)"

definition fail :: "'e \<Rightarrow> 'k \<Rightarrow> ('a, 'e) outcome \<times> 'k" where
  "fail e k = (Err e, k)"

definition panic :: "'k \<Rightarrow> ('a, 'e) outcome \<times> 'k" where
  "panic k = (Panic, k)"

text \<open>Sequencing with the question mark operator: an error or a panic ends the function.\<close>

definition bind ::
  "('k \<Rightarrow> ('a, 'e) outcome \<times> 'k) \<Rightarrow> ('a \<Rightarrow> 'k \<Rightarrow> ('b, 'e) outcome \<times> 'k) \<Rightarrow> 'k \<Rightarrow> ('b, 'e) outcome \<times> 'k" where
  "bind m f k = (case m k of (Ok x, k') \<Rightarrow> f x k' | (Err e, k') \<Rightarrow> (Err e, k') | (Panic, k') \<Rightarrow> (Panic, k'))"

text \<open>Conversion of the error, and recovery from it.\<close>

definition lift_err :: "('e \<Rightarrow> 'f) \<Rightarrow> ('k \<Rightarrow> ('a, 'e) outcome \<times> 'k) \<Rightarrow> 'k \<Rightarrow> ('a, 'f) outcome \<times> 'k" where
  "lift_err f m k = (case m k of (r, k') \<Rightarrow> (map_err f r, k'))"

definition unwrapped :: "('k \<Rightarrow> ('a, 'e) outcome \<times> 'k) \<Rightarrow> 'k \<Rightarrow> ('a, 'f) outcome \<times> 'k" where
  "unwrapped m k = (case m k of (r, k') \<Rightarrow> (unwrap r, k'))"

lemma ret_apply [simp]: "ret x k = (Ok x, k)" by (simp add: ret_def)
lemma fail_apply [simp]: "fail e k = (Err e, k)" by (simp add: fail_def)
lemma panic_apply [simp]: "panic k = (Panic, k)" by (simp add: panic_def)

lemma bind_simps [simp]:
  "m k = (Ok x, k') \<Longrightarrow> bind m f k = f x k'"
  "m k = (Err e, k') \<Longrightarrow> bind m f k = (Err e, k')"
  "m k = (Panic, k') \<Longrightarrow> bind m f k = (Panic, k')"
  by (simp_all add: bind_def)

text \<open>A congruence that runs the steps in order, for long sequences.\<close>

lemma bind_weak_cong: "m = m' \<Longrightarrow> k = k' \<Longrightarrow> bind m f k = bind m' f k'"
  by simp

lemma lift_err_simps [simp]:
  "m k = (r, k') \<Longrightarrow> lift_err f m k = (map_err f r, k')"
  by (simp add: lift_err_def)

lemma unwrapped_simps [simp]:
  "m k = (r, k') \<Longrightarrow> unwrapped m k = (unwrap r, k')"
  by (simp add: unwrapped_def)

text \<open>Functions that may loop: \<open>None\<close> is a run that has not ended.\<close>

type_synonym ('a, 'e, 'k) run = "'k \<Rightarrow> (('a, 'e) outcome \<times> 'k) option"

definition at_once :: "('k \<Rightarrow> ('a, 'e) outcome \<times> 'k) \<Rightarrow> ('a, 'e, 'k) run" where
  "at_once m k = Some (m k)"

definition run_then :: "('a, 'e, 'k) run \<Rightarrow> ('a \<Rightarrow> ('b, 'e, 'k) run) \<Rightarrow> ('b, 'e, 'k) run" where
  "run_then m f k = (case m k of
       None \<Rightarrow> None
     | Some (Ok x, k') \<Rightarrow> f x k'
     | Some (Err e, k') \<Rightarrow> Some (Err e, k')
     | Some (Panic, k') \<Rightarrow> Some (Panic, k'))"

lemma at_once_apply [simp]: "at_once m k = Some (m k)"
  by (simp add: at_once_def)

lemma run_then_simps [simp]:
  "m k = None \<Longrightarrow> run_then m f k = None"
  "m k = Some (Ok x, k') \<Longrightarrow> run_then m f k = f x k'"
  "m k = Some (Err e, k') \<Longrightarrow> run_then m f k = Some (Err e, k')"
  "m k = Some (Panic, k') \<Longrightarrow> run_then m f k = Some (Panic, k')"
  by (simp_all add: run_then_def)

section \<open>I/O errors\<close>

datatype io_kind = NotFound | PermissionDenied | Interrupted | InvalidInput | UnexpectedEof | OtherKind

datatype io_error = OsError int | CustomError io_kind string

text \<open>The kinds the source asks for, from the Linux error numbers.\<close>

fun io_kind_of :: "io_error \<Rightarrow> io_kind" where
  "io_kind_of (CustomError kd _) = kd"
| "io_kind_of (OsError n) =
     (if n = 2 then NotFound
      else if n = 1 \<or> n = 13 then PermissionDenied
      else if n = 4 then Interrupted
      else if n = 22 then InvalidInput
      else OtherKind)"

section \<open>The C library\<close>

type_synonym byte = "8 word"
type_synonym fd_t = int
type_synonym pid_t = int

record timeval =
  tv_sec :: int
  tv_usec :: int

record rusage =
  ru_utime :: timeval
  ru_stime :: timeval
  ru_maxrss :: int
  ru_minflt :: int
  ru_majflt :: int
  ru_nswap :: int
  ru_inblock :: int
  ru_oublock :: int
  ru_nvcsw :: int
  ru_nivcsw :: int

text \<open>
  Each call takes its arguments and the kernel state, and gives the return value, \<open>errno\<close>, what it
  writes through its pointers, and the next state.
\<close>

record 'k kernel =
  libc_close :: "fd_t \<Rightarrow> 'k \<Rightarrow> int \<times> int \<times> 'k"
  libc_dup2 :: "fd_t \<Rightarrow> fd_t \<Rightarrow> 'k \<Rightarrow> int \<times> int \<times> 'k"
  libc_open :: "string \<Rightarrow> int \<Rightarrow> int \<Rightarrow> 'k \<Rightarrow> int \<times> int \<times> 'k"
  libc_mkstemp :: "string \<Rightarrow> 'k \<Rightarrow> int \<times> int \<times> string \<times> 'k"
  libc_unlink :: "string \<Rightarrow> 'k \<Rightarrow> int \<times> int \<times> 'k"
  libc_pipe :: "'k \<Rightarrow> int \<times> int \<times> (fd_t \<times> fd_t) \<times> 'k"
  libc_read :: "fd_t \<Rightarrow> nat \<Rightarrow> 'k \<Rightarrow> int \<times> int \<times> byte list \<times> 'k"
  libc_write :: "fd_t \<Rightarrow> byte list \<Rightarrow> 'k \<Rightarrow> int \<times> int \<times> 'k"
  libc_lseek_set :: "fd_t \<Rightarrow> int \<Rightarrow> 'k \<Rightarrow> int \<times> int \<times> 'k"
  libc_fstat_size :: "fd_t \<Rightarrow> 'k \<Rightarrow> int \<times> int \<times> int \<times> 'k"
  libc_fcntl_getfd :: "fd_t \<Rightarrow> 'k \<Rightarrow> int \<times> int \<times> 'k"
  libc_fcntl_setfd :: "fd_t \<Rightarrow> int \<Rightarrow> 'k \<Rightarrow> int \<times> int \<times> 'k"
  libc_fork :: "'k \<Rightarrow> int \<times> int \<times> 'k"
  libc_setsid :: "'k \<Rightarrow> int \<times> int \<times> 'k"
  libc_execve :: "string \<Rightarrow> string list \<Rightarrow> string list \<Rightarrow> 'k \<Rightarrow> int \<times> int \<times> 'k"
  libc_kill :: "pid_t \<Rightarrow> int \<Rightarrow> 'k \<Rightarrow> int \<times> int \<times> 'k"
  libc_wait4 :: "pid_t \<Rightarrow> int \<Rightarrow> 'k \<Rightarrow> int \<times> int \<times> (32 word \<times> rusage) \<times> 'k"
  libc_sysconf_clk_tck :: "'k \<Rightarrow> int \<times> int \<times> 'k"

section \<open>The wrappers\<close>

text \<open>The common shape: \<open>-1\<close> is the OS error, \<open>good\<close> picks the success values, the rest panics.\<close>

definition check_ret :: "(int \<Rightarrow> 'a option) \<Rightarrow> int \<Rightarrow> int \<Rightarrow> ('a, io_error) outcome" where
  "check_ret good res errno =
     (if res = -1 then Err (OsError errno)
      else case good res of Some x \<Rightarrow> Ok x | None \<Rightarrow> Panic)"

definition close :: "('k, 'z) kernel_scheme \<Rightarrow> fd_t \<Rightarrow> 'k \<Rightarrow> (unit, io_error) outcome \<times> 'k" where
  "close K fd k = (case libc_close K fd k of (res, errno, k') \<Rightarrow>
     (check_ret (\<lambda>r. if r = 0 then Some () else None) res errno, k'))"

definition dup2 :: "('k, 'z) kernel_scheme \<Rightarrow> fd_t \<Rightarrow> fd_t \<Rightarrow> 'k \<Rightarrow> (unit, io_error) outcome \<times> 'k" where
  "dup2 K fd fd2 k = (case libc_dup2 K fd fd2 k of (res, errno, k') \<Rightarrow>
     (check_ret (\<lambda>r. if r = fd2 then Some () else None) res errno, k'))"

text \<open>
  \<open>CString::new\<close> refuses a string with a nul byte.  \<open>execve\<close> builds the NAME=val strings, and only
  returns on failure: any return value but \<open>-1\<close> fails the assertion.
\<close>

definition cstring_new :: "string \<Rightarrow> (string, io_error) outcome" where
  "cstring_new s = (if CHR 0x00 \<in> set s then Err (CustomError InvalidInput ''nul byte found in data'') else Ok s)"

fun all_cstrings :: "string list \<Rightarrow> bool" where
  "all_cstrings [] = True"
| "all_cstrings (s # ss) = (CHR 0x00 \<notin> set s \<and> all_cstrings ss)"

definition execve ::
  "('k, 'z) kernel_scheme \<Rightarrow> string \<Rightarrow> string list \<Rightarrow> (string \<times> string) list \<Rightarrow> 'k \<Rightarrow> (unit, io_error) outcome \<times> 'k" where
  "execve K exe args env k =
     (let env' = map (\<lambda>(n, v). n @ ''='' @ v) env in
      if \<not> (all_cstrings [exe] \<and> all_cstrings args \<and> all_cstrings env') then (Panic, k)
      else case libc_execve K exe args env' k of (res, errno, k') \<Rightarrow>
        (if res = -1 then Err (OsError errno) else Panic, k'))"

definition fork :: "('k, 'z) kernel_scheme \<Rightarrow> 'k \<Rightarrow> (pid_t, io_error) outcome \<times> 'k" where
  "fork K k = (case libc_fork K k of (child_pid, errno, k') \<Rightarrow>
     (if child_pid < -1 then Panic
      else check_ret (\<lambda>r. if r \<ge> 0 then Some r else None) child_pid errno, k'))"

definition setsid :: "('k, 'z) kernel_scheme \<Rightarrow> 'k \<Rightarrow> (pid_t, io_error) outcome \<times> 'k" where
  "setsid K k = (case libc_setsid K k of (pgid, errno, k') \<Rightarrow> (check_ret Some pgid errno, k'))"

definition mkstemp :: "('k, 'z) kernel_scheme \<Rightarrow> string \<Rightarrow> 'k \<Rightarrow> (string \<times> fd_t, io_error) outcome \<times> 'k" where
  "mkstemp K template k =
     (case cstring_new template of
        Ok path \<Rightarrow> (case libc_mkstemp K path k of (fd, errno, path', k') \<Rightarrow>
          (check_ret (\<lambda>r. if r \<ge> 0 then Some (path', r) else None) fd errno, k'))
      | Err e \<Rightarrow> (Err e, k)
      | Panic \<Rightarrow> (Panic, k))"

definition sys_open :: "('k, 'z) kernel_scheme \<Rightarrow> string \<Rightarrow> int \<Rightarrow> int \<Rightarrow> 'k \<Rightarrow> (fd_t, io_error) outcome \<times> 'k" where
  "sys_open K path oflag mode k =
     (case cstring_new path of
        Ok p \<Rightarrow> (case libc_open K p oflag mode k of (fd, errno, k') \<Rightarrow>
          (check_ret (\<lambda>r. if r \<ge> 0 then Some r else None) fd errno, k'))
      | _ \<Rightarrow> (Panic, k))"

record 'a rw_pair =
  rw_read :: 'a
  rw_write :: 'a

definition pipe :: "('k, 'z) kernel_scheme \<Rightarrow> 'k \<Rightarrow> (fd_t rw_pair, io_error) outcome \<times> 'k" where
  "pipe K k = (case libc_pipe K k of (res, errno, fds, k') \<Rightarrow>
     (check_ret (\<lambda>r. if r = 0 then Some \<lparr>rw_read = fst fds, rw_write = snd fds\<rparr> else None) res errno, k'))"

text \<open>\<open>read\<close> fills a buffer of \<open>len\<close> bytes; its result is the number of bytes and the bytes read.\<close>

definition sys_read :: "('k, 'z) kernel_scheme \<Rightarrow> fd_t \<Rightarrow> nat \<Rightarrow> 'k \<Rightarrow> (nat \<times> byte list, io_error) outcome \<times> 'k" where
  "sys_read K fd len k = (case libc_read K fd len k of (res, errno, data, k') \<Rightarrow>
     (check_ret (\<lambda>r. if r \<ge> 0 then Some (nat r, data) else None) res errno, k'))"

definition sys_write :: "('k, 'z) kernel_scheme \<Rightarrow> fd_t \<Rightarrow> byte list \<Rightarrow> 'k \<Rightarrow> (nat, io_error) outcome \<times> 'k" where
  "sys_write K fd data k = (case libc_write K fd data k of (res, errno, k') \<Rightarrow>
     (check_ret (\<lambda>r. if r \<ge> 0 then Some (nat r) else None) res errno, k'))"

text \<open>\<open>fstat\<close>, of whose result only the size is used.\<close>

definition fstat :: "('k, 'z) kernel_scheme \<Rightarrow> fd_t \<Rightarrow> 'k \<Rightarrow> (int, io_error) outcome \<times> 'k" where
  "fstat K fd k = (case libc_fstat_size K fd k of (res, errno, size', k') \<Rightarrow>
     (check_ret (\<lambda>r. if r = 0 then Some size' else None) res errno, k'))"

definition get_file_length :: "('k, 'z) kernel_scheme \<Rightarrow> fd_t \<Rightarrow> 'k \<Rightarrow> (int, io_error) outcome \<times> 'k" where
  "get_file_length K fd = fstat K fd"

definition fcntl_getfd :: "('k, 'z) kernel_scheme \<Rightarrow> fd_t \<Rightarrow> 'k \<Rightarrow> (int, io_error) outcome \<times> 'k" where
  "fcntl_getfd K fd k = (case libc_fcntl_getfd K fd k of (res, errno, k') \<Rightarrow> (check_ret Some res errno, k'))"

definition fcntl_setfd :: "('k, 'z) kernel_scheme \<Rightarrow> fd_t \<Rightarrow> int \<Rightarrow> 'k \<Rightarrow> (unit, io_error) outcome \<times> 'k" where
  "fcntl_setfd K fd flags k = (case libc_fcntl_setfd K fd flags k of (res, errno, k') \<Rightarrow>
     (check_ret (\<lambda>r. Some ()) res errno, k'))"

definition FD_CLOEXEC :: int where "FD_CLOEXEC = 1"

unbundle bit_operations_syntax

definition set_cloexec :: "('k, 'z) kernel_scheme \<Rightarrow> fd_t \<Rightarrow> 'k \<Rightarrow> (unit, io_error) outcome \<times> 'k" where
  "set_cloexec K fd = bind (fcntl_getfd K fd) (\<lambda>flags.
     if flags AND FD_CLOEXEC = 0 then fcntl_setfd K fd (flags OR FD_CLOEXEC) else ret ())"

section \<open>Waiting and signalling\<close>

type_synonym wait_info = "pid_t \<times> 32 word \<times> rusage"

definition WNOHANG :: int where "WNOHANG = 1"

definition wait4 :: "('k, 'z) kernel_scheme \<Rightarrow> pid_t \<Rightarrow> bool \<Rightarrow> 'k \<Rightarrow> (wait_info option, io_error) outcome \<times> 'k" where
  "wait4 K pid block k =
     (case libc_wait4 K pid (if block then 0 else WNOHANG) k of (res, errno, (status, usage), k') \<Rightarrow>
        (if res = -1 then Err (OsError errno)
         else if res = 0 then Ok None
         else Ok (Some (res, status, usage)), k'))"

text \<open>
  \<open>wait\<close> loops only while a blocking call is interrupted, so the loop is given by fuel: \<open>None\<close> is a
  call that is still waiting.  A nonblocking call makes one attempt.
\<close>

fun wait :: "nat \<Rightarrow> ('k, 'z) kernel_scheme \<Rightarrow> pid_t \<Rightarrow> bool \<Rightarrow> 'k \<Rightarrow> ((wait_info option, unit) outcome \<times> 'k) option" where
  "wait 0 K pid block k = None"
| "wait (Suc n) K pid block k =
     (case wait4 K pid block k of
        (Ok (Some ti), k') \<Rightarrow> Some (if fst ti = pid then Ok (Some ti) else Panic, k')
      | (Ok None, k') \<Rightarrow> Some (if block then Panic else Ok None, k')
      | (Err err, k') \<Rightarrow>
          if io_kind_of err = Interrupted
          then if block then wait n K pid block k' else Some (Ok None, k')
          else Some (Panic, k')
      | (Panic, k') \<Rightarrow> Some (Panic, k'))"

definition ESRCH :: int where "ESRCH = 3"

definition kill :: "('k, 'z) kernel_scheme \<Rightarrow> pid_t \<Rightarrow> int \<Rightarrow> 'k \<Rightarrow> (unit, io_error) outcome \<times> 'k" where
  "kill K pid signum k = (case libc_kill K pid signum k of (res, errno, k') \<Rightarrow>
     (if res = -1 then Err (if errno = ESRCH then CustomError NotFound ''No process or process group''
                            else OsError errno)
      else if res = 0 then Ok () else Panic, k'))"

definition get_clk_tck :: "('k, 'z) kernel_scheme \<Rightarrow> 'k \<Rightarrow> (int, io_error) outcome \<times> 'k" where
  "get_clk_tck K k = (case libc_sysconf_clk_tck K k of (val, errno, k') \<Rightarrow> (check_ret Some val errno, k'))"

text \<open>\<open>getenv\<close>: the first environment entry of the name.\<close>

definition getenv :: "(string \<times> string) list \<Rightarrow> string \<Rightarrow> string option" where
  "getenv vars name = map_option snd (find (\<lambda>(n, _). n = name) vars)"

declare wait.simps(2) [simp del]

text \<open>A nonblocking \<open>wait\<close> needs one unit of fuel.\<close>

lemma wait_nonblocking: "\<exists>r. wait (Suc n) K pid False k = Some r"
  by (cases "wait4 K pid False k", cases "fst (wait4 K pid False k)")
    (auto simp: wait.simps(2) split: option.splits)

text \<open>More fuel never changes a result.\<close>

lemma wait_more_fuel: "wait n K pid block k = Some r \<Longrightarrow> wait (Suc n) K pid block k = Some r"
proof (induction n arbitrary: k block)
  case 0
  then show ?case by simp
next
  case (Suc n)
  from Suc.prems show ?case
    by (cases "wait4 K pid block k", cases "fst (wait4 K pid block k)")
      (auto simp: wait.simps(2) [of "Suc n"] wait.simps(2) [of n K pid block k]
        dest: Suc.IH split: option.splits if_splits)
qed

text \<open>A result of \<open>wait\<close> is always for the awaited process.\<close>

lemma wait_pid:
  "case wait n K pid block k of Some (Ok (Some ti), _) \<Rightarrow> fst ti = pid | _ \<Rightarrow> True"
proof (induction n arbitrary: k block)
  case 0
  then show ?case by simp
next
  case (Suc n)
  obtain r k1 where w: "wait4 K pid block k = (r, k1)" by (cases "wait4 K pid block k")
  show ?case
  proof (cases r)
    case (Ok x)
    with w show ?thesis by (cases x) (simp_all add: wait.simps(2))
  next
    case (Err e)
    with w show ?thesis by (simp add: wait.simps(2) Suc.IH)
  next
    case Panic
    with w show ?thesis by (simp add: wait.simps(2))
  qed
qed

end
