(* ===== verification/Spec.thy ===== *)
theory Spec
  imports Sys BTree "HOL-Library.Multiset"
begin

text \<open>
  The process specifications of \<open>src/spec.rs\<close>: their data, the names of file descriptors, and
  \<open>validate_procs_fds\<close>, which decides whether the descriptors and pipes of a batch of specs fit
  together.  The abstract condition it decides is \<open>pipes_matched\<close>.
\<close>

type_synonym proc_id = string
type_synonym fd_name = string
type_synonym raw_fd = int

section \<open>Errors\<close>

text \<open>\<open>JsonError\<close> carries the message of the third-party \<open>serde_json\<close> error.\<close>

datatype spec_error =
    BadFd string
  | DuplicateFd fd_name
  | DuplicateProcId proc_id
  | SpecIo io_error
  | SpecJson string
  | UnmatchedReadFd proc_id fd_name
  | UnmatchedWriteFd proc_id fd_name

text \<open>\<open>Display\<close>; the text of an I/O error is the C library's, a parameter.\<close>

fun spec_error_fmt :: "(io_error \<Rightarrow> string) \<Rightarrow> spec_error \<Rightarrow> string" where
  "spec_error_fmt io_fmt (BadFd name) = ''bad fd: '' @ name"
| "spec_error_fmt io_fmt (DuplicateFd fd) = ''duplicate fd: '' @ fd"
| "spec_error_fmt io_fmt (SpecIo err) = io_fmt err"
| "spec_error_fmt io_fmt (SpecJson err) = err"
| "spec_error_fmt io_fmt (DuplicateProcId proc_id) = ''duplicate proc id: '' @ proc_id"
| "spec_error_fmt io_fmt (UnmatchedReadFd proc_id fd) = ''unmatched read pipe: '' @ proc_id @ '' '' @ fd"
| "spec_error_fmt io_fmt (UnmatchedWriteFd proc_id fd) = ''unmatched write pipe: '' @ proc_id @ '' '' @ fd"

section \<open>Environment specs\<close>

datatype env_inherit = InheritNone | InheritAll | InheritVars "string list"

text \<open>
  The hand-written deserializer: a boolean or a sequence of strings.  The value a visitor is given
  comes from a self-describing format; \<open>json\<close> is that of \<open>serde_json\<close>.
\<close>

datatype json =
    JNull
  | JBool bool
  | JInt int
  | JStr string
  | JArr "json list"
  | JObj "(string \<times> json) list"

fun visit_seq :: "json list \<Rightarrow> string list option" where
  "visit_seq [] = Some []"
| "visit_seq (JStr var # seq) = map_option (\<lambda>vars. var # vars) (visit_seq seq)"
| "visit_seq (_ # seq) = None"

fun env_inherit_deserialize :: "json \<Rightarrow> env_inherit option" where
  "env_inherit_deserialize (JBool v) = Some (if v then InheritAll else InheritNone)"
| "env_inherit_deserialize (JArr seq) = map_option InheritVars (visit_seq seq)"
| "env_inherit_deserialize _ = None"

record env_spec =
  inherit :: env_inherit
  vars :: "(string, string option) btree"

section \<open>Fd specs\<close>

datatype open_flag =
  FlagDefault | FlagRead | FlagWrite | FlagCreate | FlagReplace | FlagCreateAppend | FlagAppend | FlagReadWrite

datatype capture_mode = TempFile | Memory

datatype capture_encoding = Utf8

definition get_default_mode :: int where
  "get_default_mode = 438" \<comment> \<open>0o666\<close>

datatype fd_spec =
    FdInherit
  | FdClose
  | FdNull open_flag
  | FdFile string open_flag int
  | FdDup fd_t
  | FdCapture capture_mode "capture_encoding option" bool
  | FdPipeWrite
  | FdPipeRead proc_id fd_name

definition attached_default :: bool where
  "attached_default = True"

definition parse_fd :: "string \<Rightarrow> (raw_fd, spec_error) outcome" where
  "parse_fd fd =
     (if fd = ''stdin'' then Ok 0
      else if fd = ''stdout'' then Ok 1
      else if fd = ''stderr'' then Ok 2
      else ok_or (BadFd fd) (parse_int 32 fd))"

lemma parse_fd_no_panic [simp]: "parse_fd s \<noteq> Panic"
  by (auto simp: parse_fd_def ok_or_def split: option.splits)

lemma parse_fd_Err: "parse_fd s = Err e \<Longrightarrow> e = BadFd s"
  by (auto simp: parse_fd_def ok_or_def split: option.splits if_splits)

lemma parse_fd_range: "parse_fd s = Ok fd \<Longrightarrow> in_i32 fd"
  by (auto simp: parse_fd_def ok_or_def in_i32_def split: option.splits if_splits
      dest: parse_int_range)

section \<open>Systemd properties\<close>

datatype oom_policy = OomContinue | OomStop | OomKill

fun oom_policy_as_str :: "oom_policy \<Rightarrow> string" where
  "oom_policy_as_str OomContinue = ''continue''"
| "oom_policy_as_str OomStop = ''stop''"
| "oom_policy_as_str OomKill = ''kill''"

text \<open>The property values the source builds (\<open>zvariant::Value\<close>), and a unit property.\<close>

datatype unit_value = ValStr string | ValU64 "64 word" | ValBool bool | ValU32s "32 word list"

record unit_property =
  up_name :: string
  up_value :: unit_value

record scope_spec =
  oom_policy :: "oom_policy option"
  runtime_max_usec :: "64 word option"
  runtime_randomized_extra_usec :: "64 word option"

record slice_spec =
  memory_accounting :: "bool option"
  memory_min :: "64 word option"
  memory_low :: "64 word option"
  memory_high :: "64 word option"
  memory_max :: "64 word option"
  memory_swap_max :: "64 word option"
  tasks_accounting :: "bool option"
  tasks_max :: "64 word option"

definition unit_property_from :: "string \<Rightarrow> unit_value \<Rightarrow> unit_property" where
  "unit_property_from name v = \<lparr>up_name = name, up_value = v\<rparr>"

definition push_some :: "string \<Rightarrow> ('a \<Rightarrow> unit_value) \<Rightarrow> 'a option \<Rightarrow> unit_property list" where
  "push_some name into ov = (case ov of None \<Rightarrow> [] | Some val \<Rightarrow> [unit_property_from name (into val)])"

definition scope_properties :: "scope_spec \<Rightarrow> unit_property list" where
  "scope_properties scope =
     push_some ''OOMPolicy'' (\<lambda>val. ValStr (oom_policy_as_str val)) (oom_policy scope)
   @ push_some ''RuntimeMaxUSec'' ValU64 (runtime_max_usec scope)
   @ push_some ''RuntimeRandomizedExtraUSec'' ValU64 (runtime_randomized_extra_usec scope)"

definition slice_properties :: "slice_spec \<Rightarrow> unit_property list" where
  "slice_properties sl =
     push_some ''MemoryAccounting'' ValBool (memory_accounting sl)
   @ push_some ''MemoryMin'' ValU64 (memory_min sl)
   @ push_some ''MemoryLow'' ValU64 (memory_low sl)
   @ push_some ''MemoryHigh'' ValU64 (memory_high sl)
   @ push_some ''MemoryMax'' ValU64 (memory_max sl)
   @ push_some ''MemorySwapMax'' ValU64 (memory_swap_max sl)
   @ push_some ''TasksAccounting'' ValBool (tasks_accounting sl)
   @ push_some ''TasksMax'' ValU64 (tasks_max sl)"

record systemd_properties =
  sp_scope :: scope_spec
  sp_slice :: slice_spec

section \<open>Process specs\<close>

record proc_spec =
  ps_id :: "string option"
  exe :: "string option"
  argv :: "string list"
  env :: env_spec
  fds :: "(fd_name \<times> fd_spec) list"
  systemd_props :: systemd_properties

type_synonym proc_specs = "(proc_id, proc_spec) btree"

text \<open>The defaults that deserialization fills in.\<close>

definition default_env :: env_spec where
  "default_env = \<lparr>inherit = InheritAll, vars = []\<rparr>"

definition default_scope :: scope_spec where
  "default_scope = \<lparr>oom_policy = None, runtime_max_usec = None, runtime_randomized_extra_usec = None\<rparr>"

definition default_slice :: slice_spec where
  "default_slice = \<lparr>memory_accounting = None, memory_min = None, memory_low = None, memory_high = None,
     memory_max = None, memory_swap_max = None, tasks_accounting = None, tasks_max = None\<rparr>"

definition default_proc :: proc_spec where
  "default_proc = \<lparr>ps_id = None, exe = None, argv = [], env = default_env, fds = [],
     systemd_props = \<lparr>sp_scope = default_scope, sp_slice = default_slice\<rparr>\<rparr>"

record input =
  specs :: proc_specs

definition input_new :: input where
  "input_new = \<lparr>specs = []\<rparr>"

section \<open>Validation of file descriptors\<close>

text \<open>
  A \<open>HashSet\<close> is the list of its elements without repetition.  \<open>insert\<close> and \<open>remove\<close> tell whether
  they changed it.  The order of its iteration depends on the random keys of the hasher: \<open>hs_next\<close>
  takes a seed, and any element can be first.
\<close>

definition hs_insert :: "'a \<Rightarrow> 'a list \<Rightarrow> bool \<times> 'a list" where
  "hs_insert x s = (if x \<in> set s then (False, s) else (True, x # s))"

definition hs_remove :: "'a \<Rightarrow> 'a list \<Rightarrow> bool \<times> 'a list" where
  "hs_remove x s = (if x \<in> set s then (True, remove1 x s) else (False, s))"

definition hs_next :: "nat \<Rightarrow> 'a list \<Rightarrow> 'a option" where
  "hs_next seed s = (if s = [] then None else Some (s ! (seed mod length s)))"

type_synonym pipe_fds = "(proc_id \<times> raw_fd) list"

text \<open>First loop: a fd specified more than once for one proc.\<close>

fun check_dup_fds :: "raw_fd list \<Rightarrow> (fd_name \<times> fd_spec) list \<Rightarrow> (unit, spec_error) outcome" where
  "check_dup_fds seen [] = Ok ()"
| "check_dup_fds seen ((fd_name, _) # rest) =
     and_then (parse_fd fd_name) (\<lambda>fd.
       case hs_insert fd seen of (new, seen') \<Rightarrow>
         if \<not> new then Err (DuplicateFd fd_name) else check_dup_fds seen' rest)"

fun check_all_dups :: "proc_specs \<Rightarrow> (unit, spec_error) outcome" where
  "check_all_dups [] = Ok ()"
| "check_all_dups ((_, proc) # rest) =
     and_then (check_dup_fds [] (fds proc)) (\<lambda>_. check_all_dups rest)"

text \<open>Second loop: collect write pipes; the assertion panics on a repeated key.\<close>

fun collect_write_fds ::
  "proc_id \<Rightarrow> pipe_fds \<Rightarrow> (fd_name \<times> fd_spec) list \<Rightarrow> (pipe_fds, spec_error) outcome" where
  "collect_write_fds proc_id unmatched [] = Ok unmatched"
| "collect_write_fds proc_id unmatched ((fd_name, fd) # rest) =
     (if fd = FdPipeWrite
      then and_then (parse_fd fd_name) (\<lambda>n.
             case hs_insert (proc_id, n) unmatched of (new, unmatched') \<Rightarrow>
               if new then collect_write_fds proc_id unmatched' rest else Panic)
      else collect_write_fds proc_id unmatched rest)"

fun collect_write_pipes :: "pipe_fds \<Rightarrow> proc_specs \<Rightarrow> (pipe_fds, spec_error) outcome" where
  "collect_write_pipes unmatched [] = Ok unmatched"
| "collect_write_pipes unmatched ((proc_id, proc) # rest) =
     and_then (collect_write_fds proc_id unmatched (fds proc)) (\<lambda>unmatched'.
       collect_write_pipes unmatched' rest)"

text \<open>Third loop: match up read pipes.\<close>

fun match_read_fds :: "pipe_fds \<Rightarrow> (fd_name \<times> fd_spec) list \<Rightarrow> (pipe_fds, spec_error) outcome" where
  "match_read_fds unmatched [] = Ok unmatched"
| "match_read_fds unmatched ((_, FdPipeRead from_proc_id from_fd_name) # rest) =
     and_then (parse_fd from_fd_name) (\<lambda>n.
       case hs_remove (from_proc_id, n) unmatched of (found, unmatched') \<Rightarrow>
         if found then match_read_fds unmatched' rest
         else Err (UnmatchedReadFd from_proc_id from_fd_name))"
| "match_read_fds unmatched ((_, _) # rest) = match_read_fds unmatched rest"

fun match_read_pipes :: "pipe_fds \<Rightarrow> proc_specs \<Rightarrow> (pipe_fds, spec_error) outcome" where
  "match_read_pipes unmatched [] = Ok unmatched"
| "match_read_pipes unmatched ((_, proc) # rest) =
     and_then (match_read_fds unmatched (fds proc)) (\<lambda>unmatched'. match_read_pipes unmatched' rest)"

definition validate_procs_fds :: "nat \<Rightarrow> proc_specs \<Rightarrow> (unit, spec_error) outcome" where
  "validate_procs_fds seed procs =
     and_then (check_all_dups procs) (\<lambda>_.
     and_then (collect_write_pipes [] procs) (\<lambda>unmatched.
     and_then (match_read_pipes unmatched procs) (\<lambda>unmatched.
       case hs_next seed unmatched of
         Some (proc_id, fd_num) \<Rightarrow> Err (UnmatchedWriteFd proc_id (show_int fd_num))
       | None \<Rightarrow> Ok ())))"

section \<open>What validation decides\<close>

text \<open>
  The abstract condition.  Within a proc the fd names denote different descriptors, and the write
  ends of the batch (a proc ID and its fd) are, with multiplicity, the ends its read pipes name.
\<close>

definition fd_num :: "fd_name \<Rightarrow> raw_fd option" where
  "fd_num name = ok_opt (parse_fd name)"

definition fds_distinct :: "(fd_name \<times> fd_spec) list \<Rightarrow> bool" where
  "fds_distinct xs \<longleftrightarrow> None \<notin> set (map (fd_num \<circ> fst) xs) \<and> distinct (map (fd_num \<circ> fst) xs)"

definition fds_write_ends :: "proc_id \<Rightarrow> (fd_name \<times> fd_spec) list \<Rightarrow> (proc_id \<times> raw_fd option) list" where
  "fds_write_ends proc_id xs = map (\<lambda>x. (proc_id, fd_num (fst x))) (filter (\<lambda>x. snd x = FdPipeWrite) xs)"

fun read_end :: "fd_spec \<Rightarrow> (proc_id \<times> raw_fd option) list" where
  "read_end (FdPipeRead from_proc_id from_fd_name) = [(from_proc_id, fd_num from_fd_name)]"
| "read_end _ = []"

definition fds_read_ends :: "(fd_name \<times> fd_spec) list \<Rightarrow> (proc_id \<times> raw_fd option) list" where
  "fds_read_ends xs = concat (map (read_end \<circ> snd) xs)"

definition write_ends :: "proc_specs \<Rightarrow> (proc_id \<times> raw_fd option) list" where
  "write_ends procs = concat (map (\<lambda>(proc_id, proc). fds_write_ends proc_id (fds proc)) procs)"

definition read_ends :: "proc_specs \<Rightarrow> (proc_id \<times> raw_fd option) list" where
  "read_ends procs = concat (map (\<lambda>(proc_id, proc). fds_read_ends (fds proc)) procs)"

definition pipes_matched :: "proc_specs \<Rightarrow> bool" where
  "pipes_matched procs \<longleftrightarrow>
     list_all (\<lambda>(_, proc). fds_distinct (fds proc)) procs \<and>
     mset (write_ends procs) = mset (read_ends procs)"

lemma fd_num_Some: "fd_num n = Some fd \<longleftrightarrow> parse_fd n = Ok fd"
  by (cases "parse_fd n") (auto simp: fd_num_def)

lemma fd_num_None: "fd_num n = None \<longleftrightarrow> parse_fd n = Err (BadFd n)"
  using parse_fd_Err [of n] by (cases "parse_fd n") (auto simp: fd_num_def)

lemma parse_fd_fd_num: "parse_fd n = (case fd_num n of Some fd \<Rightarrow> Ok fd | None \<Rightarrow> Err (BadFd n))"
  using fd_num_Some [of n] fd_num_None [of n] by (cases "fd_num n") auto

text \<open>The first loop.\<close>

lemma check_dup_fds_no_panic: "check_dup_fds seen xs \<noteq> Panic"
  by (induction xs arbitrary: seen)
    (auto simp: parse_fd_fd_num hs_insert_def split: option.splits if_splits)

lemma check_dup_fds_iff:
  "check_dup_fds seen xs = Ok () \<longleftrightarrow>
     fds_distinct xs \<and> (\<forall>fd \<in> set seen. Some fd \<notin> set (map (fd_num \<circ> fst) xs))"
proof (induction xs arbitrary: seen)
  case Nil
  then show ?case by (simp add: fds_distinct_def)
next
  case (Cons x xs)
  obtain n f where x: "x = (n, f)" by (cases x)
  show ?case
    by (cases "fd_num n")
      (auto simp: x parse_fd_fd_num hs_insert_def Cons.IH fds_distinct_def)
qed

lemma check_all_dups_iff:
  "check_all_dups procs = Ok () \<longleftrightarrow> list_all (\<lambda>(_, proc). fds_distinct (fds proc)) procs"
  by (induction procs rule: check_all_dups.induct)
    (auto simp: outcome_simps check_dup_fds_iff)

lemma check_all_dups_no_panic: "check_all_dups procs \<noteq> Panic"
  by (induction procs rule: check_all_dups.induct)
    (auto simp: outcome_simps check_dup_fds_no_panic)

text \<open>The second loop: the assertion holds after the first loop, and the set is the write ends.\<close>

lemma collect_write_fds_distinct:
  assumes "fds_distinct xs"
    and "\<forall>n. (proc_id, n) \<in> set um \<longrightarrow> Some n \<notin> set (map (fd_num \<circ> fst) xs)"
  shows "\<exists>ws. collect_write_fds proc_id um xs = Ok (ws @ um) \<and>
              map (apsnd Some) ws = rev (fds_write_ends proc_id xs)"
  using assms
proof (induction xs arbitrary: um)
  case Nil
  then show ?case by (simp add: fds_write_ends_def)
next
  case (Cons x xs)
  obtain n f where x: "x = (n, f)" by (cases x)
  from Cons.prems(1) obtain fd where fd: "fd_num n = Some fd" and d: "fds_distinct xs"
      and new: "Some fd \<notin> set (map (fd_num \<circ> fst) xs)"
    by (cases "fd_num n") (auto simp: fds_distinct_def x)
  show ?case
  proof (cases "f = FdPipeWrite")
    case True
    have um: "(proc_id, fd) \<notin> set um" using Cons.prems(2) fd by (auto simp: x)
    have "\<forall>n. (proc_id, n) \<in> set ((proc_id, fd) # um) \<longrightarrow> Some n \<notin> set (map (fd_num \<circ> fst) xs)"
      using Cons.prems(2) new by auto
    from Cons.IH [OF d this] obtain ws where
        "collect_write_fds proc_id ((proc_id, fd) # um) xs = Ok (ws @ (proc_id, fd) # um)"
        "map (apsnd Some) ws = rev (fds_write_ends proc_id xs)"
      by blast
    with True um fd show ?thesis
      by (intro exI [of _ "ws @ [(proc_id, fd)]"])
        (simp add: x parse_fd_fd_num hs_insert_def fds_write_ends_def)
  next
    case False
    with Cons.IH [OF d, of um] Cons.prems(2) show ?thesis
      by (simp add: x fds_write_ends_def)
  qed
qed

lemma collect_write_pipes_distinct:
  assumes "list_all (\<lambda>(_, proc). fds_distinct (fds proc)) procs"
    and "distinct (map fst procs)" and "fst ` set um \<inter> fst ` set procs = {}"
  shows "\<exists>ws. collect_write_pipes um procs = Ok (ws @ um) \<and>
              mset (map (apsnd Some) ws) = mset (write_ends procs)"
  using assms
proof (induction procs arbitrary: um)
  case Nil
  then show ?case by (simp add: write_ends_def)
next
  case (Cons p procs)
  obtain i proc where p: "p = (i, proc)" by (cases p)
  have i: "\<forall>n. (i, n) \<in> set um \<longrightarrow> Some n \<notin> set (map (fd_num \<circ> fst) (fds proc))"
    using Cons.prems(3) by (force simp: p)
  from Cons.prems(1) collect_write_fds_distinct [OF _ i] obtain ws where
      ws: "collect_write_fds i um (fds proc) = Ok (ws @ um)"
        "map (apsnd Some) ws = rev (fds_write_ends i (fds proc))"
    by (auto simp: p)
  have "fst ` set ws = fst ` set (map (apsnd Some) ws)" by (simp add: image_image)
  also have "\<dots> \<subseteq> {i}" unfolding ws(2) by (auto simp: fds_write_ends_def)
  finally have "fst ` set ws \<subseteq> {i}" .
  then have "fst ` set (ws @ um) \<inter> fst ` set procs = {}"
    using Cons.prems(2,3) by (auto simp: p)
  with Cons.IH [of "ws @ um"] Cons.prems obtain vs where
      vs: "collect_write_pipes (ws @ um) procs = Ok (vs @ ws @ um)"
        "mset (map (apsnd Some) vs) = mset (write_ends procs)"
    by (auto simp: p)
  with ws show ?case
    by (intro exI [of _ "vs @ ws"]) (simp add: p write_ends_def)
qed

text \<open>The third loop removes the read ends from the set, one by one.\<close>

lemma match_read_fds_skip: "read_end f = [] \<Longrightarrow> match_read_fds um ((n, f) # rest) = match_read_fds um rest"
  by (cases f) auto

lemma match_read_fds_read:
  "match_read_fds um ((n, FdPipeRead i m) # rest) =
     (case fd_num m of
        None \<Rightarrow> Err (BadFd m)
      | Some fd \<Rightarrow> if (i, fd) \<in> set um then match_read_fds (remove1 (i, fd) um) rest
                  else Err (UnmatchedReadFd i m))"
  by (simp add: parse_fd_fd_num hs_remove_def split: option.split)

lemma read_end_cases:
  obtains "read_end f = []" | i m where "f = FdPipeRead i m"
  by (cases f) auto

lemma match_read_fds_no_panic: "match_read_fds um xs \<noteq> Panic"
proof (induction xs arbitrary: um)
  case (Cons x xs)
  then show ?case
    by (cases x; cases "snd x" rule: read_end_cases)
      (simp_all add: match_read_fds_skip match_read_fds_read del: match_read_fds.simps split: option.split)
qed simp

lemma mset_remove1_add: "x \<in> set um \<Longrightarrow> mset um = add_mset x (mset (remove1 x um))"
  by simp

lemma match_read_fds_Ok:
  "match_read_fds um xs = Ok um' \<Longrightarrow>
   mset (map (apsnd Some) um) = mset (map (apsnd Some) um') + mset (fds_read_ends xs)"
proof (induction xs arbitrary: um)
  case Nil
  then show ?case by (simp add: fds_read_ends_def)
next
  case (Cons x xs)
  obtain n f where x: "x = (n, f)" by (cases x)
  show ?case
  proof (cases f rule: read_end_cases)
    case 1
    with Cons show ?thesis by (simp add: x match_read_fds_skip fds_read_ends_def)
  next
    case (2 i m)
    with Cons.prems obtain fd where fd: "fd_num m = Some fd" "(i, fd) \<in> set um"
        "match_read_fds (remove1 (i, fd) um) xs = Ok um'"
      by (auto simp: x match_read_fds_read simp del: match_read_fds.simps split: option.splits if_splits)
    from mset_remove1_add [OF fd(2)]
    have "mset (map (apsnd Some) um) = add_mset (i, Some fd) (mset (map (apsnd Some) (remove1 (i, fd) um)))"
      by (simp only: mset_map image_mset_add_mset) simp
    with Cons.IH [OF fd(3)] fd(1) 2 show ?thesis
      by (simp add: x fds_read_ends_def)
  qed
qed

lemma match_read_fds_ex:
  assumes "mset (fds_read_ends xs) \<subseteq># mset (map (apsnd Some) um)"
  shows "\<exists>um'. match_read_fds um xs = Ok um'"
  using assms
proof (induction xs arbitrary: um)
  case Nil
  then show ?case by simp
next
  case (Cons x xs)
  obtain n f where x: "x = (n, f)" by (cases x)
  show ?case
  proof (cases f rule: read_end_cases)
    case 1
    with Cons show ?thesis by (simp add: x match_read_fds_skip fds_read_ends_def)
  next
    case (2 i m)
    have "(i, fd_num m) \<in># mset (map (apsnd Some) um)"
      using Cons.prems 2 by (auto simp: x fds_read_ends_def dest!: mset_subset_eqD)
    then obtain fd where fd: "fd_num m = Some fd" "(i, fd) \<in> set um" by auto
    from mset_remove1_add [OF fd(2)]
    have "mset (map (apsnd Some) um) = add_mset (i, Some fd) (mset (map (apsnd Some) (remove1 (i, fd) um)))"
      by (simp only: mset_map image_mset_add_mset) simp
    then have "mset (fds_read_ends xs) \<subseteq># mset (map (apsnd Some) (remove1 (i, fd) um))"
      using Cons.prems 2 fd(1) by (simp add: x fds_read_ends_def)
    with Cons.IH fd 2 show ?thesis
      by (simp add: x match_read_fds_read del: match_read_fds.simps)
  qed
qed

lemma match_read_pipes_no_panic: "match_read_pipes um procs \<noteq> Panic"
  by (induction um procs rule: match_read_pipes.induct)
    (auto simp: outcome_simps match_read_fds_no_panic)

lemma match_read_pipes_Ok:
  "match_read_pipes um procs = Ok um' \<Longrightarrow>
   mset (map (apsnd Some) um) = mset (map (apsnd Some) um') + mset (read_ends procs)"
  by (induction um procs rule: match_read_pipes.induct)
    (auto simp: outcome_simps read_ends_def dest!: match_read_fds_Ok)

lemma match_read_pipes_ex:
  assumes "mset (read_ends procs) \<subseteq># mset (map (apsnd Some) um)"
  shows "\<exists>um'. match_read_pipes um procs = Ok um'"
  using assms
proof (induction procs arbitrary: um)
  case Nil
  then show ?case by simp
next
  case (Cons p procs)
  obtain i proc where p: "p = (i, proc)" by (cases p)
  have "mset (fds_read_ends (fds proc)) \<subseteq># mset (read_ends (p # procs))"
    by (simp add: p read_ends_def)
  then have "mset (fds_read_ends (fds proc)) \<subseteq># mset (map (apsnd Some) um)"
    using Cons.prems by (rule subset_mset.order_trans)
  then obtain um1 where um1: "match_read_fds um (fds proc) = Ok um1"
    using match_read_fds_ex by blast
  from match_read_fds_Ok [OF um1] Cons.prems
  have "mset (read_ends procs) \<subseteq># mset (map (apsnd Some) um1)"
    by (simp add: p read_ends_def)
  from Cons.IH [OF this] um1 show ?case by (simp add: p)
qed

lemma hs_next_None: "hs_next seed s = None \<longleftrightarrow> s = []"
  by (simp add: hs_next_def)

lemma hs_next_in: "hs_next seed s = Some x \<Longrightarrow> x \<in> set s"
  by (auto simp: hs_next_def split: if_splits)

lemma collect_after_dups:
  assumes "bt_wf procs" "check_all_dups procs = Ok ()"
  obtains ws where "collect_write_pipes [] procs = Ok ws"
    "mset (map (apsnd Some) ws) = mset (write_ends procs)"
  using collect_write_pipes_distinct [of procs "[]"] bt_wf_distinct [OF assms(1)] assms(2)
  by (auto simp: check_all_dups_iff)

lemma validate_decides:
  assumes "bt_wf procs"
  shows "validate_procs_fds seed procs \<noteq> Panic \<and>
    (validate_procs_fds seed procs = Ok () \<longleftrightarrow> pipes_matched procs)"
proof (cases "check_all_dups procs")
  case (Ok u)
  then obtain ws where ws: "collect_write_pipes [] procs = Ok ws"
      and m: "mset (map (apsnd Some) ws) = mset (write_ends procs)"
    using collect_after_dups [OF assms] by (metis old.unit.exhaust)
  have d: "list_all (\<lambda>(_, proc). fds_distinct (fds proc)) procs"
    using Ok by (simp add: check_all_dups_iff [symmetric])
  show ?thesis
  proof (cases "match_read_pipes ws procs")
    case (Ok um)
    have "mset (write_ends procs) = mset (map (apsnd Some) um) + mset (read_ends procs)"
      using match_read_pipes_Ok [OF Ok] m by simp
    then have "um = [] \<longleftrightarrow> mset (write_ends procs) = mset (read_ends procs)" by simp
    with Ok \<open>check_all_dups procs = Ok u\<close> ws d show ?thesis
      by (cases um) (auto simp: validate_procs_fds_def pipes_matched_def hs_next_def split: prod.splits)
  next
    case (Err e)
    then have "\<not> mset (read_ends procs) \<subseteq># mset (write_ends procs)"
      using match_read_pipes_ex [of procs ws] m by auto
    with Err \<open>check_all_dups procs = Ok u\<close> ws show ?thesis
      by (auto simp: validate_procs_fds_def pipes_matched_def)
  qed (simp add: match_read_pipes_no_panic)
next
  case (Err e)
  then show ?thesis
    using check_all_dups_iff [of procs] by (auto simp: validate_procs_fds_def pipes_matched_def)
qed (simp add: check_all_dups_no_panic)

text \<open>
  C13 Validation of a batch of specs is total and decides exactly the abstract condition: it succeeds
  if and only if each proc's fds are distinct and the write ends and the read ends of the pipes are
  the same multiset, whatever the hash order; its assertion never panics.
\<close>

theorem validate_iff:
  assumes "bt_wf procs"
  shows "validate_procs_fds seed procs \<noteq> Panic \<and>
    (validate_procs_fds seed procs = Ok () \<longleftrightarrow> pipes_matched procs)"
  using assms by (rule validate_decides)

theorem validate_iff_witness:
  "validate_procs_fds 0
     [(''a'', default_proc\<lparr>fds := [(''stdout'', FdPipeWrite)]\<rparr>),
      (''b'', default_proc\<lparr>fds := [(''0'', FdPipeRead ''a'' ''1'')]\<rparr>)] = Ok ()"
proof -
  let ?ps = "[(''a'', default_proc\<lparr>fds := [(''stdout'', FdPipeWrite)]\<rparr>),
      (''b'', default_proc\<lparr>fds := [(''0'', FdPipeRead ''a'' ''1'')]\<rparr>)]"
  have "bt_wf ?ps" by (simp add: bt_wf_def)
  moreover have "pipes_matched ?ps" by code_simp
  ultimately show ?thesis using validate_iff by blast
qed

section \<open>What an error of validation means\<close>

text \<open>A fault of the fd names of one proc, \<open>seen\<close> being the descriptors met before.\<close>

definition fd_fault :: "raw_fd list \<Rightarrow> (fd_name \<times> fd_spec) list \<Rightarrow> spec_error \<Rightarrow> bool" where
  "fd_fault seen xs e \<longleftrightarrow>
     (\<exists>n \<in> fst ` set xs.
        e = BadFd n \<and> fd_num n = None \<or>
        e = DuplicateFd n \<and>
          2 \<le> count (mset (map Some seen) + mset (map (fd_num \<circ> fst) xs)) (fd_num n))"

lemma check_dup_fds_Err: "check_dup_fds seen xs = Err e \<Longrightarrow> fd_fault seen xs e"
proof (induction xs arbitrary: seen)
  case (Cons x xs)
  obtain n f where x: "x = (n, f)" by (cases x)
  consider "fd_num n = None" | fd where "fd_num n = Some fd" "fd \<in> set seen"
    | fd where "fd_num n = Some fd" "fd \<notin> set seen"
    by (cases "fd_num n") auto
  then show ?case
  proof cases
    case 1
    with Cons.prems show ?thesis by (auto simp: x parse_fd_fd_num fd_fault_def)
  next
    case (2 fd)
    then have "Suc 0 \<le> count (image_mset Some (mset seen)) (Some fd)" by (simp add: Suc_le_eq)
    with 2 Cons.prems show ?thesis
      by (auto simp: x parse_fd_fd_num hs_insert_def fd_fault_def intro: trans_le_add1)
  next
    case (3 fd)
    with Cons.prems have "check_dup_fds (fd # seen) xs = Err e"
      by (simp add: x parse_fd_fd_num hs_insert_def)
    from Cons.IH [OF this] 3(1) show ?thesis
      unfolding fd_fault_def x by (auto simp del: count_add_mset)
  qed
qed simp

text \<open>A fault of the read ends \<open>fs\<close>, against the ends \<open>avail\<close> there are and those \<open>need\<close>ed.\<close>

definition read_fault ::
  "fd_spec set \<Rightarrow> (proc_id \<times> raw_fd option) multiset \<Rightarrow> (proc_id \<times> raw_fd option) multiset \<Rightarrow> spec_error \<Rightarrow> bool" where
  "read_fault fs avail need e \<longleftrightarrow>
     (\<exists>i m. FdPipeRead i m \<in> fs \<and>
       (e = BadFd m \<and> fd_num m = None \<or>
        e = UnmatchedReadFd i m \<and> count avail (i, fd_num m) < count need (i, fd_num m)))"

lemma read_fault_mono:
  assumes "read_fault fs avail need e" "fs \<subseteq> fs'"
    and "\<And>x. count avail x < count need x \<Longrightarrow> count avail' x < count need' x"
  shows "read_fault fs' avail' need' e"
  using assms unfolding read_fault_def by blast

lemma match_read_fds_Err:
  "match_read_fds um xs = Err e \<Longrightarrow>
   read_fault (snd ` set xs) (mset (map (apsnd Some) um)) (mset (fds_read_ends xs)) e"
proof (induction xs arbitrary: um)
  case (Cons x xs)
  obtain n f where x: "x = (n, f)" by (cases x)
  show ?case
  proof (cases f rule: read_end_cases)
    case 1
    with Cons.prems have "match_read_fds um xs = Err e" by (simp add: x match_read_fds_skip)
    from Cons.IH [OF this] show ?thesis
      by (rule read_fault_mono) (auto simp: x 1 fds_read_ends_def)
  next
    case (2 i m)
    consider "fd_num m = None" | fd where "fd_num m = Some fd" "(i, fd) \<in> set um"
      | fd where "fd_num m = Some fd" "(i, fd) \<notin> set um"
      by (cases "fd_num m") auto
    then show ?thesis
    proof cases
      case 1
      with Cons.prems 2 show ?thesis by (auto simp: x parse_fd_fd_num read_fault_def)
    next
      case (2 fd)
      then have "match_read_fds (remove1 (i, fd) um) xs = Err e"
        using Cons.prems \<open>f = _\<close> by (simp add: x match_read_fds_read del: match_read_fds.simps)
      moreover from mset_remove1_add [OF 2(2)]
      have "mset (map (apsnd Some) um) = add_mset (i, Some fd) (mset (map (apsnd Some) (remove1 (i, fd) um)))"
        by (simp only: mset_map image_mset_add_mset) simp
      ultimately show ?thesis
        using 2(1) \<open>f = _\<close> by (intro read_fault_mono [OF Cons.IH]) (auto simp: x fds_read_ends_def)
    next
      case (3 fd)
      then have "(i, Some fd) \<notin># mset (map (apsnd Some) um)" by auto
      then have "count (mset (map (apsnd Some) um)) (i, Some fd) = 0" by (simp only: not_in_iff)
      moreover have "e = UnmatchedReadFd i m"
        using 3 Cons.prems \<open>f = _\<close> by (simp add: x match_read_fds_read del: match_read_fds.simps)
      ultimately show ?thesis
        using 3(1) \<open>f = _\<close> by (auto simp: x read_fault_def fds_read_ends_def)
    qed
  qed
qed simp

definition all_fd_specs :: "proc_specs \<Rightarrow> fd_spec set" where
  "all_fd_specs procs = (\<Union>p \<in> set procs. snd ` set (fds (snd p)))"

lemma match_read_pipes_Err:
  "match_read_pipes um procs = Err e \<Longrightarrow>
   read_fault (all_fd_specs procs) (mset (map (apsnd Some) um)) (mset (read_ends procs)) e"
proof (induction procs arbitrary: um)
  case (Cons p procs)
  obtain j proc where p: "p = (j, proc)" by (cases p)
  show ?case
  proof (cases "match_read_fds um (fds proc)")
    case (Err e')
    with Cons.prems have "match_read_fds um (fds proc) = Err e" by (simp add: p)
    from match_read_fds_Err [OF this] show ?thesis
      by (rule read_fault_mono) (auto simp: p read_ends_def all_fd_specs_def)
  next
    case (Ok um1)
    with Cons.prems have "match_read_pipes um1 procs = Err e" by (simp add: p)
    from Cons.IH [OF this] match_read_fds_Ok [OF Ok] show ?thesis
      by (elim read_fault_mono) (auto simp: p read_ends_def all_fd_specs_def)
  qed (simp add: match_read_fds_no_panic)
qed simp

text \<open>The faults of a whole batch.\<close>

definition dup_fault :: "proc_specs \<Rightarrow> spec_error \<Rightarrow> bool" where
  "dup_fault procs e \<longleftrightarrow> (\<exists>p \<in> set procs. fd_fault [] (fds (snd p)) e)"

definition write_fault :: "proc_specs \<Rightarrow> spec_error \<Rightarrow> bool" where
  "write_fault procs e \<longleftrightarrow>
     (\<exists>i fd. e = UnmatchedWriteFd i (show_int fd) \<and>
        count (mset (read_ends procs)) (i, Some fd) < count (mset (write_ends procs)) (i, Some fd))"

lemma check_all_dups_Err: "check_all_dups procs = Err e \<Longrightarrow> dup_fault procs e"
proof (induction procs)
  case (Cons p procs)
  obtain j proc where p: "p = (j, proc)" by (cases p)
  from Cons.prems consider "check_dup_fds [] (fds proc) = Err e" | "check_all_dups procs = Err e"
    by (auto simp: p outcome_simps)
  then show ?case
  proof cases
    case 1
    from check_dup_fds_Err [OF 1] show ?thesis by (auto simp: dup_fault_def p)
  next
    case 2
    from Cons.IH [OF 2] show ?thesis by (auto simp: dup_fault_def)
  qed
qed simp

lemma validate_Err_write:
  assumes um: "mset (write_ends procs) = mset (map (apsnd Some) um) + mset (read_ends procs)"
    and "hs_next seed um = Some (i, fd)"
  shows "write_fault procs (UnmatchedWriteFd i (show_int fd))"
proof -
  have "(i, fd) \<in> set um" using assms(2) by (rule hs_next_in)
  then have "(i, Some fd) \<in># mset (map (apsnd Some) um)" by force
  then have "0 < count (mset (map (apsnd Some) um)) (i, Some fd)" by (simp only: count_greater_zero_iff)
  then show ?thesis unfolding write_fault_def um by auto
qed

text \<open>
  A rejection names a real fault of the batch: a bad name does not parse, a duplicated name
  denotes a descriptor its proc has twice, an unmatched read end is needed more often than it is
  written, an unmatched write end is written more often than it is read.
\<close>

theorem validate_error:
  assumes "bt_wf procs" "validate_procs_fds seed procs = Err e"
  shows "dup_fault procs e \<or>
    read_fault (all_fd_specs procs) (mset (write_ends procs)) (mset (read_ends procs)) e \<or>
    write_fault procs e"
proof (cases "check_all_dups procs")
  case (Err e')
  with assms(2) show ?thesis
    using check_all_dups_Err [of procs] by (simp add: validate_procs_fds_def)
next
  case (Ok u)
  then obtain ws where ws: "collect_write_pipes [] procs = Ok ws"
      and m: "mset (map (apsnd Some) ws) = mset (write_ends procs)"
    using collect_after_dups [OF assms(1)] by (metis old.unit.exhaust)
  note v = Ok ws assms(2)
  show ?thesis
  proof (cases "match_read_pipes ws procs")
    case (Err e')
    then show ?thesis
      using v match_read_pipes_Err [of ws procs e] m by (simp add: validate_procs_fds_def)
  next
    case (Ok um)
    have "mset (write_ends procs) = mset (map (apsnd Some) um) + mset (read_ends procs)"
      using match_read_pipes_Ok [OF Ok] m by simp
    note fault = validate_Err_write [OF this]
    from v Ok obtain i fd where "hs_next seed um = Some (i, fd)" "e = UnmatchedWriteFd i (show_int fd)"
      by (auto simp: validate_procs_fds_def split: option.splits)
    with fault show ?thesis by blast
  qed (simp add: match_read_pipes_no_panic)
qed (simp add: check_all_dups_no_panic)

theorem validate_error_witness:
  "dup_fault [(''a'', default_proc\<lparr>fds := [(''1'', FdClose), (''stdout'', FdInherit)]\<rparr>)] (DuplicateFd ''stdout'') \<or>
   read_fault (all_fd_specs [(''a'', default_proc\<lparr>fds := [(''1'', FdClose), (''stdout'', FdInherit)]\<rparr>)])
     {#} {#} (DuplicateFd ''stdout'') \<or>
   write_fault [(''a'', default_proc\<lparr>fds := [(''1'', FdClose), (''stdout'', FdInherit)]\<rparr>)] (DuplicateFd ''stdout'')"
proof -
  let ?ps = "[(''a'', default_proc\<lparr>fds := [(''1'', FdClose), (''stdout'', FdInherit)]\<rparr>)]"
  have "bt_wf ?ps" by (simp add: bt_wf_def)
  moreover have "validate_procs_fds 0 ?ps = Err (DuplicateFd ''stdout'')" by code_simp
  moreover have "write_ends ?ps = []" "read_ends ?ps = []"
    by (simp_all add: write_ends_def read_ends_def fds_write_ends_def fds_read_ends_def)
  ultimately show ?thesis using validate_error [of ?ps 0 "DuplicateFd ''stdout''"] by simp
qed

end
