(* ===== verification/Utf8.thy ===== *)
theory Utf8
  imports Sys
begin

text \<open>
  The text of the Rust standard library: a \<open>String\<close> is the list of its UTF-8 bytes, and
  \<open>String::from_utf8_lossy\<close> replaces each maximal ill-formed run of bytes with U+FFFD.  The source
  uses it for captured output and for messages read from pipes.
\<close>

definition as_bytes :: "string \<Rightarrow> byte list" where
  "as_bytes s = map (\<lambda>c. word_of_nat (of_char c)) s"

definition string_of_bytes :: "byte list \<Rightarrow> string" where
  "string_of_bytes bs = map (\<lambda>b. char_of (unat b)) bs"

text \<open>The length of a sequence from its first byte (0: not a first byte), and its second byte.\<close>

definition utf8_width :: "byte \<Rightarrow> nat" where
  "utf8_width b =
     (if b < 0x80 then 1
      else if 0xC2 \<le> b \<and> b \<le> 0xDF then 2
      else if 0xE0 \<le> b \<and> b \<le> 0xEF then 3
      else if 0xF0 \<le> b \<and> b \<le> 0xF4 then 4
      else 0)"

definition utf8_cont :: "byte \<Rightarrow> bool" where
  "utf8_cont b \<longleftrightarrow> 0x80 \<le> b \<and> b \<le> 0xBF"

definition utf8_second :: "byte \<Rightarrow> byte \<Rightarrow> bool" where
  "utf8_second a b \<longleftrightarrow> utf8_cont b
     \<and> (a = 0xE0 \<longrightarrow> 0xA0 \<le> b) \<and> (a = 0xED \<longrightarrow> b \<le> 0x9F)
     \<and> (a = 0xF0 \<longrightarrow> 0x90 \<le> b) \<and> (a = 0xF4 \<longrightarrow> b \<le> 0x8F)"

text \<open>
  The next piece of a nonempty byte list: whether it is a well-formed sequence, and how many bytes it
  takes.
\<close>

fun utf8_chunk :: "byte list \<Rightarrow> bool \<times> nat" where
  "utf8_chunk [] = (False, 0)"
| "utf8_chunk (a # bs) =
     (let w = utf8_width a in
      if w = 0 then (False, 1)
      else if w = 1 then (True, 1)
      else case bs of
        [] \<Rightarrow> (False, 1)
      | b # bs' \<Rightarrow>
          if \<not> utf8_second a b then (False, 1)
          else if w = 2 then (True, 2)
          else case bs' of
            [] \<Rightarrow> (False, 2)
          | c # bs'' \<Rightarrow>
              if \<not> utf8_cont c then (False, 2)
              else if w = 3 then (True, 3)
              else case bs'' of
                [] \<Rightarrow> (False, 3)
              | d # _ \<Rightarrow> if utf8_cont d then (True, 4) else (False, 3))"

declare utf8_chunk.simps(2) [simp del]

lemma utf8_chunk_pos: "bs \<noteq> [] \<Longrightarrow> 0 < snd (utf8_chunk bs)"
  by (cases bs) (auto simp: utf8_chunk.simps Let_def split: list.split)

definition replacement :: "byte list" where
  "replacement = [0xEF, 0xBF, 0xBD]"

function lossy_bytes :: "byte list \<Rightarrow> byte list" where
  "lossy_bytes bs =
     (if bs = [] then []
      else case utf8_chunk bs of (ok, n) \<Rightarrow>
        (if ok then take n bs else replacement) @ lossy_bytes (drop n bs))"
  by pat_completeness auto
termination
proof (relation "measure length", goal_cases)
  case (2 bs ok n)
  then have "0 < n" using utf8_chunk_pos [of bs] by (metis snd_conv)
  with 2 show ?case by (cases bs) auto
qed simp

function valid_utf8 :: "byte list \<Rightarrow> bool" where
  "valid_utf8 bs =
     (if bs = [] then True
      else case utf8_chunk bs of (ok, n) \<Rightarrow> ok \<and> valid_utf8 (drop n bs))"
  by pat_completeness auto
termination
proof (relation "measure length", goal_cases)
  case (2 bs ok n)
  then have "0 < n" using utf8_chunk_pos [of bs] by (metis snd_conv)
  with 2 show ?case by (cases bs) auto
qed simp

declare lossy_bytes.simps [simp del] valid_utf8.simps [simp del]

definition from_utf8_lossy :: "byte list \<Rightarrow> string" where
  "from_utf8_lossy bs = string_of_bytes (lossy_bytes bs)"

definition is_str :: "string \<Rightarrow> bool" where
  "is_str s \<longleftrightarrow> valid_utf8 (as_bytes s)"

lemma as_bytes_string_of [simp]: "as_bytes (string_of_bytes bs) = bs"
proof -
  have "word_of_nat (of_char (char_of (unat b)) :: nat) = b" for b :: byte
  proof -
    have "unat b < 2 ^ LENGTH(8)" by (rule unsigned_less)
    then have "of_char (char_of (unat b)) = unat b" by simp
    then show ?thesis by simp
  qed
  then show ?thesis by (simp add: as_bytes_def string_of_bytes_def map_idI)
qed

lemma string_of_as_bytes [simp]: "string_of_bytes (as_bytes s) = s"
proof -
  have "char_of (unat (word_of_nat (of_char c) :: byte)) = c" for c :: char
    using of_char_mod_256 [of c, where ?'a = nat] by (simp add: unat_of_nat)
  then show ?thesis by (simp add: as_bytes_def string_of_bytes_def map_idI comp_def)
qed

lemma length_as_bytes [simp]: "length (as_bytes s) = length s"
  by (simp add: as_bytes_def)

lemma valid_utf8_Nil [simp]: "valid_utf8 []"
  by (simp add: valid_utf8.simps)

text \<open>On well-formed text the conversion is the identity.\<close>

lemma lossy_bytes_valid: "valid_utf8 bs \<Longrightarrow> lossy_bytes bs = bs"
proof (induction bs rule: lossy_bytes.induct)
  case (1 bs)
  show ?case
  proof (cases "bs = []")
    case False
    obtain ok n where c: "utf8_chunk bs = (ok, n)" by (cases "utf8_chunk bs")
    from "1.prems" False c have "ok" "valid_utf8 (drop n bs)"
      by (auto simp: valid_utf8.simps [of bs])
    with "1.IH" [OF False c [symmetric]] False c show ?thesis
      by (simp add: lossy_bytes.simps [of bs])
  qed (simp add: lossy_bytes.simps)
qed

lemma lossy_as_bytes: "is_str s \<Longrightarrow> from_utf8_lossy (as_bytes s) = s"
  by (simp add: from_utf8_lossy_def is_str_def lossy_bytes_valid)

text \<open>
  The result is always well-formed: a well-formed sequence stays one whatever follows it, and the
  replacement character is one.
\<close>

lemma utf8_chunk_ok_append:
  "utf8_chunk bs = (True, n) \<Longrightarrow> utf8_chunk (take n bs @ cs) = (True, n) \<and> n \<le> length bs \<and> 0 < n"
  by (cases bs)
    (auto simp: utf8_chunk.simps Let_def eq_commute [of "Suc 0"] split: list.splits if_splits)

lemma valid_utf8_chunk_append:
  assumes "utf8_chunk bs = (True, n)" "valid_utf8 cs"
  shows "valid_utf8 (take n bs @ cs)"
proof -
  from utf8_chunk_ok_append [OF assms(1), of cs]
  have c: "utf8_chunk (take n bs @ cs) = (True, n)" and n: "n \<le> length bs" "0 < n" by auto
  then have "take n bs @ cs \<noteq> []" by auto
  with c n assms(2) show ?thesis by (simp add: valid_utf8.simps [of "take n bs @ cs"])
qed

lemma utf8_chunk_replacement: "utf8_chunk replacement = (True, 3)"
  by (simp add: replacement_def utf8_chunk.simps utf8_width_def utf8_second_def utf8_cont_def)

lemma valid_utf8_lossy: "valid_utf8 (lossy_bytes bs)"
proof (induction bs rule: lossy_bytes.induct)
  case (1 bs)
  show ?case
  proof (cases "bs = []")
    case False
    obtain ok n where c: "utf8_chunk bs = (ok, n)" by (cases "utf8_chunk bs")
    note IH = "1.IH" [OF False c [symmetric]]
    show ?thesis
    proof (cases ok)
      case True
      with c False IH show ?thesis
        by (simp add: lossy_bytes.simps [of bs] valid_utf8_chunk_append)
    next
      case False
      from valid_utf8_chunk_append [OF utf8_chunk_replacement IH] False c \<open>bs \<noteq> []\<close> show ?thesis
        by (simp add: lossy_bytes.simps [of bs] replacement_def)
    qed
  qed (simp add: lossy_bytes.simps)
qed

lemma is_str_from_utf8_lossy: "is_str (from_utf8_lossy bs)"
  by (simp add: is_str_def from_utf8_lossy_def valid_utf8_lossy)

text \<open>ASCII text is well-formed.\<close>

lemma is_str_ascii: "\<forall>c \<in> set s. of_char c < (128 :: nat) \<Longrightarrow> is_str s"
proof (induction s)
  case (Cons c s)
  have "(word_of_nat (of_char c) :: byte) < 0x80"
    using Cons.prems by (simp add: word_less_nat_alt unat_of_nat)
  with Cons show ?case
    by (simp add: is_str_def as_bytes_def valid_utf8.simps [of "_ # _"] utf8_chunk.simps utf8_width_def)
qed (simp add: is_str_def as_bytes_def)

end
