(* ===== verification/Environ.thy ===== *)
theory Environ
  imports Spec
begin

text \<open>
  The environment of a started process, \<open>src/environ.rs\<close>: inherit all, none or some variables of
  procstar's own environment, drop the agent's secrets, then apply the spec's own variables.
\<close>

type_synonym env_map = "(string, string) btree"

definition EXCLUSIONS :: "string list" where
  "EXCLUSIONS = [''PROCSTAR_AGENT_CERT'', ''PROCSTAR_AGENT_KEY'', ''PROCSTAR_AGENT_TOKEN'']"

definition build :: "(string \<times> string) list \<Rightarrow> env_spec \<Rightarrow> env_map" where
  "build start_env spec =
     (let env = (case inherit spec of
                   InheritNone \<Rightarrow> []
                 | InheritAll \<Rightarrow> bt_collect start_env
                 | InheritVars names \<Rightarrow> bt_collect (filter (\<lambda>(v, _). v \<in> set names) start_env));
          env = foldl (\<lambda>env k. bt_remove k env) env EXCLUSIONS
      in foldl (\<lambda>env (k, ov). case ov of Some v \<Rightarrow> bt_insert k v env | None \<Rightarrow> bt_remove k env)
           env (vars spec))"

text \<open>The abstract specification: what each name is bound to.\<close>

definition inherits :: "env_inherit \<Rightarrow> string \<Rightarrow> bool" where
  "inherits inh k \<longleftrightarrow> (case inh of InheritNone \<Rightarrow> False | InheritAll \<Rightarrow> True | InheritVars vs \<Rightarrow> k \<in> set vs)"

definition env_value :: "(string \<times> string) list \<Rightarrow> env_spec \<Rightarrow> string \<Rightarrow> string option" where
  "env_value start_env spec k =
     (case bt_get (vars spec) k of
        Some ov \<Rightarrow> ov
      | None \<Rightarrow> if k \<in> set EXCLUSIONS \<or> \<not> inherits (inherit spec) k then None
                else map_of (rev start_env) k)"

lemma map_of_filter_key:
  "map_of (filter (\<lambda>(v, _). P v) xs) k = (if P k then map_of xs k else None)"
  by (induction xs) auto

lemma map_of_rev_distinct: "bt_wf m \<Longrightarrow> map_of (rev m) = map_of m"
  by (rule map_of_inject_set [THEN iffD2]) (simp_all add: rev_map [symmetric] bt_wf_distinct)

lemma inherited_get:
  "bt_wf (case inh of InheritNone \<Rightarrow> [] | InheritAll \<Rightarrow> bt_collect start_env
       | InheritVars vs \<Rightarrow> bt_collect (filter (\<lambda>(v, _). v \<in> set vs) start_env))"
  "bt_get (case inh of InheritNone \<Rightarrow> [] | InheritAll \<Rightarrow> bt_collect start_env
       | InheritVars vs \<Rightarrow> bt_collect (filter (\<lambda>(v, _). v \<in> set vs) start_env)) k =
     (if inherits inh k then map_of (rev start_env) k else None)"
  by (cases inh; simp add: inherits_def bt_wf_collect bt_get_collect bt_get_None rev_filter
      map_of_filter_key)+



end
