(* ===== verification/Err.thy ===== *)
theory Err
  imports Spec Sig
begin

text \<open>
  The error type of \<open>src/err.rs\<close>, with the data it wraps: the shutdown state of \<open>src/shutdown.rs\<close>,
  the request messages and protocol errors of \<open>src/proto.rs\<close>.  Errors of third-party libraries carry
  the text they display.
\<close>

section \<open>Shutdown state\<close>

datatype shutdown_state = Active | Idling | Done

fun shutdown_fmt :: "shutdown_state \<Rightarrow> string" where
  "shutdown_fmt Active = ''active''"
| "shutdown_fmt Idling = ''idling''"
| "shutdown_fmt Done = ''done''"

section \<open>Requests and protocol errors\<close>

datatype incoming_message =
    Registered
  | ProcStartRequest proc_specs
  | ProcidListRequest
  | ProcResultRequest proc_id
  | ProcSignalRequest proc_id signum
  | ProcFdDataRequest proc_id fd_name "64 word" "64 word option"
  | ProcDeleteRequest proc_id

datatype proto_error =
    ProtoClose
  | UnexpectedMessage incoming_message
  | WrongMessageType string

text \<open>\<open>dbg\<close> is the derived \<open>Debug\<close> text of a message.\<close>

fun proto_error_fmt :: "(incoming_message \<Rightarrow> string) \<Rightarrow> proto_error \<Rightarrow> string" where
  "proto_error_fmt dbg ProtoClose = ''closed''"
| "proto_error_fmt dbg (UnexpectedMessage msg) = ''wrong message: '' @ dbg msg"
| "proto_error_fmt dbg (WrongMessageType msg) = ''wrong WebSocket message: '' @ msg"

section \<open>The error type\<close>

text \<open>
  An error of the D-Bus library is either a method error with the name the remote side gave it, or
  some other error; both carry their text.
\<close>

datatype zbus_error = MethodError string string | OtherZbus string

fun zbus_fmt :: "zbus_error \<Rightarrow> string" where
  "zbus_fmt (MethodError _ text) = text"
| "zbus_fmt (OtherZbus text) = text"

datatype error =
    ErrNone
  | ErrEof
  | ErrIo io_error
  | ErrJson string
  | ErrNativeTls string
  | NoFd raw_fd
  | NoProc
  | NoProcId proc_id
  | ErrParseInt string
  | ProcNotRunning proc_id
  | ProcRunning proc_id
  | ErrProto proto_error
  | RegisterTimeout
  | RMPDecode string
  | RMPEncode string
  | ShuttingDown shutdown_state
  | ErrSpec spec_error
  | ErrSystemd zbus_error
  | ErrWebsocket string

fun error_fmt :: "(io_error \<Rightarrow> string) \<Rightarrow> (incoming_message \<Rightarrow> string) \<Rightarrow> error \<Rightarrow> string" where
  "error_fmt io_fmt dbg ErrNone = ''(no error)''"
| "error_fmt io_fmt dbg ErrEof = ''EOF''"
| "error_fmt io_fmt dbg (ErrIo err) = io_fmt err"
| "error_fmt io_fmt dbg (ErrJson err) = err"
| "error_fmt io_fmt dbg (ErrNativeTls err) = err"
| "error_fmt io_fmt dbg (NoFd fd) = ''no fd: '' @ show_int fd"
| "error_fmt io_fmt dbg NoProc = ''no process''"
| "error_fmt io_fmt dbg (NoProcId proc_id) = ''unknown proc ID: '' @ proc_id"
| "error_fmt io_fmt dbg (ErrParseInt err) = err"
| "error_fmt io_fmt dbg (ProcNotRunning proc_id) = ''process not running: '' @ proc_id"
| "error_fmt io_fmt dbg (ProcRunning proc_id) = ''process running: '' @ proc_id"
| "error_fmt io_fmt dbg (ErrProto err) = proto_error_fmt dbg err"
| "error_fmt io_fmt dbg RegisterTimeout = ''registration took too long''"
| "error_fmt io_fmt dbg (RMPDecode err) = err"
| "error_fmt io_fmt dbg (RMPEncode err) = err"
| "error_fmt io_fmt dbg (ShuttingDown st) = ''agent shutting down: '' @ shutdown_fmt st"
| "error_fmt io_fmt dbg (ErrSpec err) = spec_error_fmt io_fmt err"
| "error_fmt io_fmt dbg (ErrSystemd err) = ''error with systemd: '' @ zbus_fmt err"
| "error_fmt io_fmt dbg (ErrWebsocket err) = err"

end
