(* ===== verification/Fdio.thy ===== *)
theory Fdio
  imports Err Utf8
begin

text \<open>
  The descriptor I/O helpers of \<open>src/fdio.rs\<close> and the error pipe of \<open>src/err_pipe.rs\<close>, through which
  the forked child reports what failed before \<open>exec\<close>.  Both frame messages by their length; the locale
  \<open>framing\<close> states what a framing promises and \<open>framing_loop\<close> what a reader of frames then returns.
\<close>

section \<open>Framing\<close>

locale framing =
  fixes encode :: "'m \<Rightarrow> byte list"
    and decode :: "byte list \<Rightarrow> ('m \<times> byte list) option"
    and ok :: "'m \<Rightarrow> bool"
  assumes decode_encode: "ok m \<Longrightarrow> decode (encode m @ rest) = Some (m, rest)"
    and decode_short: "ok m \<Longrightarrow> n < length (encode m) \<Longrightarrow> decode (take n (encode m)) = None"

locale framing_loop = framing +
  fixes loop :: "byte list \<Rightarrow> 'm list"
    and tail :: "byte list \<Rightarrow> 'm list"
  assumes loop_unfold: "loop bs = (case decode bs of Some (m, rest) \<Rightarrow> m # loop rest | None \<Rightarrow> tail bs)"
begin

lemma loop_frames: "\<forall>m \<in> set ms. ok m \<Longrightarrow> loop (concat (map encode ms) @ rest) = ms @ loop rest"
proof (induction ms)
  case (Cons m ms)
  then show ?case by (simp add: loop_unfold [of "encode m @ _"] decode_encode)
qed simp

text \<open>A stream cut anywhere gives the messages before the cut, then the tail's report of the rest.\<close>

lemma loop_cut:
  "\<forall>m \<in> set ms. ok m \<Longrightarrow> n < length (concat (map encode ms)) \<Longrightarrow>
   \<exists>k part. k < length ms \<and> loop (take n (concat (map encode ms))) = take k ms @ tail part"
proof (induction ms arbitrary: n)
  case (Cons m ms)
  show ?case
  proof (cases "n < length (encode m)")
    case True
    then have "loop (take n (encode m)) = tail (take n (encode m))"
      using Cons.prems(1) by (simp add: loop_unfold [of "take n _"] decode_short)
    with True show ?thesis by (intro exI [of _ 0] exI [of _ "take n (encode m)"]) simp
  next
    case False
    then have "n - length (encode m) < length (concat (map encode ms))"
      using Cons.prems(2) by (simp add: less_diff_conv2 linorder_not_less add.commute)
    then obtain k part where kp: "k < length ms"
        "loop (take (n - length (encode m)) (concat (map encode ms))) = take k ms @ tail part"
      using Cons.IH [of "n - length (encode m)"] Cons.prems by auto
    have "loop (encode m @ take (n - length (encode m)) (concat (map encode ms))) =
        m # loop (take (n - length (encode m)) (concat (map encode ms)))"
      using Cons.prems(1) by (simp add: loop_unfold [of "encode m @ _"] decode_encode)
    with False kp show ?thesis by (intro exI [of _ "Suc k"] exI [of _ part]) simp
  qed
qed simp

end

section \<open>Little-endian and native-endian integers\<close>

fun le_bytes :: "nat \<Rightarrow> nat \<Rightarrow> byte list" where
  "le_bytes 0 n = []"
| "le_bytes (Suc w) n = word_of_nat (n mod 256) # le_bytes w (n div 256)"

fun le_value :: "byte list \<Rightarrow> nat" where
  "le_value [] = 0"
| "le_value (b # bs) = unat b + 256 * le_value bs"

lemma length_le_bytes [simp]: "length (le_bytes w n) = w"
  by (induction w arbitrary: n) auto

lemma le_value_le_bytes: "n < 256 ^ w \<Longrightarrow> le_value (le_bytes w n) = n"
proof (induction w arbitrary: n)
  case (Suc w)
  then have "n div 256 < 256 ^ w" by (simp add: less_mult_imp_div_less mult.commute)
  with Suc show ?case by (simp add: unat_of_nat)
qed simp

text \<open>The target's byte order, a parameter.\<close>

definition ne_bytes :: "bool \<Rightarrow> nat \<Rightarrow> byte list" where
  "ne_bytes big n = (if big then rev (le_bytes 8 n) else le_bytes 8 n)"

definition ne_value :: "bool \<Rightarrow> byte list \<Rightarrow> nat" where
  "ne_value big bs = (if big then le_value (rev bs) else le_value bs)"

section \<open>Reading and writing\<close>

definition fdio_write :: "('k, 'z) kernel_scheme \<Rightarrow> fd_t \<Rightarrow> byte list \<Rightarrow> 'k \<Rightarrow> (unit, error) outcome \<times> 'k" where
  "fdio_write K fd data = bind (lift_err ErrIo (sys_write K fd data)) (\<lambda>n.
     if n = length data then ret ()
     else if n = 0 then fail ErrEof
     else panic)"

definition write_usize :: "('k, 'z) kernel_scheme \<Rightarrow> bool \<Rightarrow> fd_t \<Rightarrow> nat \<Rightarrow> 'k \<Rightarrow> (unit, error) outcome \<times> 'k" where
  "write_usize K big fd val = fdio_write K fd (ne_bytes big val)"

definition write_str :: "('k, 'z) kernel_scheme \<Rightarrow> bool \<Rightarrow> fd_t \<Rightarrow> string \<Rightarrow> 'k \<Rightarrow> (unit, error) outcome \<times> 'k" where
  "write_str K big fd s = bind (write_usize K big fd (length (as_bytes s))) (\<lambda>_. fdio_write K fd (as_bytes s))"

text \<open>
  A read into a zeroed buffer of \<open>len\<close> bytes replaces its front with what was read.
\<close>

definition fill :: "nat \<Rightarrow> byte list \<Rightarrow> byte list" where
  "fill len data = take len (data @ replicate len 0)"

definition read_usize :: "('k, 'z) kernel_scheme \<Rightarrow> bool \<Rightarrow> fd_t \<Rightarrow> 'k \<Rightarrow> (nat, error) outcome \<times> 'k" where
  "read_usize K big fd = bind (lift_err ErrIo (sys_read K fd 8)) (\<lambda>(n, data).
     if n = 0 then fail ErrEof
     else if n = 8 then ret (ne_value big (fill 8 data))
     else panic)"

definition read_str :: "('k, 'z) kernel_scheme \<Rightarrow> bool \<Rightarrow> fd_t \<Rightarrow> 'k \<Rightarrow> (string, error) outcome \<times> 'k" where
  "read_str K big fd = bind (read_usize K big fd) (\<lambda>len.
     bind (lift_err ErrIo (sys_read K fd len)) (\<lambda>(_, data).
       ret (from_utf8_lossy (fill len data))))"

definition read_into_vec ::
  "('k, 'z) kernel_scheme \<Rightarrow> fd_t \<Rightarrow> byte list \<Rightarrow> nat \<Rightarrow> 'k \<Rightarrow> (nat \<times> byte list, error) outcome \<times> 'k" where
  "read_into_vec K fd buf max_len = bind (lift_err ErrIo (sys_read K fd max_len)) (\<lambda>(nread, data).
     let buf' = buf @ take nread (fill max_len data)
     in if nread = 0 then fail ErrEof else ret (nread, buf'))"

section \<open>The error pipe\<close>

record error_pipe =
  read_fd :: fd_t
  write_fd :: fd_t

definition error_pipe_new :: "('k, 'z) kernel_scheme \<Rightarrow> 'k \<Rightarrow> (error_pipe, error) outcome \<times> 'k" where
  "error_pipe_new K = bind (lift_err ErrIo (pipe K)) (\<lambda>p.
     bind (lift_err ErrIo (set_cloexec K (rw_read p))) (\<lambda>_.
     bind (lift_err ErrIo (set_cloexec K (rw_write p))) (\<lambda>_.
       ret \<lparr>read_fd = rw_read p, write_fd = rw_write p\<rparr>)))"

text \<open>
  A frame: the length of the message as a little-endian \<open>u16\<close>, then its bytes.  The writer asserts
  that the length fits.
\<close>

definition error_frame :: "string \<Rightarrow> byte list" where
  "error_frame err = le_bytes 2 (length (as_bytes err)) @ as_bytes err"

definition error_write :: "('k, 'z) kernel_scheme \<Rightarrow> fd_t \<Rightarrow> string \<Rightarrow> 'k \<Rightarrow> (unit, error) outcome \<times> 'k" where
  "error_write K fd err =
     (let bytes = as_bytes err in
      if length bytes > 65535 then panic
      else bind (fdio_write K fd (le_bytes 2 (length bytes))) (\<lambda>_. fdio_write K fd bytes))"

definition error_try_write :: "('k, 'z) kernel_scheme \<Rightarrow> fd_t \<Rightarrow> string \<Rightarrow> 'k \<Rightarrow> (unit, error) outcome \<times> 'k" where
  "error_try_write K fd err k = (case error_write K fd err k of
     (Panic, k') \<Rightarrow> (Panic, k') | (_, k') \<Rightarrow> (Ok (), k'))"

text \<open>
  The parent reads frames until the pipe ends.  \<open>bs\<close> is all that the pipe delivers and \<open>e\<close> the error
  that a read past it gives: of kind \<open>UnexpectedEof\<close> when the writers are gone.  Only an end of file
  where a length is due is silent; any other failure becomes a last message.
\<close>

definition error_decode :: "byte list \<Rightarrow> (string \<times> byte list) option" where
  "error_decode bs =
     (if length bs < 2 then None
      else let len = le_value (take 2 bs); rest = drop 2 bs in
        if length rest < len then None
        else Some (from_utf8_lossy (take len rest), drop len rest))"

definition error_tail :: "(io_error \<Rightarrow> string) \<Rightarrow> io_error \<Rightarrow> byte list \<Rightarrow> string list" where
  "error_tail io_fmt e bs =
     (if length bs < 2 \<and> io_kind_of e = UnexpectedEof then [] else [''error pipe: '' @ io_fmt e])"

function get_errors :: "(io_error \<Rightarrow> string) \<Rightarrow> io_error \<Rightarrow> byte list \<Rightarrow> string list" where
  "get_errors io_fmt e bs =
     (case error_decode bs of
        Some (m, rest) \<Rightarrow> m # get_errors io_fmt e rest
      | None \<Rightarrow> error_tail io_fmt e bs)"
  by pat_completeness auto
termination
  by (relation "measure (\<lambda>(_, _, bs). length bs)")
    (auto simp: error_decode_def Let_def split: if_splits)

declare get_errors.simps [simp del]

definition error_ok :: "string \<Rightarrow> bool" where
  "error_ok m \<longleftrightarrow> is_str m \<and> length m \<le> 65535"

lemma error_frame_decode: "error_ok m \<Longrightarrow> error_decode (error_frame m @ rest) = Some (m, rest)"
  by (simp add: error_ok_def error_decode_def error_frame_def Let_def le_value_le_bytes lossy_as_bytes)

lemma error_frame_short:
  assumes "error_ok m" "n < length (error_frame m)"
  shows "error_decode (take n (error_frame m)) = None"
proof (cases "n < 2")
  case False
  then have "take 2 (take n (error_frame m)) = le_bytes 2 (length m)"
    by (simp add: error_frame_def)
  then have "le_value (take 2 (take n (error_frame m))) = length m"
    using assms(1) by (simp add: error_ok_def le_value_le_bytes)
  with False assms(2) show ?thesis
    by (simp add: error_decode_def Let_def error_frame_def min_def)
qed (simp add: error_decode_def min_def)

interpretation err: framing_loop error_frame error_decode error_ok "get_errors io_fmt e" "error_tail io_fmt e"
  for io_fmt e
  by unfold_locales (simp_all add: error_frame_decode error_frame_short get_errors.simps [of io_fmt e])

text \<open>
  C25 What the child reports is what the parent reads: the frames of any messages that are text of at
  most 65535 bytes, read until the pipe closes, give exactly those messages.
\<close>

theorem error_pipe_round_trip:
  assumes "\<forall>m \<in> set ms. is_str m \<and> length m \<le> 65535" and "io_kind_of e = UnexpectedEof"
  shows "get_errors io_fmt e (concat (map error_frame ms)) = ms"
proof -
  have "get_errors io_fmt e [] = []"
    using assms(2) by (simp add: get_errors.simps [of io_fmt e "[]"] error_decode_def error_tail_def)
  moreover have "\<forall>m \<in> set ms. error_ok m" using assms(1) by (simp add: error_ok_def)
  ultimately show ?thesis
    using err.loop_frames [of ms io_fmt e "[]"] by simp
qed

theorem error_pipe_round_trip_witness:
  "get_errors (\<lambda>_. []) (CustomError UnexpectedEof []) (concat (map error_frame [''setsid failed'', ''x''])) =
     [''setsid failed'', ''x'']"
proof -
  have "is_str ''setsid failed''" "is_str ''x''" by (rule is_str_ascii; simp)+
  then show ?thesis
    by (intro error_pipe_round_trip) auto
qed

text \<open>
  A child that dies while it reports loses no complete message: the stream cut anywhere gives the
  messages before the cut, then at most one report of the broken pipe.
\<close>

theorem error_pipe_cut:
  assumes "\<forall>m \<in> set ms. is_str m \<and> length m \<le> 65535"
    and "n < length (concat (map error_frame ms))"
  shows "\<exists>k < length ms. \<exists>last. length last \<le> 1 \<and>
    get_errors io_fmt e (take n (concat (map error_frame ms))) = take k ms @ last"
proof -
  have "\<forall>m \<in> set ms. error_ok m" using assms(1) by (simp add: error_ok_def)
  from err.loop_cut [OF this assms(2), of io_fmt e] obtain k part where
      "k < length ms"
      "get_errors io_fmt e (take n (concat (map error_frame ms))) = take k ms @ error_tail io_fmt e part"
    by blast
  moreover have "length (error_tail io_fmt e part) \<le> 1" by (simp add: error_tail_def)
  ultimately show ?thesis by blast
qed

theorem error_pipe_cut_witness:
  "\<exists>k < length [''x'']. \<exists>last. length last \<le> 1 \<and>
    get_errors (\<lambda>_. ''early eof'') (CustomError UnexpectedEof [])
      (take 2 (concat (map error_frame [''x'']))) = take k [''x''] @ last"
proof -
  have "is_str ''x''" by (rule is_str_ascii) simp
  then show ?thesis
    by (intro error_pipe_cut) (auto simp: error_frame_def)
qed

section \<open>Strings on descriptors\<close>

text \<open>\<open>write_str\<close> then \<open>read_str\<close>, as a framing: what the two exchange over a faithful stream.\<close>

definition str_frame :: "bool \<Rightarrow> string \<Rightarrow> byte list" where
  "str_frame big s = ne_bytes big (length (as_bytes s)) @ as_bytes s"

definition str_decode :: "bool \<Rightarrow> byte list \<Rightarrow> (string \<times> byte list) option" where
  "str_decode big bs =
     (if length bs < 8 then None
      else let len = ne_value big (take 8 bs); rest = drop 8 bs in
        if length rest < len then None
        else Some (from_utf8_lossy (fill len (take len rest)), drop len rest))"

definition str_ok :: "string \<Rightarrow> bool" where
  "str_ok s \<longleftrightarrow> is_str s \<and> length s < 2 ^ 64"

lemma length_ne_bytes [simp]: "length (ne_bytes big n) = 8"
  by (simp add: ne_bytes_def)

lemma ne_value_ne_bytes: "n < 2 ^ 64 \<Longrightarrow> ne_value big (ne_bytes big n) = n"
  by (simp add: ne_value_def ne_bytes_def le_value_le_bytes)

interpretation str: framing "str_frame big" "str_decode big" str_ok for big
proof
  fix m rest
  assume "str_ok m"
  then show "str_decode big (str_frame big m @ rest) = Some (m, rest)"
    by (simp add: str_ok_def str_decode_def str_frame_def Let_def ne_value_ne_bytes lossy_as_bytes fill_def)
next
  fix m n
  assume m: "str_ok m" and n: "n < length (str_frame big m)"
  show "str_decode big (take n (str_frame big m)) = None"
  proof (cases "n < 8")
    case False
    then have "take 8 (take n (str_frame big m)) = ne_bytes big (length m)"
      by (simp add: str_frame_def)
    then have "ne_value big (take 8 (take n (str_frame big m))) = length m"
      using m by (simp add: str_ok_def ne_value_ne_bytes)
    with False n show ?thesis by (simp add: str_decode_def Let_def str_frame_def min_def)
  qed (simp add: str_decode_def min_def)
qed

end
