(* ===== verification/RustStr.thy ===== *)
theory RustStr
  imports Prelude
begin

text \<open>
  String functions of the Rust standard library that the parsers of \<open>/proc\<close> and cgroup files use:
  \<open>split_once\<close>, \<open>split\<close>, \<open>trim\<close>, \<open>lines\<close>, \<open>split_whitespace\<close>, on the UTF-8 bytes of the text.
\<close>

fun split_once :: "char \<Rightarrow> string \<Rightarrow> (string \<times> string) option" where
  "split_once d [] = None"
| "split_once d (c # cs) =
     (if c = d then Some ([], cs)
      else case split_once d cs of None \<Rightarrow> None | Some (a, b) \<Rightarrow> Some (c # a, b))"

fun split_char :: "char \<Rightarrow> string \<Rightarrow> string list" where
  "split_char d [] = [[]]"
| "split_char d (c # cs) =
     (if c = d then [] # split_char d cs
      else case split_char d cs of [] \<Rightarrow> [[c]] | p # ps \<Rightarrow> (c # p) # ps)"

text \<open>The characters with the Unicode White_Space property, as UTF-8: of one, two and three bytes.\<close>

definition ws1 :: "char list" where
  "ws1 = [CHR 0x09, CHR 0x0A, CHR 0x0B, CHR 0x0C, CHR 0x0D, CHR '' '']"

definition ws2 :: "string list" where
  "ws2 = [[CHR 0xC2, CHR 0x85], [CHR 0xC2, CHR 0xA0]]"

definition ws3 :: "string list" where
  "ws3 = [[CHR 0xE1, CHR 0x9A, CHR 0x80], [CHR 0xE2, CHR 0x80, CHR 0x80], [CHR 0xE2, CHR 0x80, CHR 0x81],
    [CHR 0xE2, CHR 0x80, CHR 0x82], [CHR 0xE2, CHR 0x80, CHR 0x83], [CHR 0xE2, CHR 0x80, CHR 0x84],
    [CHR 0xE2, CHR 0x80, CHR 0x85], [CHR 0xE2, CHR 0x80, CHR 0x86], [CHR 0xE2, CHR 0x80, CHR 0x87],
    [CHR 0xE2, CHR 0x80, CHR 0x88], [CHR 0xE2, CHR 0x80, CHR 0x89], [CHR 0xE2, CHR 0x80, CHR 0x8A],
    [CHR 0xE2, CHR 0x80, CHR 0xA8], [CHR 0xE2, CHR 0x80, CHR 0xA9], [CHR 0xE2, CHR 0x80, CHR 0xAF],
    [CHR 0xE2, CHR 0x81, CHR 0x9F], [CHR 0xE3, CHR 0x80, CHR 0x80]]"

text \<open>The bytes of the white space character at the front, 0 for none; \<open>f\<close> turns the front around.\<close>

definition ws_len :: "(string \<Rightarrow> string) \<Rightarrow> string \<Rightarrow> nat" where
  "ws_len f s =
     (case s of [] \<Rightarrow> 0
      | c # _ \<Rightarrow> if c \<in> set ws1 then 1
                else if f (take 2 s) \<in> set ws2 then 2
                else if f (take 3 s) \<in> set ws3 then 3 else 0)"

lemma ws_len_Nil [simp]: "ws_len f [] = 0"
  by (simp add: ws_len_def)

function trim_front :: "(string \<Rightarrow> string) \<Rightarrow> string \<Rightarrow> string" where
  "trim_front f s = (if ws_len f s = 0 then s else trim_front f (drop (ws_len f s) s))"
  by pat_completeness auto
termination
proof (relation "measure (\<lambda>(_, s). length s)", goal_cases)
  case (2 f s)
  then show ?case by (cases s) auto
qed simp

declare trim_front.simps [simp del]

definition trim :: "string \<Rightarrow> string" where
  "trim s = rev (trim_front rev (rev (trim_front (\<lambda>x. x) s)))"

function split_ws :: "string \<Rightarrow> string \<Rightarrow> string list" where
  "split_ws acc s =
     (if s = [] then (if acc = [] then [] else [acc])
      else if ws_len (\<lambda>x. x) s = 0 then split_ws (acc @ [hd s]) (tl s)
      else (if acc = [] then [] else [acc]) @ split_ws [] (drop (ws_len (\<lambda>x. x) s) s))"
  by pat_completeness auto
termination
proof (relation "measure (\<lambda>(_, s). length s)", goal_cases)
  case (3 acc s)
  then show ?case by (cases s) auto
qed auto

declare split_ws.simps [simp del]

definition split_whitespace :: "string \<Rightarrow> string list" where
  "split_whitespace s = split_ws [] s"

text \<open>Lines end at a newline, a carriage return before it is dropped, and no empty line is added at the end.\<close>

definition strip_cr :: "string \<Rightarrow> string" where
  "strip_cr l = (if l \<noteq> [] \<and> last l = CHR 0x0D then butlast l else l)"

definition lines :: "string \<Rightarrow> string list" where
  "lines s = (let ps = split_char (CHR 0x0A) s
              in map strip_cr (butlast ps) @ (if last ps = [] then [] else [last ps]))"

section \<open>Paths\<close>

text \<open>
  \<open>Path::join\<close>, and path equality, which compares components: repeated separators and inner dots do
  not count.
\<close>

definition path_join :: "string \<Rightarrow> string \<Rightarrow> string" where
  "path_join p n =
     (if n \<noteq> [] \<and> hd n = CHR ''/'' then n
      else if p = [] \<or> last p = CHR ''/'' then p @ n
      else p @ CHR ''/'' # n)"

definition path_components :: "string \<Rightarrow> bool \<times> string list" where
  "path_components p =
     (let segs = split_char (CHR ''/'') p;
          rooted = (p \<noteq> [] \<and> hd p = CHR ''/'');
          inner = filter (\<lambda>s. s \<noteq> [] \<and> s \<noteq> ''.'')
      in (rooted, if \<not> rooted \<and> segs \<noteq> [] \<and> hd segs = ''.'' then ''.'' # inner (tl segs) else inner segs))"

definition path_eq :: "string \<Rightarrow> string \<Rightarrow> bool" where
  "path_eq p q \<longleftrightarrow> path_components p = path_components q"

text \<open>\<open>trim_start_matches\<close> and \<open>ends_with\<close>.\<close>

definition trim_start_char :: "char \<Rightarrow> string \<Rightarrow> string" where
  "trim_start_char c s = dropWhile (\<lambda>x. x = c) s"

definition ends_with :: "string \<Rightarrow> string \<Rightarrow> bool" where
  "ends_with s t \<longleftrightarrow> length t \<le> length s \<and> drop (length s - length t) s = t"

lemma ends_with_append [simp]: "ends_with (s @ t) t"
  by (simp add: ends_with_def)

section \<open>Laws\<close>

lemma split_once_append: "d \<notin> set a \<Longrightarrow> split_once d (a @ d # b) = Some (a, b)"
  by (induction a) auto

lemma split_once_None: "d \<notin> set s \<Longrightarrow> split_once d s = None"
  by (induction s) auto

lemma split_char_no: "d \<notin> set s \<Longrightarrow> split_char d s = [s]"
  by (induction s) auto

lemma split_char_append: "d \<notin> set a \<Longrightarrow> split_char d (a @ d # b) = a # split_char d b"
  by (induction a) auto

text \<open>Fields joined by a separator, and their split.\<close>

fun join :: "char \<Rightarrow> string list \<Rightarrow> string" where
  "join d [] = []"
| "join d [x] = x"
| "join d (x # y # xs) = x @ d # join d (y # xs)"

lemma split_char_join:
  "xs \<noteq> [] \<Longrightarrow> (\<And>x. x \<in> set xs \<Longrightarrow> d \<notin> set x) \<Longrightarrow> split_char d (join d xs) = xs"
  by (induction d xs rule: join.induct) (simp_all add: split_char_no split_char_append)

lemma join_not_Nil: "xs \<noteq> [] \<Longrightarrow> hd xs \<noteq> [] \<Longrightarrow> join d xs \<noteq> []"
  by (induction d xs rule: join.induct) auto

lemma hd_join: "xs \<noteq> [] \<Longrightarrow> hd xs \<noteq> [] \<Longrightarrow> hd (join d xs) = hd (hd xs)"
  by (induction d xs rule: join.induct) auto

lemma last_join:
  "xs \<noteq> [] \<Longrightarrow> (\<And>x. x \<in> set xs \<Longrightarrow> x \<noteq> []) \<Longrightarrow> last (join d xs) = last (last xs)"
proof (induction d xs rule: join.induct)
  case (3 d x y xs)
  then have "join d (y # xs) \<noteq> []" by (simp add: join_not_Nil)
  with 3 show ?case by simp
qed auto

text \<open>A byte of plain text: ASCII and not white space.\<close>

definition plain :: "char \<Rightarrow> bool" where
  "plain c \<longleftrightarrow> of_char c < (128 :: nat) \<and> c \<notin> set ws1"

text \<open>A line of plain fields: trimming drops what surrounds it, splitting gives the fields.\<close>

definition plain_field :: "string \<Rightarrow> bool" where
  "plain_field x \<longleftrightarrow> x \<noteq> [] \<and> (\<forall>c \<in> set x. plain c)"

lemma trim_front_id: "ws_len f s = 0 \<Longrightarrow> trim_front f s = s"
  by (simp add: trim_front.simps)

lemma trim_front_ws1: "c \<in> set ws1 \<Longrightarrow> trim_front f (c # s) = trim_front f s"
  by (subst trim_front.simps) (simp add: ws_len_def)

lemma ws_multi_high: "x \<in> set ws2 \<union> set ws3 \<Longrightarrow> c \<in> set x \<Longrightarrow> 128 \<le> (of_char c :: nat)"
  by (auto simp: ws2_def ws3_def)

lemma ws_len_plain:
  assumes "plain c" "\<And>x. set (f x) = set x"
  shows "ws_len f (c # s) = 0"
proof -
  have "f (take n (c # s)) \<notin> set ws2 \<union> set ws3" if "0 < n" for n
  proof
    assume "f (take n (c # s)) \<in> set ws2 \<union> set ws3"
    moreover have "c \<in> set (f (take n (c # s)))" using that assms(2) by (cases n) auto
    ultimately have "128 \<le> (of_char c :: nat)" by (rule ws_multi_high)
    with assms(1) show False by (simp add: plain_def)
  qed
  from this [of 2] this [of 3] assms(1) show ?thesis by (simp add: ws_len_def plain_def)
qed

lemma trim_plain:
  assumes "s \<noteq> []" "plain (hd s)" "plain (last s)"
  shows "trim s = s" "trim (s @ [CHR 0x0A]) = s" "trim (CHR '' '' # s) = s"
    "trim (CHR '' '' # s @ [CHR 0x0A]) = s"
proof -
  obtain c cs where s: "s = c # cs" using assms(1) by (cases s) auto
  obtain d ds where r: "rev s = d # ds" "plain d"
    using assms(1,3) by (cases s rule: rev_cases) auto
  have f: "trim_front (\<lambda>x. x) (s @ t) = s @ t" for t
    using assms(2) by (simp add: s trim_front_id ws_len_plain)
  have b: "trim_front rev (rev s) = rev s"
    unfolding r(1) using r(2) by (simp add: trim_front_id ws_len_plain)
  have n: "CHR 0x0A \<in> set ws1" "CHR '' '' \<in> set ws1" by (simp_all add: ws1_def)
  show "trim s = s" using f [of "[]"] b by (simp add: trim_def)
  show "trim (s @ [CHR 0x0A]) = s" using f b n by (simp add: trim_def trim_front_ws1)
  show "trim (CHR '' '' # s) = s"
    using f [of "[]"] b n by (simp add: trim_def trim_front_ws1)
  show "trim (CHR '' '' # s @ [CHR 0x0A]) = s"
    using f b n by (simp add: trim_def trim_front_ws1)
qed

lemma plain_field_no_space: "plain_field x \<Longrightarrow> CHR '' '' \<notin> set x"
  by (auto simp: plain_field_def plain_def ws1_def)

lemma plain_field_no_newline: "plain_field x \<Longrightarrow> CHR 0x0A \<notin> set x"
  by (auto simp: plain_field_def plain_def ws1_def)

lemma fields_line:
  assumes "xs \<noteq> []" "list_all plain_field xs"
  shows "split_char (CHR '' '') (join (CHR '' '') xs) = xs"
    "trim (join (CHR '' '') xs @ [CHR 0x0A]) = join (CHR '' '') xs"
    "trim (CHR '' '' # join (CHR '' '') xs @ [CHR 0x0A]) = join (CHR '' '') xs"
proof -
  from assms have x: "x \<in> set xs \<Longrightarrow> plain_field x" for x by (simp add: list_all_iff)
  then show "split_char (CHR '' '') (join (CHR '' '') xs) = xs"
    using assms(1) plain_field_no_space by (blast intro: split_char_join)
  let ?j = "join (CHR '' '') xs"
  have h: "plain_field (hd xs)" "plain_field (last xs)" using x assms(1) by simp_all
  then have ne: "hd xs \<noteq> []" "last xs \<noteq> []" by (simp_all add: plain_field_def)
  have "?j \<noteq> []" using assms(1) ne by (simp add: join_not_Nil)
  moreover have "plain (hd ?j)" using assms(1) ne h by (simp add: hd_join plain_field_def)
  moreover have "last ?j = last (last xs)"
    using assms(1) x by (intro last_join) (auto simp: plain_field_def)
  then have "plain (last ?j)" using ne h by (simp add: plain_field_def)
  ultimately show "trim (?j @ [CHR 0x0A]) = ?j" "trim (CHR '' '' # ?j @ [CHR 0x0A]) = ?j"
    by (simp_all add: trim_plain)
qed

text \<open>Decimal numbers are plain text.\<close>

lemma plain_digit: "digit_of c \<noteq> None \<Longrightarrow> plain c"
  by (auto simp: digit_of_def plain_def ws1_def Let_def split: if_splits)

lemma show_nat_plain: "c \<in> set (show_nat n) \<Longrightarrow> plain c \<and> c \<noteq> CHR '' ''"
proof -
  assume "c \<in> set (show_nat n)"
  then have d: "digit_of c \<noteq> None" using show_nat_all_digits by blast
  moreover have "digit_of (CHR '' '') = None" by (simp add: digit_of_def)
  ultimately show ?thesis using plain_digit [OF d] by auto
qed

lemma show_int_plain: "c \<in> set (show_int i) \<Longrightarrow> plain c \<and> c \<noteq> CHR '' ''"
  by (auto simp: show_int_def plain_def ws1_def dest: show_nat_plain split: if_splits)

lemma show_int_not_Nil [simp]: "show_int i \<noteq> []"
  by (simp add: show_int_def)

lemma plain_field_show_int [simp]: "plain_field (show_int i)"
  using show_int_plain by (simp add: plain_field_def)

lemma plain_field_show_nat [simp]: "plain_field (show_nat n)"
  using show_nat_plain by (simp add: plain_field_def)

end
