(* ===== verification/Procinfo.thy ===== *)
theory Procinfo
  imports Sys Sig RustStr
begin

text \<open>
  The parsers of \<open>src/procinfo.rs\<close> for the kernel's \<open>/proc/<pid>/stat\<close> and \<open>/proc/<pid>/statm\<close>.
  A parser is a run over the iterator of fields, which is the state of the effect monad of
  \<open>Sys\<close>; every \<open>unwrap\<close> of the source is a branch that panics.  What the parsers ask the host for
  (clock ticks, page size, boot time with the date formatting of a library) is the record
  \<open>proc_host\<close>.  Integers that only pass through are ints in their type's range; multiplications wrap.
\<close>

section \<open>Data\<close>

record process_info =
  pi_pid :: pid_t
  pi_ppid :: pid_t
  pi_uid :: nat
  pi_euid :: nat
  pi_username :: "string option"
  pi_gid :: nat
  pi_egid :: nat
  pi_groupname :: "string option"
  pi_hostname :: string

record proc_stat =
  pst_pid :: pid_t
  pst_comm :: string
  pst_state :: string
  pst_ppid :: pid_t
  pst_pgrp :: nat
  pst_session :: pid_t
  pst_tty_nr :: "16 word \<times> 16 word"
  pst_tpgid :: "nat option"
  pst_flags :: nat
  pst_minflt :: nat
  pst_cminflt :: nat
  pst_majflt :: nat
  pst_cmajflt :: nat
  pst_utime :: f64
  pst_stime :: f64
  pst_cutime :: f64
  pst_cstime :: f64
  pst_priority :: int
  pst_nice :: int
  pst_num_threads :: int
  pst_starttime :: string
  pst_vsize :: nat
  pst_rss :: "64 word"
  pst_rsslim :: nat
  pst_signal :: "string list"
  pst_blocked :: "string list"
  pst_sigignore :: "string list"
  pst_sigcatch :: "string list"
  pst_wchan :: nat
  pst_exit_signal :: "string option"
  pst_processor :: int
  pst_rt_priority :: nat
  pst_policy :: nat
  pst_delayacct_blkio_ticks :: f64
  pst_guest_time :: f64
  pst_cguest_time :: int
  pst_exit_code :: int

record proc_statm =
  stm_size :: "64 word"
  stm_resident :: "64 word"
  stm_shared :: "64 word"
  stm_text :: "64 word"
  stm_data :: "64 word"

record proc_host =
  host_clk_tck :: "(int, io_error) outcome"
  host_page_size :: "64 word"
  host_start_text :: "f64 \<Rightarrow> string option"

section \<open>Signal masks and device numbers\<close>

unbundle bit_operations_syntax

definition expand_sig_bitmap :: "32 word \<Rightarrow> string list" where
  "expand_sig_bitmap bits =
     map (\<lambda>s. case get_abbrev s of Some a \<Rightarrow> a | None \<Rightarrow> ''???'')
       (filter (\<lambda>s. bits AND push_bit (nat s) 1 \<noteq> 0) [1..NSIG - 1])"

definition decode_tty_nr :: "32 word \<Rightarrow> 16 word \<times> 16 word" where
  "decode_tty_nr tty_nr =
     (ucast (drop_bit 8 tty_nr AND 0xff), ucast (drop_bit 16 tty_nr OR (tty_nr AND 0xff)))"

section \<open>The field iterator\<close>

type_synonym 'a fields = "string list \<Rightarrow> ('a, io_error) outcome \<times> string list"

text \<open>\<open>parts.next().unwrap()\<close>, \<open>parts.next()\<close>, and the first with a \<open>parse().unwrap()\<close>.\<close>

fun next_part :: "string fields" where
  "next_part [] = (Panic, [])"
| "next_part (p # ps) = (Ok p, ps)"

fun skip_part :: "unit fields" where
  "skip_part [] = (Ok (), [])"
| "skip_part (p # ps) = (Ok (), ps)"

definition parsed :: "'a option \<Rightarrow> 'a fields" where
  "parsed x ps = (unwrap_opt x, ps)"

definition next_int :: "nat \<Rightarrow> int fields" where
  "next_int w = bind next_part (\<lambda>p. parsed (parse_int w p))"

definition next_uint :: "nat \<Rightarrow> nat fields" where
  "next_uint w = bind next_part (\<lambda>p. parsed (parse_uint w p))"

fun skip_parts :: "nat \<Rightarrow> unit fields" where
  "skip_parts 0 = ret ()"
| "skip_parts (Suc n) = bind next_part (\<lambda>_. skip_parts n)"

definition next_secs :: "f64 \<Rightarrow> f64 fields" where
  "next_secs tick = bind (next_uint 64) (\<lambda>n. ret (FDiv (OfInt (int n)) tick))"

definition next_tpgid :: "(nat option) fields" where
  "next_tpgid = bind next_part (\<lambda>p.
     if p = ''-1'' then ret None else bind (parsed (parse_uint 32 p)) (\<lambda>n. ret (Some n)))"

definition next_mask :: "(string list) fields" where
  "next_mask = bind (next_int 32) (\<lambda>m. ret (expand_sig_bitmap (word_of_int m)))"

definition next_exit_signal :: "(string option) fields" where
  "next_exit_signal = bind (next_int 32) (\<lambda>s.
     if s = 0 then ret None else bind (parsed (get_abbrev s)) (\<lambda>a. ret (Some a)))"

section \<open>\<open>/proc/<pid>/stat\<close>\<close>

definition stat_parts :: "proc_host \<Rightarrow> pid_t \<Rightarrow> string \<Rightarrow> proc_stat fields" where
  "stat_parts H pid comm =
     bind next_part (\<lambda>state.
     bind (next_int 32) (\<lambda>ppid.
     bind (next_uint 32) (\<lambda>pgrp.
     bind (next_int 32) (\<lambda>session.
     bind (next_uint 32) (\<lambda>tty_nr.
     bind next_tpgid (\<lambda>tpgid.
     bind (next_uint 32) (\<lambda>flags.
     bind (next_uint 64) (\<lambda>minflt.
     bind (next_uint 64) (\<lambda>cminflt.
     bind (next_uint 64) (\<lambda>majflt.
     bind (next_uint 64) (\<lambda>cmajflt.
     bind (\<lambda>ps. (unwrap (map_ok OfInt (host_clk_tck H)), ps)) (\<lambda>tick.
     bind (next_secs tick) (\<lambda>utime.
     bind (next_secs tick) (\<lambda>stime.
     bind (next_secs tick) (\<lambda>cutime.
     bind (next_secs tick) (\<lambda>cstime.
     bind (next_int 64) (\<lambda>priority.
     bind (next_int 64) (\<lambda>nice.
     bind (next_int 64) (\<lambda>num_threads.
     bind skip_part (\<lambda>_.
     bind (next_secs tick) (\<lambda>start.
     bind (parsed (host_start_text H start)) (\<lambda>starttime.
     bind (next_uint 64) (\<lambda>vsize.
     bind (next_int 64) (\<lambda>rss.
     bind (next_uint 64) (\<lambda>rsslim.
     bind (skip_parts 5) (\<lambda>_.
     bind next_mask (\<lambda>signal.
     bind next_mask (\<lambda>blocked.
     bind next_mask (\<lambda>sigignore.
     bind next_mask (\<lambda>sigcatch.
     bind (next_uint 64) (\<lambda>wchan.
     bind skip_part (\<lambda>_.
     bind skip_part (\<lambda>_.
     bind next_exit_signal (\<lambda>exit_signal.
     bind (next_int 32) (\<lambda>processor.
     bind (next_uint 32) (\<lambda>rt_priority.
     bind (next_uint 32) (\<lambda>policy.
     bind (next_secs tick) (\<lambda>delayacct.
     bind (next_secs tick) (\<lambda>guest_time.
     bind (next_int 64) (\<lambda>cguest_time.
     bind (skip_parts 7) (\<lambda>_.
     bind (next_int 32) (\<lambda>exit_code.
     ret \<lparr>pst_pid = pid, pst_comm = comm, pst_state = state, pst_ppid = ppid, pst_pgrp = pgrp,
       pst_session = session, pst_tty_nr = decode_tty_nr (of_nat tty_nr), pst_tpgid = tpgid,
       pst_flags = flags, pst_minflt = minflt, pst_cminflt = cminflt, pst_majflt = majflt,
       pst_cmajflt = cmajflt, pst_utime = utime, pst_stime = stime, pst_cutime = cutime,
       pst_cstime = cstime, pst_priority = priority, pst_nice = nice, pst_num_threads = num_threads,
       pst_starttime = starttime, pst_vsize = vsize, pst_rss = word_of_int rss * host_page_size H,
       pst_rsslim = rsslim, pst_signal = signal, pst_blocked = blocked, pst_sigignore = sigignore,
       pst_sigcatch = sigcatch, pst_wchan = wchan, pst_exit_signal = exit_signal,
       pst_processor = processor, pst_rt_priority = rt_priority, pst_policy = policy,
       pst_delayacct_blkio_ticks = delayacct, pst_guest_time = guest_time,
       pst_cguest_time = cguest_time, pst_exit_code = exit_code\<rparr>
     ))))))))))))))))))))))))))))))))))))))))))"

definition stat_parse :: "proc_host \<Rightarrow> string \<Rightarrow> (proc_stat, io_error) outcome" where
  "stat_parse H text =
     and_then (unwrap_opt (split_once CHR '' '' text)) (\<lambda>(pid_text, text).
     and_then (unwrap_opt (parse_int 32 pid_text)) (\<lambda>pid.
     and_then (unwrap_opt (split_once CHR ''('' text)) (\<lambda>(_, text).
     and_then (unwrap_opt (split_once CHR '')'' text)) (\<lambda>(comm, text).
     fst (stat_parts H pid comm (split_char CHR '' '' (trim text)))))))"

text \<open>\<open>read_file\<close> is \<open>std::fs::read_to_string\<close>.\<close>

definition stat_load ::
  "proc_host \<Rightarrow> (string \<Rightarrow> (string, io_error) outcome) \<Rightarrow> pid_t \<Rightarrow> (proc_stat, io_error) outcome" where
  "stat_load H read_file pid =
     and_then (read_file (''/proc/'' @ show_int pid @ ''/stat'')) (stat_parse H)"

section \<open>\<open>/proc/<pid>/statm\<close>\<close>

definition next_pages :: "proc_host \<Rightarrow> (64 word) fields" where
  "next_pages H = bind (next_uint 64) (\<lambda>n. ret (of_nat n * host_page_size H))"

definition statm_parts :: "proc_host \<Rightarrow> proc_statm fields" where
  "statm_parts H =
     bind (next_pages H) (\<lambda>size.
     bind (next_pages H) (\<lambda>resident.
     bind (next_pages H) (\<lambda>shared.
     bind (next_pages H) (\<lambda>text.
     bind next_part (\<lambda>_.
     bind (next_pages H) (\<lambda>data.
     bind next_part (\<lambda>_.
     ret \<lparr>stm_size = size, stm_resident = resident, stm_shared = shared, stm_text = text,
       stm_data = data\<rparr>)))))))"

definition statm_parse :: "proc_host \<Rightarrow> string \<Rightarrow> (proc_statm, io_error) outcome" where
  "statm_parse H text = fst (statm_parts H (split_char CHR '' '' (trim text)))"

definition statm_load ::
  "proc_host \<Rightarrow> (string \<Rightarrow> (string, io_error) outcome) \<Rightarrow> pid_t \<Rightarrow> (proc_statm, io_error) outcome" where
  "statm_load H read_file pid =
     and_then (read_file (''/proc/'' @ show_int pid @ ''/statm'')) (statm_parse H)"

text \<open>\<open>load_or_log\<close>: an error is logged and gives nothing; a panic stays a panic.\<close>

definition load_or_log :: "('a, io_error) outcome \<Rightarrow> ('a option, io_error) outcome" where
  "load_or_log r = (case r of Ok x \<Rightarrow> Ok (Some x) | Err _ \<Rightarrow> Ok None | Panic \<Rightarrow> Panic)"

section \<open>Lines the kernel writes\<close>

text \<open>
  The kernel's line: the pid, the command name in parentheses, the state letter and 49 numbers.
  \<open>stat_layout\<close> is the type of each number, from \<open>proc(5)\<close>.
\<close>

datatype field_kind = KInt nat | KUint nat | KTpgid | KSignal | KAny

fun fits :: "field_kind \<Rightarrow> int \<Rightarrow> bool" where
  "fits (KInt w) x \<longleftrightarrow> - (2 ^ (w - 1)) \<le> x \<and> x < 2 ^ (w - 1)"
| "fits (KUint w) x \<longleftrightarrow> 0 \<le> x \<and> x < 2 ^ w"
| "fits KTpgid x \<longleftrightarrow> x = -1 \<or> 0 \<le> x \<and> x < 2 ^ 32"
| "fits KSignal x \<longleftrightarrow> x = 0 \<or> get_abbrev x \<noteq> None"
| "fits KAny x \<longleftrightarrow> True"

declare fits.simps [simp del]

lemma fits_uint: "fits (KUint w) x \<Longrightarrow> 0 \<le> x \<and> x < 2 ^ w"
  by (simp add: fits.simps)

lemma fits_uint_nat: "fits (KUint w) x \<Longrightarrow> int (nat x) = x"
  by (simp add: fits.simps)

lemma fits_uint_word: "fits (KUint w) x \<Longrightarrow> (of_nat (nat x) :: 'a::len word) = word_of_int x"
  using fits_uint [of w x] by simp

definition stat_layout :: "field_kind list" where
  "stat_layout =
     [KInt 32, KUint 32, KInt 32, KUint 32, KTpgid, KUint 32, KUint 64, KUint 64, KUint 64, KUint 64,
      KUint 64, KUint 64, KUint 64, KUint 64, KInt 64, KInt 64, KInt 64, KAny, KUint 64, KUint 64,
      KInt 64, KUint 64, KAny, KAny, KAny, KAny, KAny, KInt 32, KInt 32, KInt 32,
      KInt 32, KUint 64, KAny, KAny, KSignal, KInt 32, KUint 32, KUint 32, KUint 64, KUint 64,
      KInt 64, KAny, KAny, KAny, KAny, KAny, KAny, KAny, KInt 32]"

definition stat_line :: "pid_t \<Rightarrow> string \<Rightarrow> string \<Rightarrow> int list \<Rightarrow> string" where
  "stat_line pid comm state xs =
     show_int pid @ '' ('' @ comm @ '') '' @ join (CHR '' '') (state # map show_int xs) @ [CHR 0x0A]"

lemma next_int_show:
  "fits (KInt w) x \<Longrightarrow> next_int w (show_int x # ps) = (Ok x, ps)"
  by (simp add: next_int_def parsed_def parse_int_show_int fits.simps)

lemma show_int_nonneg: "0 \<le> x \<Longrightarrow> show_int x = show_nat (nat x)"
  by (simp add: show_int_def)

lemma parse_uint_show_int: "fits (KUint w) x \<Longrightarrow> parse_uint w (show_int x) = Some (nat x)"
  using fits_uint [of w x] by (simp add: show_int_nonneg parse_uint_show_nat nat_less_iff)

lemma next_uint_show:
  "fits (KUint w) x \<Longrightarrow> next_uint w (show_int x # ps) = (Ok (nat x), ps)"
  by (simp add: next_uint_def parsed_def parse_uint_show_int)

lemma next_secs_show:
  "fits (KUint 64) x \<Longrightarrow> next_secs tick (show_int x # ps) = (Ok (FDiv (OfInt x) tick), ps)"
  using fits_uint [of 64 x] by (simp add: next_secs_def next_uint_show)

lemma next_tpgid_show:
  "fits KTpgid x \<Longrightarrow> next_tpgid (show_int x # ps) = (Ok (if x = -1 then None else Some (nat x)), ps)"
proof -
  assume f: "fits KTpgid x"
  show ?thesis
  proof (cases "x = -1")
    case True
    moreover have "show_int (-1) = ''-1''" by code_simp
    ultimately show ?thesis by (simp add: next_tpgid_def)
  next
    case False
    with f have x: "fits (KUint 32) x" by (auto simp: fits.simps)
    then have "show_int x \<noteq> ''-1''"
      using show_nat_no_sign [of "nat x" "CHR ''-''" "''1''"] fits_uint [OF x]
      by (auto simp: show_int_nonneg)
    with x False show ?thesis by (simp add: next_tpgid_def parsed_def parse_uint_show_int)
  qed
qed

lemma next_mask_show:
  "fits (KInt 32) x \<Longrightarrow> next_mask (show_int x # ps) = (Ok (expand_sig_bitmap (word_of_int x)), ps)"
  by (simp add: next_mask_def next_int_show)

lemma next_exit_signal_show:
  "fits KSignal x \<Longrightarrow> next_exit_signal (show_int x # ps) = (Ok (if x = 0 then None else get_abbrev x), ps)"
proof -
  assume f: "fits KSignal x"
  have "fits (KInt 32) x" using f get_abbrev_None [of x] by (auto simp: fits.simps split: if_splits)
  with f show ?thesis by (auto simp: next_exit_signal_def next_int_show parsed_def fits.simps)
qed

lemma next_pages_show:
  "n < 2 ^ 64 \<Longrightarrow> next_pages H (show_nat n # ps) = (Ok (of_nat n * host_page_size H), ps)"
  by (simp add: next_pages_def next_uint_def parsed_def parse_uint_show_nat)

lemma skip_parts_show:
  "skip_parts 5 (a # b # c # d # e # ps) = (Ok (), ps)"
  "skip_parts 7 (a # b # c # d # e # f # g # ps) = (Ok (), ps)"
  by (simp_all add: numeral_eq_Suc)

lemmas next_shows =
  skip_parts_show
  next_int_show next_uint_show next_secs_show next_tpgid_show next_mask_show next_exit_signal_show
  next_pages_show

text \<open>The header of a line, up to the fields.\<close>

lemma stat_parse_header:
  assumes "in_i32 pid" "CHR '')'' \<notin> set comm" "plain_field state"
  shows "stat_parse H (stat_line pid comm state xs) =
    fst (stat_parts H pid comm (state # map show_int xs))"
proof -
  have "CHR '' '' \<notin> set (show_int pid)" by (auto dest: show_int_plain)
  then have "split_once CHR '' '' (stat_line pid comm state xs) =
      Some (show_int pid, ''('' @ comm @ '') '' @ join (CHR '' '') (state # map show_int xs) @ [CHR 0x0A])"
    using split_once_append [of "CHR '' ''" "show_int pid"] by (simp add: stat_line_def)
  moreover have "list_all plain_field (state # map show_int xs)"
    using assms(3) by (simp add: list_all_iff)
  ultimately show ?thesis
    using assms(1,2) fields_line [of "state # map show_int xs"]
    by (simp add: stat_parse_def in_i32_def parse_int_show_int split_once_append)
qed

text \<open>Pull the fields out one at a time: the rules that run the iterator on a printed number.\<close>

lemma fits_cons:
  "list_all2 fits (k # ks) xs \<longleftrightarrow> (\<exists>x ys. xs = x # ys \<and> fits k x \<and> list_all2 fits ks ys)"
  by (cases xs) auto

text \<open>
  C26 On every line the kernel writes (in-range numbers, a command name without a closing
  parenthesis) \<open>ProcStat::parse\<close> does not panic, and the fields of the result are the
  corresponding columns: pid, command, state, the process ids, fault counts, times divided by the
  clock tick, memory sizes times the page size, masks expanded, signals named, and the exit code from
  the last column.
\<close>

theorem stat_parse_line:
  assumes "in_i32 pid" "CHR '')'' \<notin> set comm" "plain_field state"
    and "list_all2 fits stat_layout xs"
    and "host_clk_tck H = Ok tick"
    and "host_start_text H (FDiv (OfInt (xs ! 18)) (OfInt tick)) = Some start"
  shows "\<exists>p. stat_parse H (stat_line pid comm state xs) = Ok p \<and>
    pst_pid p = pid \<and> pst_comm p = comm \<and> pst_state p = state \<and>
    pst_ppid p = xs ! 0 \<and> int (pst_pgrp p) = xs ! 1 \<and> pst_session p = xs ! 2 \<and>
    pst_tty_nr p = decode_tty_nr (word_of_int (xs ! 3)) \<and>
    pst_tpgid p = (if xs ! 4 = -1 then None else Some (nat (xs ! 4))) \<and>
    map int [pst_flags p, pst_minflt p, pst_cminflt p, pst_majflt p, pst_cmajflt p] = take 5 (drop 5 xs) \<and>
    [pst_utime p, pst_stime p, pst_cutime p, pst_cstime p] =
      map (\<lambda>x. FDiv (OfInt x) (OfInt tick)) (take 4 (drop 10 xs)) \<and>
    [pst_priority p, pst_nice p, pst_num_threads p] = take 3 (drop 14 xs) \<and>
    pst_starttime p = start \<and> int (pst_vsize p) = xs ! 19 \<and>
    pst_rss p = word_of_int (xs ! 20) * host_page_size H \<and> int (pst_rsslim p) = xs ! 21 \<and>
    [pst_signal p, pst_blocked p, pst_sigignore p, pst_sigcatch p] =
      map (\<lambda>x. expand_sig_bitmap (word_of_int x)) (take 4 (drop 27 xs)) \<and>
    int (pst_wchan p) = xs ! 31 \<and>
    pst_exit_signal p = (if xs ! 34 = 0 then None else get_abbrev (xs ! 34)) \<and>
    pst_processor p = xs ! 35 \<and> int (pst_rt_priority p) = xs ! 36 \<and> int (pst_policy p) = xs ! 37 \<and>
    [pst_delayacct_blkio_ticks p, pst_guest_time p] =
      map (\<lambda>x. FDiv (OfInt x) (OfInt tick)) (take 2 (drop 38 xs)) \<and>
    pst_cguest_time p = xs ! 40 \<and> pst_exit_code p = xs ! 48"
  unfolding stat_parse_header [OF assms(1-3)] stat_parts_def
  using assms(4-6)
  by (simp only: stat_layout_def fits_cons list_all2_Nil, clarify)
    (simp add: next_shows parsed_def fits_uint_nat [of 32] fits_uint_nat [of 64]
      fits_uint_word [of 32] del: int_nat_eq cong: bind_weak_cong)

definition sample_host :: proc_host where
  "sample_host = \<lparr>host_clk_tck = Ok 100, host_page_size = 4096, host_start_text = (\<lambda>_. Some ''2024-01-01T00:00:00+00:00'')\<rparr>"

definition sample_fields :: "int list" where
  "sample_fields = [1, 42, 42, 1025, -1, 4194304, 100, 0, 2, 0, 250, 50, 0, 0, 20, 0, 1, 0, 12345,
     8192, 300, 18446744073709551615, 1, 1, 1, 1, 1, 0, 65536, 4096, 16384, 0, 0, 0, 17, 3, 0, 0, 0, 0,
     0, 1, 1, 1, 1, 1, 1, 1, 0]"

theorem stat_parse_line_witness:
  "\<exists>p. stat_parse sample_host (stat_line 42 ''my (prog'' ''S'' sample_fields) = Ok p \<and>
     pst_comm p = ''my (prog'' \<and> pst_ppid p = 1 \<and> pst_rss p = 1228800 \<and>
     pst_exit_signal p = Some ''SIGCHLD''"
proof -
  have chld: "get_abbrev 17 = Some ''SIGCHLD''"
    by (simp add: get_abbrev_def SIGNAL_ABBREVS_def SIGNAL_NUMS_def signal_consts)
  have f: "list_all2 fits stat_layout sample_fields"
    by (simp add: stat_layout_def sample_fields_def fits.simps chld)
  have "plain_field ''S''" by (simp add: plain_field_def plain_def ws1_def)
  then obtain p where "stat_parse sample_host (stat_line 42 ''my (prog'' ''S'' sample_fields) = Ok p"
    "pst_comm p = ''my (prog''" "pst_ppid p = sample_fields ! 0"
    "pst_rss p = word_of_int (sample_fields ! 20) * host_page_size sample_host"
    "pst_exit_signal p = (if sample_fields ! 34 = 0 then None else get_abbrev (sample_fields ! 34))"
    using stat_parse_line [of 42 "''my (prog''" "''S''" sample_fields sample_host 100
        "''2024-01-01T00:00:00+00:00''", OF _ _ _ f]
    by (auto simp: in_i32_def sample_host_def)
  then show ?thesis by (intro exI [of _ p]) (simp add: sample_fields_def sample_host_def chld)
qed

text \<open>
  A command name with a closing parenthesis is cut at its first one, and the rest of the name is
  read as the state: when the name goes on with plain text, \<open>ProcStat::parse\<close> takes the state letter
  for the parent pid and panics.
\<close>

theorem stat_parse_paren_panics:
  assumes "in_i32 pid" "CHR '')'' \<notin> set a" "\<forall>c \<in> set b. plain c"
    and "plain_field state" "parse_int 32 state = None"
  shows "stat_parse H (stat_line pid (a @ CHR '')'' # b) state xs) = Panic"
proof -
  let ?fs = "(b @ '')'') # state # map show_int xs"
  have line: "stat_line pid (a @ CHR '')'' # b) state xs =
      show_int pid @ '' ('' @ a @ CHR '')'' # (join (CHR '' '') ?fs @ [CHR 0x0A])"
    by (simp add: stat_line_def)
  have "CHR '' '' \<notin> set (show_int pid)" by (auto dest: show_int_plain)
  then have "split_once CHR '' '' (stat_line pid (a @ CHR '')'' # b) state xs) =
      Some (show_int pid, ''('' @ a @ CHR '')'' # (join (CHR '' '') ?fs @ [CHR 0x0A]))"
    using split_once_append [of "CHR '' ''" "show_int pid"] by (simp add: line)
  moreover have "plain (CHR '')'')" by (simp add: plain_def ws1_def)
  with assms(3,4) have "list_all plain_field ?fs"
    by (auto simp: list_all_iff plain_field_def [of "b @ '')''"])
  then have "split_char (CHR '' '') (join (CHR '' '') ?fs) = ?fs"
    "trim (join (CHR '' '') ?fs @ [CHR 0x0A]) = join (CHR '' '') ?fs"
    using fields_line [of ?fs] by blast+
  moreover have "fst (stat_parts H pid a ?fs) = Panic"
    using assms(5) by (simp add: stat_parts_def next_int_def parsed_def cong: bind_weak_cong)
  ultimately show ?thesis
    using assms(1,2)
    by (simp only: stat_parse_def) (simp add: in_i32_def parse_int_show_int split_once_append)
qed

theorem stat_parse_paren_panics_witness:
  "stat_parse sample_host (stat_line 42 ''evil)x'' ''S'' sample_fields) = Panic"
proof -
  have p: "plain_field ''S''" "plain (CHR ''x'')" by (simp_all add: plain_field_def plain_def ws1_def)
  have "parse_int 32 ''S'' = None" by (simp add: parse_int.simps digits_value_def digit_of_def)
  with p show ?thesis
    using stat_parse_paren_panics [of 42 "''evil''" "''x''" "''S''" sample_host sample_fields]
    by (simp add: in_i32_def)
qed

text \<open>
  \<open>ProcStatm::parse\<close> of the kernel's line gives the sizes in bytes: the page counts times the page
  size, modulo \<open>2 ^ 64\<close>, skipping the two unused columns.
\<close>

theorem statm_parse_line:
  assumes "\<forall>n \<in> {a, b, c, d, f}. n < 2 ^ 64"
  shows "statm_parse H (join (CHR '' '') (map show_nat [a, b, c, d, e, f, g]) @ [CHR 0x0A]) =
    Ok \<lparr>stm_size = of_nat a * host_page_size H, stm_resident = of_nat b * host_page_size H,
        stm_shared = of_nat c * host_page_size H, stm_text = of_nat d * host_page_size H,
        stm_data = of_nat f * host_page_size H\<rparr>"
proof -
  have "list_all plain_field (map show_nat [a, b, c, d, e, f, g])" by simp
  then have l: "split_char (CHR '' '') (trim (join (CHR '' '') (map show_nat [a, b, c, d, e, f, g]) @ [CHR 0x0A]))
      = map show_nat [a, b, c, d, e, f, g]"
    using fields_line [of "map show_nat [a, b, c, d, e, f, g]"] by (simp del: join.simps)
  from assms show ?thesis
    unfolding statm_parse_def l by (simp add: statm_parts_def next_pages_show cong: bind_weak_cong)
qed

theorem statm_parse_line_witness:
  "statm_parse sample_host (join (CHR '' '') (map show_nat [10, 5, 3, 1, 0, 4, 0]) @ [CHR 0x0A]) =
    (Ok \<lparr>stm_size = 40960, stm_resident = 20480, stm_shared = 12288, stm_text = 4096, stm_data = 16384\<rparr>
       )"
  using statm_parse_line [of 10 5 3 1 4 sample_host 0 0] by (simp add: sample_host_def)

definition abbrev_or_unknown :: "signum \<Rightarrow> string" where
  "abbrev_or_unknown s = (case get_abbrev s of Some a \<Rightarrow> a | None \<Rightarrow> ''???'')"

lemma expand_sig_bitmap_bits:
  "expand_sig_bitmap bits = map abbrev_or_unknown (filter (\<lambda>s. bit bits (nat s)) [1..31])"
proof -
  have b: "bits AND push_bit n 1 \<noteq> 0 \<longleftrightarrow> bit bits n" for n
    unfolding push_bit_of_1 by (simp add: and_exp_eq_0_iff_not_bit)
  have "filter (\<lambda>s. bits AND push_bit (nat s) 1 \<noteq> 0) [1..31] = filter (\<lambda>s. bit bits (nat s)) [1..31]"
    by (simp only: b)
  then show ?thesis
    by (simp add: expand_sig_bitmap_def abbrev_or_unknown_def [abs_def] NSIG_def)
qed

definition only_signal :: "signum \<Rightarrow> 32 word" where
  "only_signal n = push_bit (nat (n - 1)) 1"

lemma filter_is: "filter (\<lambda>s. s = x) [a..b] = (if a \<le> x \<and> x \<le> b then [x] else [])" for x a b :: int
proof (cases "a \<le> x \<and> x \<le> b")
  case True
  then have "[a..b] = [a..x - 1] @ x # [x + 1..b]" by (simp add: upto_split3)
  with True show ?thesis by (simp add: filter_empty_conv)
qed (auto simp: filter_empty_conv)

text \<open>
  Signal masks are shifted by one: the kernel sets bit \<open>n - 1\<close> for signal \<open>n\<close>, and
  \<open>expand_sig_bitmap\<close> of the mask with only signal \<open>n\<close> names signal \<open>n - 1\<close>, or nothing for signal 1.
\<close>

theorem sig_mask_shifted:
  assumes "1 \<le> n" "n \<le> 32"
  shows "expand_sig_bitmap (only_signal n) = (if n = 1 then [] else [abbrev_or_unknown (n - 1)])"
proof -
  have "bit (only_signal n) (nat s) \<longleftrightarrow> s = n - 1" if "1 \<le> s" for s
    using assms that by (auto simp: only_signal_def bit_simps)
  then have "filter (\<lambda>s. bit (only_signal n) (nat s)) [1..31] = filter (\<lambda>s. s = n - 1) [1..31]"
    by (intro filter_cong) auto
  with assms show ?thesis by (simp add: expand_sig_bitmap_bits filter_is)
qed

theorem sig_mask_shifted_witness:
  "expand_sig_bitmap (only_signal 15) = [''SIGALRM''] \<and> get_abbrev 15 = Some ''SIGTERM'' \<and>
   expand_sig_bitmap (only_signal 1) = []"
  using sig_mask_shifted [of 15] sig_mask_shifted [of 1]
  by (simp add: abbrev_or_unknown_def get_abbrev_def SIGNAL_ABBREVS_def SIGNAL_NUMS_def signal_consts)

text \<open>The kernel's encoding of a device number in the \<open>tty_nr\<close> column.\<close>

definition encode_dev :: "32 word \<Rightarrow> 32 word \<Rightarrow> 32 word" where
  "encode_dev major minor = (minor AND 0xff) OR push_bit 8 major OR push_bit 12 (minor AND NOT 0xff)"

lemma byte_lt: "bit (b :: 8 word) n \<Longrightarrow> n < 8"
  using bit_imp_le_length [of b n] by simp

lemma byte_top: "8 \<le> n \<Longrightarrow> \<not> bit (b :: 8 word) n"
  using byte_lt [of b n] by auto

lemma byte_mask: "(0xff :: 32 word) = mask 8"
  by (simp add: mask_eq_exp_minus_1)

lemma encode_dev_byte: "encode_dev (ucast M) (ucast m) = push_bit 8 (ucast M) OR ucast (m :: 8 word)"
  unfolding encode_dev_def byte_mask
  by (rule bit_word_eqI) (auto simp: bit_simps byte_top)

text \<open>
  A terminal's device number is decoded to (major, minor) when both fit a byte; with a larger minor
  number the upper part lands in the wrong place (\<open>/dev/pts/256\<close>, minor 256, is read as 16).
\<close>

theorem tty_nr_decoded:
  "decode_tty_nr (encode_dev (ucast (M :: 8 word)) (ucast (m :: 8 word))) = (ucast M, ucast m) \<and>
   decode_tty_nr (encode_dev 136 256) = (136, 16)"
proof
  show "decode_tty_nr (encode_dev (ucast M) (ucast m)) = (ucast M, ucast m)"
    unfolding decode_tty_nr_def encode_dev_byte byte_mask
    by (intro prod_eqI; rule bit_word_eqI) (auto simp: bit_simps byte_top dest: byte_lt)
  show "decode_tty_nr (encode_dev 136 256) = (136, 16)" by (simp add: decode_tty_nr_def encode_dev_def)
qed

end
