(* ===== verification/Cgroup.thy ===== *)
theory Cgroup
  imports Sys RustStr
begin

text \<open>
  The cgroup accounting of \<open>src/systemd/cgroup.rs\<close>.  The cgroup file system is the parameter
  \<open>read_file\<close> (\<open>std::fs::read_to_string\<close>); everything else is the source's parsing: scalar files, the
  flat keyed files \<open>cpu.stat\<close> and \<open>memory.events\<close>, and which file is read for which controller.
\<close>

definition CGROUP_ROOT :: string where
  "CGROUP_ROOT = ''/sys/fs/cgroup''"

datatype cgroup_error = CgIo io_error | CgParse string

type_synonym reader = "string \<Rightarrow> (string, io_error) outcome"

section \<open>Scalar and flat keyed files\<close>

definition load_scalar :: "(string \<Rightarrow> 'a option) \<Rightarrow> reader \<Rightarrow> string \<Rightarrow> ('a, cgroup_error) outcome" where
  "load_scalar parse read_file path =
     and_then (map_err CgIo (read_file path)) (\<lambda>text. ok_or (CgParse path) (parse (trim text)))"

text \<open>
  One line of a flat keyed file.  A missing second part returns the parse error before the first part
  is looked at; every other fault is the same error.
\<close>

definition keyed_line ::
  "(string \<Rightarrow> 'a option) \<Rightarrow> string \<Rightarrow> string \<Rightarrow> (string \<times> 'a, cgroup_error) outcome" where
  "keyed_line parse path line =
     (case split_whitespace line of
        k # v # _ \<Rightarrow> (case parse v of Some x \<Rightarrow> Ok (k, x) | None \<Rightarrow> Err (CgParse path))
      | _ \<Rightarrow> Err (CgParse path))"

fun keyed_lines ::
  "(string \<Rightarrow> 'a option) \<Rightarrow> string \<Rightarrow> (string \<rightharpoonup> 'a) \<Rightarrow> string list \<Rightarrow> (string \<rightharpoonup> 'a, cgroup_error) outcome" where
  "keyed_lines parse path output [] = Ok output"
| "keyed_lines parse path output (line # ls) =
     and_then (keyed_line parse path line) (\<lambda>(k, v). keyed_lines parse path (output(k \<mapsto> v)) ls)"

definition load_flat_keyed ::
  "(string \<Rightarrow> 'a option) \<Rightarrow> reader \<Rightarrow> string \<Rightarrow> (string \<rightharpoonup> 'a, cgroup_error) outcome" where
  "load_flat_keyed parse read_file path =
     and_then (map_err CgIo (read_file path)) (\<lambda>text. keyed_lines parse path Map.empty (lines (trim text)))"

section \<open>Controllers\<close>

record pids =
  pids_current :: nat
  pids_peak :: nat

record cpu_stat =
  cpu_usage_usec :: nat
  cpu_user_usec :: nat
  cpu_system_usec :: nat
  cpu_nr_periods :: "nat option"
  cpu_nr_throttled :: "nat option"
  cpu_throttled_usec :: "nat option"
  cpu_nr_bursts :: "nat option"
  cpu_burst_usec :: "nat option"

record memory_events =
  me_low :: nat
  me_high :: nat
  me_max :: nat
  me_oom :: nat
  me_oom_kill :: nat
  me_oom_group_kill :: "nat option"

datatype memory_max = Unlimited string | MaxBytes nat

record memory =
  mem_current :: nat
  mem_peak :: nat
  mem_swap_current :: nat
  mem_swap_peak :: nat
  mem_events :: "memory_events option"
  mem_events_local :: "memory_events option"
  mem_max :: "memory_max option"

definition scalar_u64 :: "reader \<Rightarrow> string \<Rightarrow> string \<Rightarrow> (nat, cgroup_error) outcome" where
  "scalar_u64 read_file cgroup_path filename =
     load_scalar (parse_uint 64) read_file (path_join cgroup_path filename)"

definition pids_load :: "reader \<Rightarrow> string \<Rightarrow> (pids, cgroup_error) outcome" where
  "pids_load read_file cgroup_path =
     and_then (scalar_u64 read_file cgroup_path ''pids.current'') (\<lambda>current.
     and_then (scalar_u64 read_file cgroup_path ''pids.peak'') (\<lambda>peak.
     Ok \<lparr>pids_current = current, pids_peak = peak\<rparr>))"

text \<open>\<open>remove(key).ok_or(..)\<close> on the loaded map: the keys taken are distinct, so nothing is taken twice.\<close>

definition take_key :: "string \<Rightarrow> (string \<rightharpoonup> nat) \<Rightarrow> string \<Rightarrow> (nat, cgroup_error) outcome" where
  "take_key path mapping key = ok_or (CgParse path) (mapping key)"

definition cpu_stat_load :: "reader \<Rightarrow> string \<Rightarrow> (cpu_stat, cgroup_error) outcome" where
  "cpu_stat_load read_file cgroup_path =
     (let path = path_join cgroup_path ''cpu.stat'' in
      and_then (load_flat_keyed (parse_uint 64) read_file path) (\<lambda>mapping.
      and_then (take_key path mapping ''usage_usec'') (\<lambda>usage.
      and_then (take_key path mapping ''user_usec'') (\<lambda>user.
      and_then (take_key path mapping ''system_usec'') (\<lambda>system.
      Ok \<lparr>cpu_usage_usec = usage, cpu_user_usec = user, cpu_system_usec = system,
          cpu_nr_periods = mapping ''nr_periods'', cpu_nr_throttled = mapping ''nr_throttled'',
          cpu_throttled_usec = mapping ''throttled_usec'', cpu_nr_bursts = mapping ''nr_bursts'',
          cpu_burst_usec = mapping ''burst_usec''\<rparr>)))))"

definition memory_events_load :: "reader \<Rightarrow> string \<Rightarrow> (memory_events, cgroup_error) outcome" where
  "memory_events_load read_file path =
     and_then (load_flat_keyed (parse_uint 64) read_file path) (\<lambda>mapping.
     and_then (take_key path mapping ''low'') (\<lambda>low.
     and_then (take_key path mapping ''high'') (\<lambda>high.
     and_then (take_key path mapping ''max'') (\<lambda>max.
     and_then (take_key path mapping ''oom'') (\<lambda>oom.
     and_then (take_key path mapping ''oom_kill'') (\<lambda>oom_kill.
     Ok \<lparr>me_low = low, me_high = high, me_max = max, me_oom = oom, me_oom_kill = oom_kill,
         me_oom_group_kill = mapping ''oom_group_kill''\<rparr>))))))"

definition memory_max_load :: "reader \<Rightarrow> string \<Rightarrow> (memory_max, cgroup_error) outcome" where
  "memory_max_load read_file path =
     and_then (map_err CgIo (read_file path)) (\<lambda>contents.
       let text = trim contents in
       if text = ''max'' then Ok (Unlimited text)
       else map_ok MaxBytes (ok_or (CgParse path) (parse_uint 64 text)))"

text \<open>\<open>ok()\<close> of a load, where the reader does not panic: an error is logged and dropped.\<close>

definition memory_load :: "reader \<Rightarrow> string \<Rightarrow> (memory, cgroup_error) outcome" where
  "memory_load read_file cgroup_path =
     (let events = ok_opt (memory_events_load read_file (path_join cgroup_path ''memory.events''));
          events_local = ok_opt (memory_events_load read_file (path_join cgroup_path ''memory.events.local''));
          max = ok_opt (memory_max_load read_file (path_join cgroup_path ''memory.max'')) in
      and_then (scalar_u64 read_file cgroup_path ''memory.current'') (\<lambda>current.
      and_then (scalar_u64 read_file cgroup_path ''memory.peak'') (\<lambda>peak.
      and_then (scalar_u64 read_file cgroup_path ''memory.swap.current'') (\<lambda>swap_current.
      and_then (scalar_u64 read_file cgroup_path ''memory.swap.peak'') (\<lambda>swap_peak.
      Ok \<lparr>mem_current = current, mem_peak = peak, mem_swap_current = swap_current,
          mem_swap_peak = swap_peak, mem_events = events, mem_events_local = events_local,
          mem_max = max\<rparr>)))))"

section \<open>Accounting\<close>

text \<open>The \<open>HashSet\<close> of controllers is only asked for membership: a list of its elements.\<close>

definition enabled_controllers :: "reader \<Rightarrow> string \<Rightarrow> (string list, cgroup_error) outcome" where
  "enabled_controllers read_file cgroup_path =
     (let control_file =
        (if path_eq cgroup_path CGROUP_ROOT then path_join cgroup_path ''cgroup.subtree_control''
         else path_join cgroup_path ''cgroup.controllers'')
      in map_ok split_whitespace (map_err CgIo (read_file control_file)))"

record cgroup_accounting =
  cg_pids :: "pids option"
  cg_cpu_stat :: "cpu_stat option"
  cg_memory :: "memory option"

definition accounting_load :: "reader \<Rightarrow> string \<Rightarrow> (cgroup_accounting, cgroup_error) outcome" where
  "accounting_load read_file cgroup_path =
     and_then (enabled_controllers read_file cgroup_path) (\<lambda>controllers.
     and_then (if ''pids'' \<in> set controllers then map_ok Some (pids_load read_file cgroup_path) else Ok None) (\<lambda>p.
     and_then (if ''memory'' \<in> set controllers then map_ok Some (memory_load read_file cgroup_path) else Ok None) (\<lambda>m.
     and_then (cpu_stat_load read_file cgroup_path) (\<lambda>c.
     Ok \<lparr>cg_pids = p, cg_cpu_stat = Some c, cg_memory = m\<rparr>))))"

definition accounting_load_or_log :: "reader \<Rightarrow> string \<Rightarrow> cgroup_accounting option" where
  "accounting_load_or_log read_file cgroup_path = ok_opt (accounting_load read_file cgroup_path)"

section \<open>What the kernel writes is read back\<close>

definition keyed_text :: "(string \<times> nat) list \<Rightarrow> string" where
  "keyed_text kvs = concat (map (\<lambda>(k, v). k @ CHR '' '' # show_nat v @ [CHR 0x0A]) kvs)"

definition scalar_text :: "nat \<Rightarrow> string" where
  "scalar_text n = show_nat n @ [CHR 0x0A]"

text \<open>Splitting at white space.\<close>

lemma split_ws_plain:
  "\<forall>c \<in> set w. plain c \<Longrightarrow> split_ws acc (w @ s) = split_ws (acc @ w) s"
proof (induction w arbitrary: acc)
  case (Cons c w)
  then have "ws_len (\<lambda>x. x) (c # w @ s) = 0" by (simp add: ws_len_plain)
  with Cons show ?case by (subst split_ws.simps) simp
qed simp

lemma split_ws_sep:
  "acc \<noteq> [] \<Longrightarrow> c \<in> set ws1 \<Longrightarrow> split_ws acc (c # s) = acc # split_ws [] s"
  by (subst split_ws.simps) (simp add: ws_len_def)

lemma split_ws_end: "split_ws acc [] = (if acc = [] then [] else [acc])"
  by (subst split_ws.simps) simp

lemma sep_ws1 [simp]: "CHR '' '' \<in> set ws1" "CHR 0x0A \<in> set ws1"
  by (simp_all add: ws1_def)

lemma split_whitespace_join:
  assumes "list_all plain_field xs"
  shows "split_whitespace (join (CHR '' '') xs) = xs"
    "split_whitespace (join (CHR '' '') xs @ [CHR 0x0A]) = xs"
proof -
  have "split_ws [] (join (CHR '' '') xs @ t) = xs" if "t = [] \<or> t = [CHR 0x0A]" for t
    using assms
  proof (induction "CHR '' ''" xs rule: join.induct)
    case 1
    have "split_ws [] [CHR 0x0A] = []"
      by (subst split_ws.simps) (simp add: ws_len_def split_ws_end)
    with that show ?case by (auto simp: split_ws_end)
  next
    case (2 x)
    then have "split_ws [] (x @ t) = split_ws x t" "x \<noteq> []"
      using split_ws_plain [of x "[]"] by (auto simp: plain_field_def)
    with that show ?case by (auto simp: split_ws_end split_ws_sep)
  next
    case (3 x y xs)
    then show ?case
      by (simp add: plain_field_def split_ws_plain split_ws_sep)
  qed
  from this [of "[]"] this [of "[CHR 0x0A]"]
  show "split_whitespace (join (CHR '' '') xs) = xs"
    "split_whitespace (join (CHR '' '') xs @ [CHR 0x0A]) = xs"
    by (simp_all add: split_whitespace_def)
qed

text \<open>The lines of a trimmed file of lines.\<close>

lemma lines_join:
  assumes "ls \<noteq> []" "\<And>l. l \<in> set ls \<Longrightarrow> CHR 0x0A \<notin> set l \<and> l \<noteq> [] \<and> last l \<noteq> CHR 0x0D"
  shows "lines (join (CHR 0x0A) ls) = ls"
proof -
  have "split_char (CHR 0x0A) (join (CHR 0x0A) ls) = ls"
    using assms by (intro split_char_join) auto
  moreover have "map strip_cr (butlast ls) = butlast ls"
    using assms(2) by (intro map_idI) (auto simp: strip_cr_def dest: in_set_butlastD)
  moreover have "last ls \<noteq> []" using assms by auto
  ultimately show ?thesis using assms(1) by (simp add: lines_def)
qed

lemma trim_lines:
  assumes "ls \<noteq> []" "\<And>l. l \<in> set ls \<Longrightarrow> l \<noteq> [] \<and> plain (hd l) \<and> plain (last l)"
  shows "trim (concat (map (\<lambda>l. l @ [CHR 0x0A]) ls)) = join (CHR 0x0A) ls"
proof -
  have "concat (map (\<lambda>l. l @ [CHR 0x0A]) ls) = join (CHR 0x0A) ls @ [CHR 0x0A]"
    using assms(1) by (induction "CHR 0x0A" ls rule: join.induct) auto
  moreover have "hd ls \<noteq> []" "plain (hd (hd ls))" "plain (last (last ls))"
    using assms by (auto simp: hd_in_set last_in_set)
  moreover have "last (join (CHR 0x0A) ls) = last (last ls)"
    using assms by (intro last_join) auto
  ultimately show ?thesis
    using assms(1) by (simp add: trim_plain join_not_Nil hd_join)
qed

definition good_entry :: "string \<times> nat \<Rightarrow> bool" where
  "good_entry kv \<longleftrightarrow> plain_field (fst kv) \<and> snd kv < 2 ^ 64"

definition entry_line :: "string \<times> nat \<Rightarrow> string" where
  "entry_line kv = join (CHR '' '') [fst kv, show_nat (snd kv)]"

lemma keyed_text_lines: "keyed_text kvs = concat (map (\<lambda>l. l @ [CHR 0x0A]) (map entry_line kvs))"
  unfolding keyed_text_def by (rule arg_cong [of _ _ concat]) (auto simp: entry_line_def)

lemma keyed_line_entry:
  "good_entry kv \<Longrightarrow> keyed_line (parse_uint 64) path (entry_line kv) = Ok kv"
proof -
  assume g: "good_entry kv"
  then have "split_whitespace (entry_line kv) = [fst kv, show_nat (snd kv)]"
    unfolding entry_line_def by (intro split_whitespace_join) (simp add: good_entry_def)
  with g show ?thesis by (simp add: keyed_line_def good_entry_def parse_uint_show_nat)
qed

lemma keyed_lines_entries:
  "list_all good_entry kvs \<Longrightarrow>
   keyed_lines (parse_uint 64) path m (map entry_line kvs) = Ok (m ++ map_of (rev kvs))"
proof (induction kvs arbitrary: m)
  case (Cons kv kvs)
  then show ?case by (cases kv) (simp add: keyed_line_entry map_add_assoc [symmetric])
qed simp

lemma last_plain_field: "plain_field x \<Longrightarrow> plain (last x) \<and> last x \<noteq> CHR 0x0D"
  by (auto simp: plain_field_def plain_def ws1_def)

lemma entry_line_shape:
  assumes "good_entry kv"
  shows "entry_line kv \<noteq> []" "plain (hd (entry_line kv))" "plain (last (entry_line kv))"
    "CHR 0x0A \<notin> set (entry_line kv)" "last (entry_line kv) \<noteq> CHR 0x0D"
proof -
  from assms have k: "plain_field (fst kv)" by (simp add: good_entry_def)
  then have n: "fst kv \<noteq> []" "plain (hd (fst kv))" by (simp_all add: plain_field_def)
  then show "entry_line kv \<noteq> []" "plain (hd (entry_line kv))" by (simp_all add: entry_line_def)
  have l: "last (entry_line kv) = last (show_nat (snd kv))" by (simp add: entry_line_def)
  show "plain (last (entry_line kv))" "last (entry_line kv) \<noteq> CHR 0x0D"
    unfolding l using last_plain_field [OF plain_field_show_nat] by blast+
  show "CHR 0x0A \<notin> set (entry_line kv)"
    using plain_field_no_newline [OF k] plain_field_no_newline [OF plain_field_show_nat]
    by (simp add: entry_line_def)
qed

lemma load_flat_keyed_text:
  assumes "read_file path = Ok (keyed_text kvs)" "list_all good_entry kvs"
  shows "load_flat_keyed (parse_uint 64) read_file path = Ok (map_of (rev kvs))"
proof (cases "kvs = []")
  case True
  then show ?thesis
    using assms(1) by (simp add: load_flat_keyed_def keyed_text_def trim_def trim_front.simps lines_def)
next
  case False
  have e: "good_entry kv" if "kv \<in> set kvs" for kv using assms(2) that by (simp add: list_all_iff)
  have "trim (keyed_text kvs) = join (CHR 0x0A) (map entry_line kvs)"
    unfolding keyed_text_lines using False e entry_line_shape by (intro trim_lines) auto
  moreover have "lines (join (CHR 0x0A) (map entry_line kvs)) = map entry_line kvs"
    using False e entry_line_shape by (intro lines_join) auto
  ultimately show ?thesis
    using assms by (simp add: load_flat_keyed_def keyed_lines_entries)
qed

lemma scalar_text_load:
  assumes "read_file (path_join p f) = Ok (scalar_text n)" "n < 2 ^ 64"
  shows "scalar_u64 read_file p f = Ok n"
proof -
  have "plain_field (show_nat n)" by simp
  then have "trim (scalar_text n) = show_nat n"
    unfolding scalar_text_def by (intro trim_plain) (auto simp: plain_field_def)
  with assms show ?thesis by (simp add: scalar_u64_def load_scalar_def parse_uint_show_nat)
qed

text \<open>The three files without which there is no memory accounting are scalars; the others may fail.\<close>

lemma memory_load_scalars:
  assumes "scalar_u64 r p ''memory.current'' = Ok a" "scalar_u64 r p ''memory.peak'' = Ok b"
    and "scalar_u64 r p ''memory.swap.current'' = Ok c" "scalar_u64 r p ''memory.swap.peak'' = Ok d"
  shows "\<exists>m. memory_load r p = Ok m \<and> mem_current m = a \<and> mem_peak m = b \<and>
    mem_swap_current m = c \<and> mem_swap_peak m = d"
  using assms by (simp add: memory_load_def)

text \<open>
  C27 The accounting read from a cgroup directory is what its files say: for a directory whose files have
  the kernel's format, \<open>CGroupAccounting::load\<close> succeeds whatever the optional memory files hold, the
  cpu values are the file's entries, and the pids and memory values are read exactly when their
  controller is enabled.
\<close>

theorem accounting_loaded:
  assumes "\<not> path_eq p CGROUP_ROOT" "list_all plain_field cs"
    and "r (path_join p ''cgroup.controllers'') = Ok (join (CHR '' '') cs @ [CHR 0x0A])"
    and "r (path_join p ''cpu.stat'') = Ok (keyed_text kvs)" "list_all good_entry kvs"
    and "distinct (map fst kvs)"
    and "(''usage_usec'', u) \<in> set kvs" "(''user_usec'', v) \<in> set kvs" "(''system_usec'', w) \<in> set kvs"
    and "''pids'' \<in> set cs \<Longrightarrow> r (path_join p ''pids.current'') = Ok (scalar_text n) \<and>
      r (path_join p ''pids.peak'') = Ok (scalar_text m)"
    and "''memory'' \<in> set cs \<Longrightarrow> r (path_join p ''memory.current'') = Ok (scalar_text a) \<and>
      r (path_join p ''memory.peak'') = Ok (scalar_text b) \<and>
      r (path_join p ''memory.swap.current'') = Ok (scalar_text c) \<and>
      r (path_join p ''memory.swap.peak'') = Ok (scalar_text d)"
    and "\<forall>x \<in> {n, m, a, b, c, d}. x < 2 ^ 64"
  shows "\<exists>acc. accounting_load_or_log r p = Some acc \<and>
    cg_pids acc = (if ''pids'' \<in> set cs then Some \<lparr>pids_current = n, pids_peak = m\<rparr> else None) \<and>
    cg_cpu_stat acc = Some \<lparr>cpu_usage_usec = u, cpu_user_usec = v, cpu_system_usec = w,
      cpu_nr_periods = map_of kvs ''nr_periods'', cpu_nr_throttled = map_of kvs ''nr_throttled'',
      cpu_throttled_usec = map_of kvs ''throttled_usec'', cpu_nr_bursts = map_of kvs ''nr_bursts'',
      cpu_burst_usec = map_of kvs ''burst_usec''\<rparr> \<and>
    (cg_memory acc = None \<longleftrightarrow> ''memory'' \<notin> set cs) \<and>
    (\<forall>mem. cg_memory acc = Some mem \<longrightarrow> mem_current mem = a \<and> mem_peak mem = b \<and>
       mem_swap_current mem = c \<and> mem_swap_peak mem = d)"
proof -
  have ctl: "enabled_controllers r p = Ok cs"
    using assms(1-3) by (simp add: enabled_controllers_def split_whitespace_join)
  have "map_of (rev kvs) = map_of kvs"
    using assms(6) by (subst map_of_inject_set) (simp_all flip: rev_map)
  then have "load_flat_keyed (parse_uint 64) r (path_join p ''cpu.stat'') = Ok (map_of kvs)"
    using load_flat_keyed_text [of r "path_join p ''cpu.stat''", OF assms(4,5)] by simp
  then have cpu: "cpu_stat_load r p = Ok \<lparr>cpu_usage_usec = u, cpu_user_usec = v, cpu_system_usec = w,
      cpu_nr_periods = map_of kvs ''nr_periods'', cpu_nr_throttled = map_of kvs ''nr_throttled'',
      cpu_throttled_usec = map_of kvs ''throttled_usec'', cpu_nr_bursts = map_of kvs ''nr_bursts'',
      cpu_burst_usec = map_of kvs ''burst_usec''\<rparr>"
    using assms(6-9) by (simp add: cpu_stat_load_def take_key_def)
  have pid: "pids_load r p = Ok \<lparr>pids_current = n, pids_peak = m\<rparr>" if "''pids'' \<in> set cs"
    using assms(10,12) that by (simp add: pids_load_def scalar_text_load)
  have mem: "\<exists>mem. memory_load r p = Ok mem \<and> mem_current mem = a \<and> mem_peak mem = b \<and>
      mem_swap_current mem = c \<and> mem_swap_peak mem = d" if "''memory'' \<in> set cs"
    using assms(11,12) that by (intro memory_load_scalars scalar_text_load) auto
  show ?thesis
  proof (cases "''memory'' \<in> set cs")
    case True
    with mem obtain mm where "memory_load r p = Ok mm" "mem_current mm = a" "mem_peak mm = b"
      "mem_swap_current mm = c" "mem_swap_peak mm = d" by blast
    with True ctl cpu pid show ?thesis
      by (cases "''pids'' \<in> set cs") (simp_all add: accounting_load_or_log_def accounting_load_def)
  next
    case False
    with ctl cpu pid show ?thesis
      by (cases "''pids'' \<in> set cs") (simp_all add: accounting_load_or_log_def accounting_load_def)
  qed
qed

definition sample_reader :: reader where
  "sample_reader path =
     (case map_of [(''/sys/fs/cgroup/a/cgroup.controllers'', ''pids memory'' @ [CHR 0x0A]),
        (''/sys/fs/cgroup/a/cpu.stat'', keyed_text [(''usage_usec'', 7), (''user_usec'', 5), (''system_usec'', 2)]),
        (''/sys/fs/cgroup/a/pids.current'', scalar_text 1), (''/sys/fs/cgroup/a/pids.peak'', scalar_text 3),
        (''/sys/fs/cgroup/a/memory.current'', scalar_text 100), (''/sys/fs/cgroup/a/memory.peak'', scalar_text 200),
        (''/sys/fs/cgroup/a/memory.swap.current'', scalar_text 0),
        (''/sys/fs/cgroup/a/memory.swap.peak'', scalar_text 0)] path of
        Some t \<Rightarrow> Ok t | None \<Rightarrow> Err (OsError 2))"

theorem accounting_loaded_witness:
  "\<exists>acc. accounting_load_or_log sample_reader ''/sys/fs/cgroup/a'' = Some acc \<and>
     cg_pids acc = Some \<lparr>pids_current = 1, pids_peak = 3\<rparr> \<and>
     (\<exists>mem. cg_memory acc = Some mem \<and> mem_current mem = 100 \<and> mem_peak mem = 200)"
proof -
  let ?p = "''/sys/fs/cgroup/a''" let ?cs = "[''pids'', ''memory'']"
  let ?kvs = "[(''usage_usec'', 7), (''user_usec'', 5), (''system_usec'', 2)] :: (string \<times> nat) list"
  have g: "list_all good_entry ?kvs" "list_all plain_field ?cs"
    by (simp_all add: good_entry_def plain_field_def plain_def ws1_def)
  have q: "\<not> path_eq ?p CGROUP_ROOT"
    by (simp add: path_eq_def path_components_def CGROUP_ROOT_def)
  show ?thesis
    using accounting_loaded [of ?p ?cs sample_reader ?kvs 7 5 2 1 3 100 200 0 0, OF q g(2) _ _ g(1)]
    by (auto simp: sample_reader_def path_join_def)
qed

end
