(* ===== verification/Res.thy ===== *)
theory Res
  imports Spec Utf8 Procinfo Cgroup
begin

text \<open>
  The result values of \<open>src/res.rs\<close>, with the process state of \<open>src/state.rs\<close> and the text elision of
  \<open>src/string.rs\<close>.  The base64 encoder and the standard library's debug escaping of a string are
  parameters; the \<open>wait\<close> status macros of the C library are the record \<open>wait_macros\<close>.
\<close>

section \<open>Resource usage\<close>

record resource_usage =
  ru_user :: f64
  ru_system :: f64
  ru_max :: "64 word"
  ru_min_flt :: "64 word"
  ru_maj_flt :: "64 word"
  ru_swaps :: "64 word"
  ru_in :: "64 word"
  ru_out :: "64 word"
  ru_voluntary :: "64 word"
  ru_involuntary :: "64 word"

definition time_to_sec :: "timeval \<Rightarrow> f64" where
  "time_to_sec t = FAdd (OfInt (tv_sec t)) (FMul (Lit 1 (-6)) (OfInt (tv_usec t)))"

definition resource_usage_new :: "rusage \<Rightarrow> resource_usage" where
  "resource_usage_new r =
     \<lparr>ru_user = time_to_sec (ru_utime r), ru_system = time_to_sec (ru_stime r),
      ru_max = word_of_int (ru_maxrss r) * 1024,
      ru_min_flt = word_of_int (ru_minflt r), ru_maj_flt = word_of_int (ru_majflt r),
      ru_swaps = word_of_int (ru_nswap r), ru_in = word_of_int (ru_inblock r),
      ru_out = word_of_int (ru_oublock r), ru_voluntary = word_of_int (ru_nvcsw r),
      ru_involuntary = word_of_int (ru_nivcsw r)\<rparr>"

section \<open>Fd results\<close>

datatype fd_res =
    FdResError
  | FdResFile string
  | FdResDetached int string
  | FdResText string string
  | FdResData string string

definition fd_res_from_bytes :: "(byte list \<Rightarrow> string) \<Rightarrow> capture_encoding option \<Rightarrow> byte list \<Rightarrow> fd_res" where
  "fd_res_from_bytes base64 encoding buffer =
     (case encoding of
        Some Utf8 \<Rightarrow> FdResText (from_utf8_lossy buffer) ''utf-8''
      | None \<Rightarrow> FdResData (base64 buffer) ''base64'')"

definition fd_res_detached :: "int \<Rightarrow> capture_encoding option \<Rightarrow> fd_res" where
  "fd_res_detached len encoding =
     FdResDetached len (case encoding of Some Utf8 \<Rightarrow> ''utf-8'' | None \<Rightarrow> ''base64'')"

definition elide :: "(string \<Rightarrow> string) \<Rightarrow> string \<Rightarrow> string" where
  "elide dbg str =
     (let len = length str in
      if len \<le> 64 then dbg str
      else dbg (from_utf8_lossy (take 63 (as_bytes str))) @
        [CHR 0xE2, CHR 0x80, CHR 0xA6] @ '' (len '' @ show_nat len @ '')'')"

fun fd_res_debug :: "(string \<Rightarrow> string) \<Rightarrow> fd_res \<Rightarrow> string" where
  "fd_res_debug dbg FdResError = ''Error''"
| "fd_res_debug dbg (FdResDetached len encoding) =
     ''Detached { length: '' @ show_int len @ '', encoding: '' @ encoding @ '' }''"
| "fd_res_debug dbg (FdResFile path) = ''File { path: '' @ dbg path @ '' }''"
| "fd_res_debug dbg (FdResText text encoding) =
     ''Text { text: '' @ elide dbg text @ '', encoding: '' @ encoding @ '' }''"
| "fd_res_debug dbg (FdResData data encoding) =
     ''Data { encoding: '' @ dbg encoding @ '', data: '' @ elide dbg data @ '' }''"

section \<open>Exit status\<close>

record wait_macros =
  wifexited :: "32 word \<Rightarrow> bool"
  wexitstatus :: "32 word \<Rightarrow> int"
  wtermsig :: "32 word \<Rightarrow> int"
  wcoredump :: "32 word \<Rightarrow> bool"

record status =
  st_status :: "32 word"
  st_exit_code :: "int option"
  st_signum :: "int option"
  st_signal :: "string option"
  st_core_dump :: bool

definition status_new :: "wait_macros \<Rightarrow> 32 word \<Rightarrow> (status, 'e) outcome" where
  "status_new W status =
     (let (exit_code, signum, core_dump) =
        (if wifexited W status then (Some (wexitstatus W status), None, False)
         else (None, Some (wtermsig W status), wcoredump W status))
      in and_then
           (case signum of None \<Rightarrow> Ok None | Some s \<Rightarrow> map_ok Some (unwrap_opt (get_abbrev s)))
           (\<lambda>signal. Ok \<lparr>st_status = status, st_exit_code = exit_code, st_signum = signum,
              st_signal = signal, st_core_dump = core_dump\<rparr>))"

section \<open>Process results\<close>

datatype state = Error | Running | Terminated

record times =
  tm_start :: string
  tm_now :: string
  tm_stop :: "string option"
  tm_elapsed :: f64

record proc_res =
  pr_state :: state
  pr_errors :: "string list"
  pr_pid :: pid_t
  pr_proc_stat :: "proc_stat option"
  pr_proc_statm :: "proc_statm option"
  pr_cgroup_accounting :: "cgroup_accounting option"
  pr_systemd_enabled :: bool
  pr_scope_result :: "string option"
  pr_cleanup_incomplete :: bool
  pr_times :: times
  pr_status :: "status option"
  pr_rusage :: "resource_usage option"
  pr_fds :: "(string, fd_res option) btree"

type_synonym res = "(string, proc_res) btree"

section \<open>Properties\<close>

text \<open>
  The status of a terminated process: an exit gives its code and no signal; a death by one of the
  signals the table names gives the number, its name and the core flag; and \<open>Status::new\<close> panics
  exactly when the terminating signal has no name, which real-time signals and signal 16 do not.
\<close>

theorem status_new_cases:
  "(wifexited W s \<longrightarrow> status_new W s =
      Ok \<lparr>st_status = s, st_exit_code = Some (wexitstatus W s), st_signum = None, st_signal = None,
          st_core_dump = False\<rparr>) \<and>
   (\<not> wifexited W s \<longrightarrow> wtermsig W s \<in> {1..31} - {16} \<longrightarrow>
      (\<exists>name. parse_signum name = Some (wtermsig W s) \<and> status_new W s =
        Ok \<lparr>st_status = s, st_exit_code = None, st_signum = Some (wtermsig W s), st_signal = Some name,
            st_core_dump = wcoredump W s\<rparr>)) \<and>
   (status_new W s = (Panic :: (status, unit) outcome) \<longleftrightarrow>
      \<not> wifexited W s \<and> wtermsig W s \<notin> {1..31} - {16})"
proof (intro conjI impI)
  assume "wifexited W s"
  then show "status_new W s = Ok \<lparr>st_status = s, st_exit_code = Some (wexitstatus W s),
      st_signum = None, st_signal = None, st_core_dump = False\<rparr>"
    by (simp add: status_new_def)
next
  assume s: "\<not> wifexited W s" "wtermsig W s \<in> {1..31} - {16}"
  then obtain name where n: "get_abbrev (wtermsig W s) = Some name"
    using get_abbrev_None [of "wtermsig W s"] by auto
  then have "parse_signum name = Some (wtermsig W s)"
    by (simp add: get_abbrev_iff parse_signum_def signal_names_distinct)
  with s n show "\<exists>name. parse_signum name = Some (wtermsig W s) \<and> status_new W s =
        Ok \<lparr>st_status = s, st_exit_code = None, st_signum = Some (wtermsig W s), st_signal = Some name,
            st_core_dump = wcoredump W s\<rparr>"
    by (simp add: status_new_def)
next
  show "status_new W s = (Panic :: (status, unit) outcome) \<longleftrightarrow>
      \<not> wifexited W s \<and> wtermsig W s \<notin> {1..31} - {16}"
    by (cases "get_abbrev (wtermsig W s)")
      (use get_abbrev_None [of "wtermsig W s"] in \<open>auto simp: status_new_def\<close>)
qed

unbundle bit_operations_syntax

definition linux_macros :: wait_macros where
  "linux_macros = \<lparr>wifexited = (\<lambda>s. s AND 0x7f = 0), wexitstatus = (\<lambda>s. uint (drop_bit 8 s AND 0xff)),
     wtermsig = (\<lambda>s. uint (s AND 0x7f)), wcoredump = (\<lambda>s. s AND 0x80 \<noteq> 0)\<rparr>"

theorem status_new_cases_witness:
  "(\<exists>name. status_new linux_macros 0x89 = (Ok \<lparr>st_status = 0x89, st_exit_code = None, st_signum = Some 9,
      st_signal = Some name, st_core_dump = True\<rparr> :: (status, unit) outcome)) \<and>
   status_new linux_macros 34 = (Panic :: (status, unit) outcome)"
  using status_new_cases [of linux_macros "0x89"] status_new_cases [of linux_macros 34]
  by (auto simp: linux_macros_def)

end
