(* ===== verification/SystemdApi.thy ===== *)
theory SystemdApi
  imports Err Cgroup "HOL-Library.Extended_Nat"
begin

text \<open>
  The systemd client of \<open>src/systemd/api.rs\<close>.  systemd answers over D-Bus: the record \<open>systemd\<close> holds
  the calls of the generated proxies as functions of the bus state, each with the time it takes.

  An \<open>async\<close> function is a \<open>task\<close>: run with a deadline on a world that has a clock, it either
  completes, or is still pending at the deadline and is dropped there (with no deadline: pending for
  ever).  \<open>with_timeout\<close> is \<open>tokio::time::timeout\<close>.  What a dropped task has done to the world stays done.
\<close>

section \<open>Tasks\<close>

record 'b world =
  w_now :: nat
  w_bus :: 'b

type_synonym ('a, 'w) task = "enat \<Rightarrow> 'w \<Rightarrow> 'a option \<times> 'w"

definition finish :: "'a \<Rightarrow> ('a, 'w) task" where
  "finish x dl w = (Some x, w)"

definition and_await :: "('a, 'w) task \<Rightarrow> ('a \<Rightarrow> ('c, 'w) task) \<Rightarrow> ('c, 'w) task" where
  "and_await m f dl w = (case m dl w of (Some x, w') \<Rightarrow> f x dl w' | (None, w') \<Rightarrow> (None, w'))"

definition expire :: "enat \<Rightarrow> ('b, 'z) world_scheme \<Rightarrow> ('b, 'z) world_scheme" where
  "expire dl w = (case dl of enat t \<Rightarrow> w\<lparr>w_now := max (w_now w) t\<rparr> | \<infinity> \<Rightarrow> w)"

definition request :: "('b \<Rightarrow> 'a \<times> nat \<times> 'b) \<Rightarrow> ('a, ('b, 'z) world_scheme) task" where
  "request call dl w =
     (case call (w_bus w) of (r, d, b) \<Rightarrow>
        if enat (w_now w + d) \<le> dl then (Some r, w\<lparr>w_now := w_now w + d, w_bus := b\<rparr>)
        else (None, expire dl (w\<lparr>w_bus := b\<rparr>)))"

definition with_timeout :: "nat \<Rightarrow> ('a, ('b, 'z) world_scheme) task \<Rightarrow> ('a option, ('b, 'z) world_scheme) task" where
  "with_timeout d m dl w =
     (let inner = enat (w_now w + d) in
      case m (min dl inner) w of
        (Some x, w') \<Rightarrow> (Some (Some x), w')
      | (None, w') \<Rightarrow> if inner \<le> dl then (Some None, w') else (None, w'))"

text \<open>The question mark operator on the outcome of a task.\<close>

definition try_await ::
  "(('a, 'e) outcome, 'w) task \<Rightarrow> ('a \<Rightarrow> (('c, 'e) outcome, 'w) task) \<Rightarrow> (('c, 'e) outcome, 'w) task" where
  "try_await m f = and_await m (\<lambda>r. case r of Ok x \<Rightarrow> f x | Err e \<Rightarrow> finish (Err e) | Panic \<Rightarrow> finish Panic)"

section \<open>The bus\<close>

text \<open>
  \<open>sd_removed\<close> is what a subscription to \<open>JobRemoved\<close> receives from now on: the signals with the delay
  after the previous one, the job and the result (nothing when its arguments do not decode), and
  whether the stream then ends rather than staying silent.
\<close>

type_synonym 'b bus_call = "'b \<Rightarrow> (string, zbus_error) outcome \<times> nat \<times> 'b"
type_synonym removed_signal = "nat \<times> (string \<times> string) option"

record 'b systemd =
  sd_receive_job_removed :: "'b \<Rightarrow> (nat, zbus_error) outcome \<times> nat \<times> 'b"
  sd_removed :: "nat \<Rightarrow> 'b \<Rightarrow> removed_signal list \<times> bool"
  sd_start_transient_unit :: "string \<Rightarrow> string \<Rightarrow> unit_property list \<Rightarrow> 'b bus_call"
  sd_stop_unit :: "string \<Rightarrow> string \<Rightarrow> 'b bus_call"
  sd_reset_failed_unit :: "string \<Rightarrow> 'b \<Rightarrow> (unit, zbus_error) outcome \<times> nat \<times> 'b"
  sd_get_unit :: "string \<Rightarrow> 'b bus_call"
  sd_slice_proxy :: "string \<Rightarrow> 'b bus_call"
  sd_unit_proxy :: "string \<Rightarrow> 'b bus_call"
  sd_scope_proxy :: "string \<Rightarrow> 'b bus_call"
  sd_control_group :: "string \<Rightarrow> 'b bus_call"
  sd_active_state :: "string \<Rightarrow> 'b bus_call"
  sd_result :: "string \<Rightarrow> 'b bus_call"

section \<open>Unit names\<close>

datatype unit_type = SliceUnit | ScopeUnit

text \<open>The uuid, in its simple form, is the argument \<open>uuid\<close>.\<close>

definition generate_unit_name :: "string \<Rightarrow> unit_type \<Rightarrow> string" where
  "generate_unit_name uuid unit_type =
     ''procstar'' @ uuid @ ''.'' @ (case unit_type of SliceUnit \<Rightarrow> ''slice'' | ScopeUnit \<Rightarrow> ''scope'')"

section \<open>Operations\<close>

type_synonym ('a, 'b, 'z) bus_task = "(('a, zbus_error) outcome, ('b, 'z) world_scheme) task"

text \<open>Waiting for the job's removal: a signal whose arguments do not decode is an error.\<close>

fun await_start :: "string \<Rightarrow> removed_signal list \<Rightarrow> bool \<Rightarrow> zbus_error \<Rightarrow> (unit, 'b, 'z) bus_task" where
  "await_start job [] ended bad dl w = (if ended then (Some (Ok ()), w) else (None, expire dl w))"
| "await_start job ((d, args) # es) ended bad dl w =
     (if enat (w_now w + d) \<le> dl then
        (let w' = w\<lparr>w_now := w_now w + d\<rparr> in
         case args of
           None \<Rightarrow> (Some (Err bad), w')
         | Some (j, _) \<Rightarrow> if job = j then (Some (Ok ()), w') else await_start job es ended bad dl w')
      else (None, expire dl w))"

definition start_transient_unit ::
  "'b systemd \<Rightarrow> string \<Rightarrow> unit_type \<Rightarrow> unit_property list \<Rightarrow> (string, 'b, 'z) bus_task" where
  "start_transient_unit S uuid unit_type properties =
     (let name = generate_unit_name uuid unit_type in
      try_await (request (sd_receive_job_removed S)) (\<lambda>sub.
      try_await (request (sd_start_transient_unit S name ''replace'' properties)) (\<lambda>job_path.
      \<lambda>dl w. case sd_removed S sub (w_bus w) of (signals, ended) \<Rightarrow>
        try_await (await_start job_path signals ended (OtherZbus ''args''))
          (\<lambda>_. finish (Ok name)) dl w)))"

definition get_slice_cgroup_path :: "'b systemd \<Rightarrow> string \<Rightarrow> (string, 'b, 'z) bus_task" where
  "get_slice_cgroup_path S name =
     try_await (request (sd_get_unit S name)) (\<lambda>unit_path.
     try_await (request (sd_slice_proxy S unit_path)) (\<lambda>proxy.
     try_await (request (sd_control_group S proxy)) (\<lambda>cgroup_rel.
     finish (Ok (path_join CGROUP_ROOT (trim_start_char CHR ''/'' cgroup_rel))))))"

definition systemd_stop :: "'b systemd \<Rightarrow> string \<Rightarrow> (unit, 'b, 'z) bus_task" where
  "systemd_stop S name = try_await (request (sd_stop_unit S name ''replace'')) (\<lambda>_. finish (Ok ()))"

text \<open>Waiting for the stop job: a signal that does not decode is skipped; a stream that ends is unknown.\<close>

fun await_stop :: "string \<Rightarrow> removed_signal list \<Rightarrow> bool \<Rightarrow> (string, ('b, 'z) world_scheme) task" where
  "await_stop job [] ended dl w = (if ended then (Some ''unknown'', w) else (None, expire dl w))"
| "await_stop job ((d, args) # es) ended dl w =
     (if enat (w_now w + d) \<le> dl then
        (let w' = w\<lparr>w_now := w_now w + d\<rparr> in
         case args of
           None \<Rightarrow> await_stop job es ended dl w'
         | Some (j, result) \<Rightarrow> if job = j then (Some result, w') else await_stop job es ended dl w')
      else (None, expire dl w))"

definition stop_and_wait :: "'b systemd \<Rightarrow> string \<Rightarrow> nat \<Rightarrow> (string option, 'b, 'z) bus_task" where
  "stop_and_wait S name timeout =
     try_await (request (sd_receive_job_removed S)) (\<lambda>sub.
     try_await (request (sd_stop_unit S name ''replace'')) (\<lambda>job_path.
     and_await (with_timeout timeout (\<lambda>dl w. case sd_removed S sub (w_bus w) of (signals, ended) \<Rightarrow>
         await_stop job_path signals ended dl w))
       (\<lambda>r. finish (Ok r))))"

definition reset_failed_unit :: "'b systemd \<Rightarrow> string \<Rightarrow> (unit, 'b, 'z) bus_task" where
  "reset_failed_unit S name = request (sd_reset_failed_unit S name)"

definition get_scope_state :: "'b systemd \<Rightarrow> string \<Rightarrow> (string \<times> string, 'b, 'z) bus_task" where
  "get_scope_state S name =
     try_await (request (sd_get_unit S name)) (\<lambda>unit_path.
     try_await (request (sd_unit_proxy S unit_path)) (\<lambda>unit_proxy.
     try_await (request (sd_scope_proxy S unit_path)) (\<lambda>scope_proxy.
     try_await (request (sd_active_state S unit_proxy)) (\<lambda>active_state.
     try_await (request (sd_result S scope_proxy)) (\<lambda>result.
     finish (Ok (active_state, result)))))))"

fun is_no_such_unit :: "zbus_error \<Rightarrow> bool" where
  "is_no_such_unit (MethodError name _) = ends_with name ''NoSuchUnit''"
| "is_no_such_unit (OtherZbus _) = False"

definition job_result_ok :: "string \<Rightarrow> bool" where
  "job_result_ok result \<longleftrightarrow> result = ''done'' \<or> result = ''skipped''"

text \<open>\<open>maybe_connect\<close>: \<open>detected\<close> is whether the cgroup v2 file exists, \<open>connect\<close> the connection attempt.\<close>

definition maybe_connect :: "bool \<Rightarrow> ('s, zbus_error) outcome \<Rightarrow> 's option" where
  "maybe_connect detected connect = (if \<not> detected then None else ok_opt connect)"

section \<open>What a task does to the world\<close>

text \<open>
  A relation between the world before and after a task, for any deadline.  A relation that allows the
  clock and the bus to move up to the deadline, and composes, is respected by every task built from
  requests, timeouts and signals; the locale proves that once.
\<close>

definition obeys ::
  "(enat \<Rightarrow> ('b, 'z) world_scheme \<Rightarrow> ('b, 'z) world_scheme \<Rightarrow> bool) \<Rightarrow> ('a, ('b, 'z) world_scheme) task \<Rightarrow> bool" where
  "obeys R m \<longleftrightarrow> (\<forall>dl w. enat (w_now w) \<le> dl \<longrightarrow> R dl w (snd (m dl w)))"

lemma obeysD: "obeys R m \<Longrightarrow> m dl w = (r, w') \<Longrightarrow> enat (w_now w) \<le> dl \<Longrightarrow> R dl w w'"
  by (metis obeys_def snd_conv)

lemma obeysI:
  "(\<And>dl w r w'. m dl w = (r, w') \<Longrightarrow> enat (w_now w) \<le> dl \<Longrightarrow> R dl w w') \<Longrightarrow> obeys R m"
  unfolding obeys_def by (metis prod.collapse)

locale world_relation =
  fixes R :: "enat \<Rightarrow> ('b, 'z) world_scheme \<Rightarrow> ('b, 'z) world_scheme \<Rightarrow> bool"
  assumes refl: "enat (w_now w) \<le> dl \<Longrightarrow> R dl w w"
    and trans: "R dl w w' \<Longrightarrow> R dl w' w'' \<Longrightarrow> R dl w w''"
    and weaken: "R dl w w' \<Longrightarrow> dl \<le> dl' \<Longrightarrow> R dl' w w'"
    and advance: "enat (w_now w + d) \<le> dl \<Longrightarrow> R dl w (w\<lparr>w_now := w_now w + d, w_bus := b\<rparr>)"
    and lapse: "enat (w_now w) \<le> dl \<Longrightarrow> R dl w (expire dl (w\<lparr>w_bus := b\<rparr>))"
    and within: "R dl w w' \<Longrightarrow> enat (w_now w') \<le> dl"
begin

lemma obeys_finish: "obeys R (finish x)"
  by (rule obeysI) (simp add: finish_def refl)

lemma obeys_read: "obeys R (\<lambda>dl w. (Some (g w), w))"
  by (rule obeysI) (simp add: refl)

lemma obeys_and_await:
  assumes "obeys R m" "\<And>x. obeys R (f x)"
  shows "obeys R (and_await m f)"
proof (rule obeysI)
  fix dl w r w''
  assume a: "and_await m f dl w = (r, w'')" and dl: "enat (w_now w) \<le> dl"
  obtain q w' where m: "m dl w = (q, w')" by (cases "m dl w")
  from obeysD [OF assms(1) m dl] have w': "R dl w w'" .
  show "R dl w w''"
  proof (cases q)
    case None
    with m a w' show ?thesis by (simp add: and_await_def)
  next
    case (Some x)
    with m a have "f x dl w' = (r, w'')" by (simp add: and_await_def)
    from obeysD [OF assms(2) this within [OF w']] w' show ?thesis by (rule trans [rotated])
  qed
qed

lemma obeys_case_option:
  "obeys R g \<Longrightarrow> (\<And>y. obeys R (f y)) \<Longrightarrow> obeys R (case x of None \<Rightarrow> g | Some y \<Rightarrow> f y)"
  by (cases x) simp_all

lemma obeys_case_outcome:
  "(\<And>y. obeys R (h y)) \<Longrightarrow> (\<And>e. obeys R (i e)) \<Longrightarrow> obeys R j \<Longrightarrow>
     obeys R (case r of Ok y \<Rightarrow> h y | Err e \<Rightarrow> i e | Panic \<Rightarrow> j)"
  by (cases r) simp_all

lemma obeys_case_prod:
  "(\<And>a b. obeys R (k a b)) \<Longrightarrow> obeys R (case q of (a, b) \<Rightarrow> k a b)"
  by (cases q) simp

lemma obeys_if: "obeys R n \<Longrightarrow> obeys R n' \<Longrightarrow> obeys R (if c then n else n')"
  by simp

lemma obeys_try_await:
  assumes "obeys R m" "\<And>x. obeys R (f x)"
  shows "obeys R (try_await m f)"
  unfolding try_await_def
  by (intro obeys_and_await obeys_case_outcome obeys_finish assms)

lemma obeys_request: "obeys R (request call)"
proof (rule obeysI)
  fix dl and w w' :: "('b, 'z) world_scheme" and r
  assume a: "request call dl w = (r, w')" and dl: "enat (w_now w) \<le> dl"
  obtain q d b where c: "call (w_bus w) = (q, d, b)" by (metis prod_cases3)
  show "R dl w w'"
  proof (cases "enat (w_now w + d) \<le> dl")
    case True
    with a c advance [OF True, of b] show ?thesis by (simp add: request_def)
  next
    case False
    with a c lapse [OF dl, of b] show ?thesis by (simp add: request_def)
  qed
qed

lemma obeys_with_timeout:
  assumes "obeys R m"
  shows "obeys R (with_timeout d m)"
proof (rule obeysI)
  fix dl w r w''
  assume a: "with_timeout d m dl w = (r, w'')" and dl: "enat (w_now w) \<le> dl"
  obtain q w' where m: "m (min dl (enat (w_now w + d))) w = (q, w')"
    by (cases "m (min dl (enat (w_now w + d))) w")
  have "R (min dl (enat (w_now w + d))) w w'" using obeysD [OF assms m] dl by simp
  then have "R dl w w'" by (rule weaken) simp
  moreover have "w'' = w'" using a m by (auto simp: with_timeout_def Let_def split: option.splits if_splits)
  ultimately show "R dl w w''" by simp
qed

lemma obeys_await_stop: "obeys R (await_stop job signals ended)"
proof (rule obeysI)
  fix dl and w w' :: "('b, 'z) world_scheme" and r
  show "await_stop job signals ended dl w = (r, w') \<Longrightarrow> enat (w_now w) \<le> dl \<Longrightarrow> R dl w w'"
  proof (induction signals arbitrary: w)
    case Nil
    then show ?case using refl [of w dl] lapse [of w dl "w_bus w"] by (auto split: if_splits)
  next
    case (Cons e es)
    obtain d args where e: "e = (d, args)" by (cases e)
    let ?w = "w\<lparr>w_now := w_now w + d\<rparr>"
    show ?case
    proof (cases "enat (w_now w + d) \<le> dl")
      case True
      then have "R dl w ?w" using advance [of w d dl "w_bus w"] by simp
      moreover have "await_stop job es ended dl ?w = (r, w') \<Longrightarrow> R dl ?w w'"
        using Cons.IH [of ?w] True by simp
      ultimately show ?thesis
        using Cons.prems(1) True e trans by (auto simp: Let_def split: option.splits if_splits)
    next
      case False
      with Cons.prems e lapse [of w dl "w_bus w"] show ?thesis by simp
    qed
  qed
qed

lemmas obeys_steps =
  obeys_finish obeys_and_await obeys_case_option obeys_case_outcome obeys_case_prod
  obeys_if obeys_try_await obeys_request obeys_with_timeout

lemma obeys_stop_and_wait: "obeys R (stop_and_wait S name d)"
proof -
  have "obeys R (\<lambda>dl w. case sd_removed S sub (w_bus w) of (signals, ended) \<Rightarrow>
      await_stop job signals ended dl w)" for sub job
    using obeys_await_stop by (fastforce simp: obeys_def split: prod.split)
  then show ?thesis unfolding stop_and_wait_def by (intro obeys_steps)
qed

lemma obeys_reset_failed_unit: "obeys R (reset_failed_unit S name)"
  unfolding reset_failed_unit_def by (intro obeys_steps)

lemma obeys_get_scope_state: "obeys R (get_scope_state S name)"
  unfolding get_scope_state_def by (intro obeys_steps)

lemma obeys_get_slice_cgroup_path: "obeys R (get_slice_cgroup_path S name)"
  unfolding get_slice_cgroup_path_def by (intro obeys_steps)

end

text \<open>The clock moves forward, up to the deadline; and what the world holds beyond the bus is kept.\<close>

definition timely :: "enat \<Rightarrow> ('b, 'z) world_scheme \<Rightarrow> ('b, 'z) world_scheme \<Rightarrow> bool" where
  "timely dl w w' \<longleftrightarrow> w_now w \<le> w_now w' \<and> enat (w_now w') \<le> dl"

lemma expire_simps [simp]:
  "expire (enat t) w = w\<lparr>w_now := max (w_now w) t\<rparr>" "expire \<infinity> w = w"
  by (simp_all add: expire_def)

lemma timely_refl: "enat (w_now w) \<le> dl \<Longrightarrow> timely dl w w"
  by (simp add: timely_def)

lemma timely_trans: "timely dl w w' \<Longrightarrow> timely dl w' w'' \<Longrightarrow> timely dl w w''"
  by (simp add: timely_def)

lemma timely_weaken: "timely dl w w' \<Longrightarrow> dl \<le> dl' \<Longrightarrow> timely dl' w w'"
  by (auto simp: timely_def)

lemma timely_lapse: "enat (w_now w) \<le> dl \<Longrightarrow> timely dl w (expire dl (w\<lparr>w_bus := b\<rparr>))"
  by (cases dl) (simp_all add: timely_def)

interpretation time: world_relation timely
  by unfold_locales
    (auto simp: timely_lapse timely_refl intro: timely_trans timely_weaken, simp_all add: timely_def)

definition framed :: "enat \<Rightarrow> ('b, 'z) world_scheme \<Rightarrow> ('b, 'z) world_scheme \<Rightarrow> bool" where
  "framed dl w w' \<longleftrightarrow> timely dl w w' \<and> world.more w' = world.more w"

lemma more_expire [simp]: "world.more (expire dl w) = world.more w"
  by (cases dl) simp_all

interpretation frame: world_relation framed
  by unfold_locales
    (auto simp: framed_def time.refl time.advance time.lapse intro: time.trans time.weaken time.within)

end
