(* ===== verification/Finalize.thy ===== *)
theory Finalize
  imports SystemdApi
begin

text \<open>
  Finalizing the systemd units of a terminated process, from \<open>src/procs.rs\<close>: \<open>UnitsFinal\<close> and the
  functions \<open>stop_unit\<close>, \<open>settle_scope\<close>, \<open>read_accounting\<close>, \<open>finalize_units\<close>, as tasks on a world that
  also holds the \<open>UnitsFinal\<close> being filled in.  Times are milliseconds; \<open>fs\<close> reads the cgroup file
  system of the current bus state.
\<close>

definition UNIT_STOP_TIMEOUT :: nat where "UNIT_STOP_TIMEOUT = 15000"
definition FINALIZE_BUDGET :: nat where "FINALIZE_BUDGET = 90000"
definition DIAG_TIMEOUT :: nat where "DIAG_TIMEOUT = 10000"

record units_final =
  uf_cgroup_accounting :: "cgroup_accounting option"
  uf_scope_result :: "string option"
  uf_cleanup_incomplete :: bool

definition units_final_default :: units_final where
  "units_final_default = \<lparr>uf_cgroup_accounting = None, uf_scope_result = None, uf_cleanup_incomplete = False\<rparr>"

definition record_scope_result :: "string option \<Rightarrow> units_final \<Rightarrow> units_final" where
  "record_scope_result result fin =
     (case (result, uf_scope_result fin) of
        (None, _) \<Rightarrow> fin
      | (Some new, Some old) \<Rightarrow>
          if new = ''success'' \<and> old \<noteq> ''success'' then fin else fin\<lparr>uf_scope_result := Some new\<rparr>
      | (Some new, None) \<Rightarrow> fin\<lparr>uf_scope_result := Some new\<rparr>)"

definition record_accounting :: "cgroup_accounting option \<Rightarrow> units_final \<Rightarrow> units_final" where
  "record_accounting accounting fin =
     (if accounting \<noteq> None then fin\<lparr>uf_cgroup_accounting := accounting\<rparr> else fin)"

record 'b fworld = "'b world" +
  w_fin :: units_final

type_synonym ('a, 'b) ftask = "('a, 'b fworld) task"

definition update_fin :: "(units_final \<Rightarrow> units_final) \<Rightarrow> (unit, 'b) ftask" where
  "update_fin f dl w = (Some (), w\<lparr>w_fin := f (w_fin w)\<rparr>)"

definition stop_unit :: "'b systemd \<Rightarrow> string \<Rightarrow> (bool, 'b) ftask" where
  "stop_unit S name =
     and_await (stop_and_wait S name UNIT_STOP_TIMEOUT) (\<lambda>r. case r of
         Ok (Some result) \<Rightarrow> finish (job_result_ok result)
       | Ok None \<Rightarrow> finish False
       | Err err \<Rightarrow> finish (is_no_such_unit err)
       | Panic \<Rightarrow> finish False)"

definition settle_scope :: "'b systemd \<Rightarrow> string \<Rightarrow> (bool, 'b) ftask" where
  "settle_scope S scope =
     and_await (with_timeout DIAG_TIMEOUT (get_scope_state S scope)) (\<lambda>st. case st of
         Some (Ok (active_state, result)) \<Rightarrow>
           and_await (update_fin (record_scope_result (Some result))) (\<lambda>_.
             if active_state = ''failed'' then
               and_await (with_timeout DIAG_TIMEOUT (reset_failed_unit S scope)) (\<lambda>r.
                 case r of Some (Ok _) \<Rightarrow> finish True | _ \<Rightarrow> finish False)
             else finish (active_state = ''inactive''))
       | Some (Err err) \<Rightarrow> finish (is_no_such_unit err)
       | _ \<Rightarrow> finish False)"

definition read_accounting :: "('b \<Rightarrow> reader) \<Rightarrow> 'b systemd \<Rightarrow> string \<Rightarrow> (cgroup_accounting option, 'b) ftask" where
  "read_accounting fs S slice_name =
     and_await (with_timeout DIAG_TIMEOUT (get_slice_cgroup_path S slice_name)) (\<lambda>r. case r of
         Some (Ok cgroup_path) \<Rightarrow> (\<lambda>dl w. (Some (accounting_load_or_log (fs (w_bus w)) cgroup_path), w))
       | _ \<Rightarrow> finish None)"

definition record_slice :: "('b \<Rightarrow> reader) \<Rightarrow> 'b systemd \<Rightarrow> string \<Rightarrow> (unit, 'b) ftask" where
  "record_slice fs S slice_name = and_await (read_accounting fs S slice_name) (\<lambda>a. update_fin (record_accounting a))"

text \<open>The scope's part of a round: with no scope there is nothing to stop.\<close>

definition stop_scope :: "'b systemd \<Rightarrow> string option \<Rightarrow> (bool, 'b) ftask" where
  "stop_scope S scope =
     (case scope of
        None \<Rightarrow> finish True
      | Some sc \<Rightarrow> and_await (stop_unit S sc) (\<lambda>a. and_await (settle_scope S sc) (\<lambda>b. finish (a \<and> b))))"

definition finalize_units_inner :: "('b \<Rightarrow> reader) \<Rightarrow> string \<Rightarrow> string option \<Rightarrow> 'b systemd \<Rightarrow> (unit, 'b) ftask" where
  "finalize_units_inner fs slice_name scope S =
     and_await (stop_scope S scope) (\<lambda>ok1.
     and_await (record_slice fs S slice_name) (\<lambda>_.
     and_await (stop_unit S slice_name) (\<lambda>ok2.
     and_await
       (if \<not> (ok1 \<and> ok2) then
          and_await (stop_scope S scope) (\<lambda>ok3.
          and_await (record_slice fs S slice_name) (\<lambda>_.
          and_await (stop_unit S slice_name) (\<lambda>ok4. finish (ok3 \<and> ok4))))
        else finish True)
       (\<lambda>ok. update_fin (\<lambda>fin. fin\<lparr>uf_cleanup_incomplete := \<not> ok\<rparr>)))))"

definition with_fin :: "'b world \<Rightarrow> 'b fworld" where
  "with_fin w = \<lparr>w_now = w_now w, w_bus = w_bus w, w_fin = units_final_default\<rparr>"

definition without_fin :: "'b fworld \<Rightarrow> 'b world" where
  "without_fin w = \<lparr>w_now = w_now w, w_bus = w_bus w\<rparr>"

definition finalize_units ::
  "('b \<Rightarrow> reader) \<Rightarrow> string option \<Rightarrow> string option \<Rightarrow> 'b systemd option \<Rightarrow> (units_final, 'b world) task" where
  "finalize_units fs slice_name scope systemd dl w =
     (case (systemd, slice_name) of
        (Some S, Some sl) \<Rightarrow>
          (case with_timeout FINALIZE_BUDGET (finalize_units_inner fs sl scope S) dl (with_fin w) of
             (Some (Some _), w') \<Rightarrow> (Some (w_fin w'), without_fin w')
           | (Some None, w') \<Rightarrow> (Some ((w_fin w')\<lparr>uf_cleanup_incomplete := True\<rparr>), without_fin w')
           | (None, w') \<Rightarrow> (None, without_fin w'))
      | _ \<Rightarrow> (Some units_final_default, w))"

section \<open>Bounded time and kept evidence\<close>

text \<open>
  \<open>kept\<close>: time moves within the deadline, a recorded failure result never becomes a success or
  disappears, and accounting once read stays.
\<close>

definition failure_recorded :: "units_final \<Rightarrow> bool" where
  "failure_recorded fin \<longleftrightarrow> (\<exists>r. uf_scope_result fin = Some r \<and> r \<noteq> ''success'')"

definition evidence_le :: "units_final \<Rightarrow> units_final \<Rightarrow> bool" where
  "evidence_le fin fin' \<longleftrightarrow>
     (failure_recorded fin \<longrightarrow> failure_recorded fin') \<and>
     (uf_scope_result fin \<noteq> None \<longrightarrow> uf_scope_result fin' \<noteq> None) \<and>
     (uf_cgroup_accounting fin \<noteq> None \<longrightarrow> uf_cgroup_accounting fin' \<noteq> None)"

definition kept :: "enat \<Rightarrow> 'b fworld \<Rightarrow> 'b fworld \<Rightarrow> bool" where
  "kept dl w w' \<longleftrightarrow> timely dl w w' \<and> evidence_le (w_fin w) (w_fin w')"

lemma evidence_refl [simp]: "evidence_le fin fin"
  by (simp add: evidence_le_def)

lemma evidence_trans: "evidence_le a b \<Longrightarrow> evidence_le b c \<Longrightarrow> evidence_le a c"
  by (auto simp: evidence_le_def)

lemma w_fin_expire [simp]: "w_fin (expire dl w) = w_fin w"
  by (cases dl) simp_all

interpretation kept: world_relation kept
  by unfold_locales
    (auto simp: kept_def time.refl time.advance time.lapse
      intro: time.trans time.weaken time.within evidence_trans)

lemma kept_record:
  "obeys kept (update_fin (record_scope_result r))" "obeys kept (update_fin (record_accounting a))"
  "obeys kept (update_fin (\<lambda>fin. fin\<lparr>uf_cleanup_incomplete := c\<rparr>))"
  by (auto simp: obeys_def update_fin_def kept_def timely_def evidence_le_def failure_recorded_def
    record_scope_result_def record_accounting_def split: option.split)

lemma kept_stop_unit: "obeys kept (stop_unit S name)"
  unfolding stop_unit_def by (intro kept.obeys_steps kept.obeys_stop_and_wait)

lemma kept_settle_scope: "obeys kept (settle_scope S scope)"
  unfolding settle_scope_def
  by (intro kept.obeys_steps kept.obeys_get_scope_state kept.obeys_reset_failed_unit kept_record)

lemma kept_record_slice: "obeys kept (record_slice fs S slice_name)"
  unfolding record_slice_def read_accounting_def
  by (intro kept.obeys_steps kept.obeys_get_slice_cgroup_path kept.obeys_read kept_record)

lemma kept_stop_scope: "obeys kept (stop_scope S scope)"
  unfolding stop_scope_def by (intro kept.obeys_steps kept_stop_unit kept_settle_scope)

lemmas kept_rules = kept.obeys_steps kept_stop_unit kept_record_slice kept_stop_scope kept_record

lemma kept_inner: "obeys kept (finalize_units_inner fs slice_name scope S)"
  unfolding finalize_units_inner_def by (intro kept_rules)

lemma finalize_units_returns:
  "\<exists>fin w'. finalize_units fs slice_name scope systemd \<infinity> w = (Some fin, w') \<and>
     w_now w \<le> w_now w' \<and> w_now w' \<le> w_now w + FINALIZE_BUDGET"
proof (cases "\<exists>S sl. systemd = Some S \<and> slice_name = Some sl")
  case True
  then obtain S sl where [simp]: "systemd = Some S" "slice_name = Some sl" by blast
  let ?dl = "enat (w_now w + FINALIZE_BUDGET)"
  obtain r w' where i: "finalize_units_inner fs sl scope S ?dl (with_fin w) = (r, w')"
    by (cases "finalize_units_inner fs sl scope S ?dl (with_fin w)")
  have "kept ?dl (with_fin w) w'"
    using obeysD [OF kept_inner i] by (simp add: with_fin_def)
  then have "w_now w \<le> w_now w' \<and> w_now w' \<le> w_now w + FINALIZE_BUDGET"
    by (simp add: kept_def timely_def with_fin_def)
  with i show ?thesis
    by (cases r) (simp_all add: finalize_units_def with_timeout_def Let_def with_fin_def without_fin_def)
qed (auto simp: finalize_units_def split: option.split)

text \<open>
  C17 Finalizing always returns, within the budget: with no deadline of its own, whatever systemd answers
  and however long it takes, \<open>finalize_units\<close> completes at most 90 seconds after it started.
\<close>

theorem finalize_units_bounded:
  "\<exists>fin w'. finalize_units fs slice_name scope systemd \<infinity> w = (Some fin, w') \<and>
     w_now w \<le> w_now w' \<and> w_now w' \<le> w_now w + FINALIZE_BUDGET"
  by (rule finalize_units_returns)

text \<open>
  C16 Evidence is never lost: whenever the finalizing steps are cut off, by whatever deadline, a failure
  recorded for the scope is still a failure (a later \<open>success\<close> after the reset does not replace it), a
  result stays a result, and accounting once read stays.
\<close>

theorem finalize_keeps_evidence:
  assumes "enat (w_now w) \<le> dl" "finalize_units_inner fs slice_name scope S dl w = (r, w')"
  shows "evidence_le (w_fin w) (w_fin w')"
  using obeysD [OF kept_inner assms(2,1)] by (simp add: kept_def)

text \<open>A bus on which every call takes a second and succeeds, and no job is ever reported removed.\<close>

definition sample_bus :: "unit systemd" where
  "sample_bus = \<lparr>sd_receive_job_removed = (\<lambda>b. (Ok 0, 1000, b)), sd_removed = (\<lambda>_ _. ([], False)),
     sd_start_transient_unit = (\<lambda>_ _ _ b. (Ok ''job'', 1000, b)), sd_stop_unit = (\<lambda>_ _ b. (Ok ''job'', 1000, b)),
     sd_reset_failed_unit = (\<lambda>_ b. (Ok (), 1000, b)), sd_get_unit = (\<lambda>_ b. (Ok ''unit'', 1000, b)),
     sd_slice_proxy = (\<lambda>_ b. (Ok ''p'', 1000, b)), sd_unit_proxy = (\<lambda>_ b. (Ok ''u'', 1000, b)),
     sd_scope_proxy = (\<lambda>_ b. (Ok ''s'', 1000, b)), sd_control_group = (\<lambda>_ b. (Ok ''/x'', 1000, b)),
     sd_active_state = (\<lambda>_ b. (Ok ''failed'', 1000, b)), sd_result = (\<lambda>_ b. (Ok ''oom-kill'', 1000, b))\<rparr>"

definition sample_fworld :: "unit fworld" where
  "sample_fworld = \<lparr>w_now = 0, w_bus = (),
     w_fin = \<lparr>uf_cgroup_accounting = None, uf_scope_result = Some ''oom-kill'', uf_cleanup_incomplete = False\<rparr>\<rparr>"

theorem finalize_keeps_evidence_witness:
  "failure_recorded (w_fin (snd (finalize_units_inner (\<lambda>_ _. Err (OsError 2)) ''s.slice'' (Some ''s.scope'') sample_bus
     (enat 20000) sample_fworld)))"
proof -
  obtain r w' where f: "finalize_units_inner (\<lambda>_ _. Err (OsError 2)) ''s.slice'' (Some ''s.scope'') sample_bus
     (enat 20000) sample_fworld = (r, w')" by fastforce
  have "enat (w_now sample_fworld) \<le> enat 20000" by (simp add: sample_fworld_def)
  from finalize_keeps_evidence [OF this f] f show ?thesis
    by (simp add: evidence_le_def failure_recorded_def sample_fworld_def)
qed

section \<open>When the cleanup is complete\<close>

text \<open>A round of cleanup: stop and settle the scope, read the accounting, stop the slice.\<close>

definition cleanup_round :: "('b \<Rightarrow> reader) \<Rightarrow> string \<Rightarrow> string option \<Rightarrow> 'b systemd \<Rightarrow> (bool, 'b) ftask" where
  "cleanup_round fs slice_name scope S =
     and_await (stop_scope S scope) (\<lambda>ok1.
     and_await (record_slice fs S slice_name) (\<lambda>_.
     and_await (stop_unit S slice_name) (\<lambda>ok2. finish (ok1 \<and> ok2))))"

lemma and_await_assoc: "and_await (and_await m f) g = and_await m (\<lambda>x. and_await (f x) g)"
  by (intro ext) (simp add: and_await_def split: option.split prod.split)

lemma finish_and_await [simp]: "and_await (finish x) f = f x"
  by (intro ext) (simp add: and_await_def finish_def)

lemma and_await_finish [simp]: "and_await m finish = m"
  by (intro ext) (simp add: and_await_def finish_def split: option.split prod.split)

lemma if_not_swap: "(if \<not> c then x else y) = (if c then y else x)"
  by simp

lemma inner_rounds:
  "finalize_units_inner fs slice_name scope S =
     and_await (cleanup_round fs slice_name scope S) (\<lambda>ok.
     and_await (if ok then finish True else cleanup_round fs slice_name scope S) (\<lambda>ok.
     update_fin (\<lambda>fin. fin\<lparr>uf_cleanup_incomplete := \<not> ok\<rparr>)))"
  unfolding finalize_units_inner_def cleanup_round_def and_await_assoc finish_and_await
  by (simp only: if_not_swap)

text \<open>
  The cleanup flag is exact: without systemd or without a slice nothing is flagged; otherwise the
  units are flagged as possibly left behind exactly when the budget ran out or both rounds of stopping
  failed, the second round being run exactly when the first one failed.
\<close>

theorem finalize_cleanup_flag:
  "finalize_units fs slice_name scope None \<infinity> w = (Some units_final_default, w) \<and>
   finalize_units fs None scope systemd \<infinity> w = (Some units_final_default, w) \<and>
   (\<exists>fin w'. finalize_units fs (Some sl) scope (Some S) \<infinity> w = (Some fin, w') \<and>
      (uf_cleanup_incomplete fin \<longleftrightarrow>
        (case cleanup_round fs sl scope S (enat (w_now w + FINALIZE_BUDGET)) (with_fin w) of
           (None, _) \<Rightarrow> True
         | (Some True, _) \<Rightarrow> False
         | (Some False, w1) \<Rightarrow>
             fst (cleanup_round fs sl scope S (enat (w_now w + FINALIZE_BUDGET)) w1) \<noteq> Some True)))"
proof (intro conjI)
  show "finalize_units fs slice_name scope None \<infinity> w = (Some units_final_default, w)"
    "finalize_units fs None scope systemd \<infinity> w = (Some units_final_default, w)"
    by (simp_all add: finalize_units_def split: option.split)
  let ?dl = "enat (w_now w + FINALIZE_BUDGET)"
  obtain a w1 where 1: "cleanup_round fs sl scope S ?dl (with_fin w) = (a, w1)" by fastforce
  obtain b w2 where 2: "cleanup_round fs sl scope S ?dl w1 = (b, w2)" by fastforce
  have t: "with_timeout FINALIZE_BUDGET m \<infinity> (with_fin w) = (case m ?dl (with_fin w) of
      (Some x, w') \<Rightarrow> (Some (Some x), w') | (None, w') \<Rightarrow> (Some None, w'))" for m :: "(unit, 'a) ftask"
    by (simp add: with_timeout_def Let_def with_fin_def split: option.split prod.split)
  show "\<exists>fin w'. finalize_units fs (Some sl) scope (Some S) \<infinity> w = (Some fin, w') \<and>
      (uf_cleanup_incomplete fin \<longleftrightarrow>
        (case cleanup_round fs sl scope S ?dl (with_fin w) of
           (None, _) \<Rightarrow> True | (Some True, _) \<Rightarrow> False
         | (Some False, w1) \<Rightarrow> fst (cleanup_round fs sl scope S ?dl w1) \<noteq> Some True))"
  proof (cases a)
    case None
    with 1 show ?thesis by (simp add: finalize_units_def t inner_rounds and_await_def)
  next
    case (Some ok)
    show ?thesis
    proof (cases ok)
      case True
      with 1 Some show ?thesis
        by (simp add: finalize_units_def t inner_rounds and_await_def finish_def update_fin_def)
    next
      case False
      with 1 2 Some show ?thesis
        by (cases b) (auto simp: finalize_units_def t inner_rounds and_await_def update_fin_def)
    qed
  qed
qed

end
