(* ===== verification/Fd.thy ===== *)
theory Fd
  imports Err Res
begin

text \<open>
  File descriptors of a process, from \<open>src/fd.rs\<close> with \<open>sys::read_from_file\<close>: the handler each fd spec
  becomes, the pipes that connect processes of a batch, what the parent and the child do with a
  handler, and the data and results read from it.  Handlers are values: the only one that changes is
  the memory capture, whose buffer the capture task extends.
\<close>

unbundle bit_operations_syntax

section \<open>Names and flags\<close>

definition get_fd_name :: "raw_fd \<Rightarrow> string" where
  "get_fd_name fd =
     (if fd = 0 then ''stdin'' else if fd = 1 then ''stdout'' else if fd = 2 then ''stderr'' else show_int fd)"

definition O_RDONLY :: int where "O_RDONLY = 0"
definition O_WRONLY :: int where "O_WRONLY = 1"
definition O_RDWR :: int where "O_RDWR = 2"
definition O_CREAT :: int where "O_CREAT = 64"
definition O_EXCL :: int where "O_EXCL = 128"
definition O_TRUNC :: int where "O_TRUNC = 512"
definition O_APPEND :: int where "O_APPEND = 1024"

lemmas oflag_defs = O_RDONLY_def O_WRONLY_def O_RDWR_def O_CREAT_def O_EXCL_def O_TRUNC_def O_APPEND_def

fun get_oflags :: "open_flag \<Rightarrow> raw_fd \<Rightarrow> int" where
  "get_oflags FlagDefault fd =
     (if fd = 0 then O_RDONLY
      else if fd = 1 \<or> fd = 2 then O_WRONLY OR O_CREAT OR O_TRUNC
      else O_RDWR OR O_CREAT OR O_TRUNC)"
| "get_oflags FlagRead fd = O_RDONLY"
| "get_oflags FlagWrite fd = O_WRONLY OR O_CREAT OR O_TRUNC"
| "get_oflags FlagCreate fd = O_WRONLY OR O_CREAT OR O_EXCL"
| "get_oflags FlagReplace fd = O_WRONLY OR O_TRUNC"
| "get_oflags FlagAppend fd = O_WRONLY OR O_APPEND"
| "get_oflags FlagCreateAppend fd = O_WRONLY OR O_CREAT OR O_APPEND"
| "get_oflags FlagReadWrite fd = O_RDWR OR O_CREAT OR O_TRUNC"

record fd_data =
  fdd_data :: "byte list"
  fdd_encoding :: "capture_encoding option"

definition fd_data_empty :: fd_data where
  "fd_data_empty = \<lparr>fdd_data = [], fdd_encoding = None\<rparr>"

section \<open>Handlers\<close>

datatype fd_handler =
    HInherit
  | HError error
  | HClose raw_fd
  | HDup raw_fd raw_fd
  | HUnmanagedFile raw_fd string int int
  | HUnlinkedFile raw_fd raw_fd "capture_encoding option" bool
  | HCaptureMemory raw_fd raw_fd raw_fd "capture_encoding option" "byte list" bool
  | HPipeWrite raw_fd raw_fd
  | HPipeRead raw_fd raw_fd

definition new_unmanaged_file :: "raw_fd \<Rightarrow> string \<Rightarrow> open_flag \<Rightarrow> int \<Rightarrow> fd_handler" where
  "new_unmanaged_file fd path flags mode = HUnmanagedFile fd path (get_oflags flags fd) mode"

text \<open>Dropping a handler closes its temp file; a failure is logged.\<close>

fun fd_handler_drop :: "('k, 'z) kernel_scheme \<Rightarrow> fd_handler \<Rightarrow> 'k \<Rightarrow> 'k" where
  "fd_handler_drop K (HUnlinkedFile _ file_fd _ _) k = snd (close K file_fd k)"
| "fd_handler_drop K _ k = k"

definition PATH_DEV_NULL :: string where "PATH_DEV_NULL = ''/dev/null''"
definition PATH_TMP_TEMPLATE :: string where "PATH_TMP_TEMPLATE = ''/tmp/procstar-capture-XXXXXXXXXXXX''"

text \<open>\<open>std::fs::remove_file\<close>.\<close>

definition remove_file :: "('k, 'z) kernel_scheme \<Rightarrow> string \<Rightarrow> 'k \<Rightarrow> (unit, io_error) outcome \<times> 'k" where
  "remove_file K path k = (case libc_unlink K path k of (res, errno, k') \<Rightarrow>
     (if res = -1 then Err (OsError errno) else Ok (), k'))"

definition open_unlinked_temp_file ::
  "('k, 'z) kernel_scheme \<Rightarrow> raw_fd \<Rightarrow> capture_encoding option \<Rightarrow> bool \<Rightarrow> 'k \<Rightarrow> (fd_handler, error) outcome \<times> 'k" where
  "open_unlinked_temp_file K fd encoding attached =
     bind (lift_err ErrIo (mkstemp K PATH_TMP_TEMPLATE)) (\<lambda>(tmp_path, tmp_fd).
     bind (lift_err ErrIo (remove_file K tmp_path)) (\<lambda>_.
     ret (HUnlinkedFile fd tmp_fd encoding attached)))"

section \<open>Pipes between processes\<close>

type_synonym pipe_key = "proc_id \<times> raw_fd"
type_synonym pipes = "(pipe_key, raw_fd option rw_pair) btree"

text \<open>The operations on the pipes act on the pipes and the kernel together.\<close>

definition on_kernel :: "('k \<Rightarrow> ('a, 'e) outcome \<times> 'k) \<Rightarrow> 'p \<times> 'k \<Rightarrow> ('a, 'e) outcome \<times> 'p \<times> 'k" where
  "on_kernel m s = (case m (snd s) of (r, k) \<Rightarrow> (r, fst s, k))"

definition put_pipes :: "'p \<Rightarrow> 'p \<times> 'k \<Rightarrow> (unit, 'e) outcome \<times> 'p \<times> 'k" where
  "put_pipes p s = (Ok (), p, snd s)"

definition get_read_fd ::
  "('k, 'z) kernel_scheme \<Rightarrow> proc_id \<Rightarrow> raw_fd \<Rightarrow> pipes \<times> 'k \<Rightarrow> (raw_fd, error) outcome \<times> pipes \<times> 'k" where
  "get_read_fd K from_proc_id from_fd s =
     (let key = (from_proc_id, from_fd) in
      case bt_get (fst s) key of
        Some pair \<Rightarrow> (case rw_read pair of
            None \<Rightarrow> (Panic, s)
          | Some fd \<Rightarrow> (Ok fd, bt_insert key (pair\<lparr>rw_read := None\<rparr>) (fst s), snd s))
      | None \<Rightarrow>
          bind (on_kernel (lift_err ErrIo (pipe K))) (\<lambda>p.
          bind (put_pipes (bt_insert key \<lparr>rw_read = None, rw_write = Some (rw_write p)\<rparr> (fst s))) (\<lambda>_.
          ret (rw_read p))) s)"

definition get_write_fd ::
  "('k, 'z) kernel_scheme \<Rightarrow> proc_id \<Rightarrow> raw_fd \<Rightarrow> pipes \<times> 'k \<Rightarrow> (raw_fd, error) outcome \<times> pipes \<times> 'k" where
  "get_write_fd K proc_id fd s =
     (let key = (proc_id, fd) in
      case bt_get (fst s) key of
        Some pair \<Rightarrow> (case rw_write pair of
            None \<Rightarrow> (Panic, s)
          | Some w \<Rightarrow> (Ok w, bt_insert key (pair\<lparr>rw_write := None\<rparr>) (fst s), snd s))
      | None \<Rightarrow>
          bind (on_kernel (lift_err ErrIo (pipe K))) (\<lambda>p.
          bind (put_pipes (bt_insert key \<lparr>rw_read = Some (rw_read p), rw_write = None\<rparr> (fst s))) (\<lambda>_.
          ret (rw_write p))) s)"

text \<open>Closing what is left, in key order; the first failure returns with the rest open.\<close>

definition close_opt :: "('k, 'z) kernel_scheme \<Rightarrow> raw_fd option \<Rightarrow> nat \<Rightarrow> 'k \<Rightarrow> (nat, error) outcome \<times> 'k" where
  "close_opt K ofd n =
     (case ofd of None \<Rightarrow> ret n
      | Some fd \<Rightarrow> bind (lift_err ErrIo (close K fd)) (\<lambda>_. ret (n + 1)))"

fun pipes_close :: "('k, 'z) kernel_scheme \<Rightarrow> pipes \<Rightarrow> nat \<Rightarrow> 'k \<Rightarrow> (nat, error) outcome \<times> 'k" where
  "pipes_close K [] n = ret n"
| "pipes_close K ((_, pair) # rest) n =
     bind (close_opt K (rw_read pair) n) (\<lambda>n.
     bind (close_opt K (rw_write pair) n) (\<lambda>n.
     pipes_close K rest n))"

section \<open>Making a handler\<close>

fun fd_handler_new ::
  "('k, 'z) kernel_scheme \<Rightarrow> proc_id \<Rightarrow> raw_fd \<Rightarrow> fd_spec \<Rightarrow> pipes \<times> 'k \<Rightarrow> (fd_handler, error) outcome \<times> pipes \<times> 'k" where
  "fd_handler_new K proc_id fd FdInherit = ret HInherit"
| "fd_handler_new K proc_id fd FdClose = ret (HClose fd)"
| "fd_handler_new K proc_id fd (FdNull flags) = ret (new_unmanaged_file fd PATH_DEV_NULL flags 0)"
| "fd_handler_new K proc_id fd (FdDup dup_fd) = ret (HDup fd dup_fd)"
| "fd_handler_new K proc_id fd (FdFile path flags mode) = ret (new_unmanaged_file fd path flags mode)"
| "fd_handler_new K proc_id fd (FdCapture TempFile encoding attached) =
     on_kernel (open_unlinked_temp_file K fd encoding attached)"
| "fd_handler_new K proc_id fd (FdCapture Memory encoding attached) =
     bind (on_kernel (lift_err ErrIo (pipe K))) (\<lambda>p.
     ret (HCaptureMemory fd (rw_read p) (rw_write p) encoding [] attached))"
| "fd_handler_new K proc_id fd FdPipeWrite =
     bind (get_write_fd K proc_id fd) (\<lambda>w. ret (HPipeWrite fd w))"
| "fd_handler_new K proc_id fd (FdPipeRead from_proc_id from_fd) =
     bind (\<lambda>s. (map_err ErrSpec (parse_fd from_fd), s)) (\<lambda>n.
     bind (get_read_fd K from_proc_id n) (\<lambda>r. ret (HPipeRead fd r)))"

definition make_fd_handler ::
  "('k, 'z) kernel_scheme \<Rightarrow> proc_id \<Rightarrow> fd_name \<Rightarrow> fd_spec \<Rightarrow> pipes \<times> 'k \<Rightarrow>
     (raw_fd \<times> fd_handler, error) outcome \<times> pipes \<times> 'k" where
  "make_fd_handler K proc_id fd_str spec =
     bind (\<lambda>s. (unwrap (parse_fd fd_str), s)) (\<lambda>fd_num s.
       case fd_handler_new K proc_id fd_num spec s of
         (Ok handler, s') \<Rightarrow> (Ok (fd_num, handler), s')
       | (Err err, s') \<Rightarrow> (Ok (fd_num, HError err), s')
       | (Panic, s') \<Rightarrow> (Panic, s'))"

fun make_fd_handlers ::
  "('k, 'z) kernel_scheme \<Rightarrow> proc_id \<Rightarrow> (fd_name \<times> fd_spec) list \<Rightarrow> pipes \<times> 'k \<Rightarrow>
     ((raw_fd \<times> fd_handler) list, error) outcome \<times> pipes \<times> 'k" where
  "make_fd_handlers K proc_id [] = ret []"
| "make_fd_handlers K proc_id ((fd_str, fd_spec) # rest) =
     bind (make_fd_handler K proc_id fd_str fd_spec) (\<lambda>h.
     bind (make_fd_handlers K proc_id rest) (\<lambda>hs. ret (h # hs)))"

section \<open>The parent and the child\<close>

text \<open>
  In the parent: the pipe end the child uses is closed.  The result tells whether a task draining the
  capture pipe was started.
\<close>

fun in_parent :: "('k, 'z) kernel_scheme \<Rightarrow> fd_handler \<Rightarrow> 'k \<Rightarrow> (bool, error) outcome \<times> 'k" where
  "in_parent K (HCaptureMemory _ _ write_fd _ _ _) = bind (lift_err ErrIo (close K write_fd)) (\<lambda>_. ret True)"
| "in_parent K (HPipeWrite _ pipe_write_fd) = bind (lift_err ErrIo (close K pipe_write_fd)) (\<lambda>_. ret False)"
| "in_parent K (HPipeRead _ pipe_read_fd) = bind (lift_err ErrIo (close K pipe_read_fd)) (\<lambda>_. ret False)"
| "in_parent K _ = ret False"

text \<open>In the child, before the handler is dropped.\<close>

fun in_child_body :: "('k, 'z) kernel_scheme \<Rightarrow> fd_handler \<Rightarrow> 'k \<Rightarrow> (unit, error) outcome \<times> 'k" where
  "in_child_body K HInherit = ret ()"
| "in_child_body K (HError err) = fail err"
| "in_child_body K (HClose fd) = lift_err ErrIo (close K fd)"
| "in_child_body K (HDup fd dup_fd) = (if dup_fd \<noteq> fd then lift_err ErrIo (dup2 K dup_fd fd) else ret ())"
| "in_child_body K (HUnmanagedFile fd path oflags mode) =
     bind (lift_err ErrIo (sys_open K path oflags mode)) (\<lambda>file_fd.
       if file_fd \<noteq> fd then
         bind (lift_err ErrIo (dup2 K file_fd fd)) (\<lambda>_. lift_err ErrIo (close K file_fd))
       else ret ())"
| "in_child_body K (HUnlinkedFile fd file_fd _ _) =
     (if file_fd \<noteq> fd then lift_err ErrIo (dup2 K file_fd fd) else ret ())"
| "in_child_body K (HCaptureMemory fd read_fd write_fd _ _ _) =
     bind (lift_err ErrIo (close K read_fd)) (\<lambda>_.
     bind (lift_err ErrIo (dup2 K write_fd fd)) (\<lambda>_.
     lift_err ErrIo (close K write_fd)))"
| "in_child_body K (HPipeWrite fd pipe_write_fd) =
     bind (lift_err ErrIo (dup2 K pipe_write_fd fd)) (\<lambda>_. lift_err ErrIo (close K pipe_write_fd))"
| "in_child_body K (HPipeRead fd pipe_read_fd) =
     bind (lift_err ErrIo (dup2 K pipe_read_fd fd)) (\<lambda>_. lift_err ErrIo (close K pipe_read_fd))"

definition in_child :: "('k, 'z) kernel_scheme \<Rightarrow> fd_handler \<Rightarrow> 'k \<Rightarrow> (unit, error) outcome \<times> 'k" where
  "in_child K h k = (case in_child_body K h k of (r, k') \<Rightarrow> (r, fd_handler_drop K h k'))"

section \<open>Reading\<close>

text \<open>
  \<open>std::fs::File\<close>: a read that is interrupted is retried, \<open>read_exact\<close> fails at the end of the file,
  \<open>read_to_end\<close> reads pieces whose size the library chooses.  The loops take fuel, the number of
  \<open>read\<close> calls, and \<open>None\<close> is a loop that is still reading.
\<close>

record reading =
  rd_fuel :: nat
  rd_size :: "nat \<Rightarrow> nat"

definition std_read :: "('k, 'z) kernel_scheme \<Rightarrow> fd_t \<Rightarrow> nat \<Rightarrow> 'k \<Rightarrow> (byte list, io_error) outcome \<times> 'k" where
  "std_read K fd n k = (case libc_read K fd n k of (res, errno, data, k') \<Rightarrow>
     (if res = -1 then Err (OsError errno) else Ok data, k'))"

fun read_exact ::
  "nat \<Rightarrow> ('k, 'z) kernel_scheme \<Rightarrow> fd_t \<Rightarrow> nat \<Rightarrow> byte list \<Rightarrow> 'k \<Rightarrow> ((byte list, io_error) outcome \<times> 'k) option" where
  "read_exact fuel K fd want buf k =
     (if want = 0 then Some (Ok buf, k)
      else case fuel of
        0 \<Rightarrow> None
      | Suc f \<Rightarrow> (case std_read K fd want k of
            (Ok data, k') \<Rightarrow>
              if data = [] then Some (Err (CustomError UnexpectedEof ''failed to fill whole buffer''), k')
              else read_exact f K fd (want - length data) (buf @ data) k'
          | (Err e, k') \<Rightarrow> if io_kind_of e = Interrupted then read_exact f K fd want buf k' else Some (Err e, k')
          | (Panic, k') \<Rightarrow> Some (Panic, k')))"

fun read_to_end ::
  "nat \<Rightarrow> (nat \<Rightarrow> nat) \<Rightarrow> ('k, 'z) kernel_scheme \<Rightarrow> fd_t \<Rightarrow> byte list \<Rightarrow> 'k \<Rightarrow> ((byte list, io_error) outcome \<times> 'k) option" where
  "read_to_end 0 sz K fd buf k = None"
| "read_to_end (Suc f) sz K fd buf k =
     (case std_read K fd (sz (length buf)) k of
        (Ok data, k') \<Rightarrow> if data = [] then Some (Ok buf, k') else read_to_end f sz K fd (buf @ data) k'
      | (Err e, k') \<Rightarrow> if io_kind_of e = Interrupted then read_to_end f sz K fd buf k' else Some (Err e, k')
      | (Panic, k') \<Rightarrow> Some (Panic, k'))"

declare read_exact.simps [simp del]

definition std_seek :: "('k, 'z) kernel_scheme \<Rightarrow> fd_t \<Rightarrow> 64 word \<Rightarrow> 'k \<Rightarrow> (unit, io_error) outcome \<times> 'k" where
  "std_seek K fd start k = (case libc_lseek_set K fd (sint start) k of (res, errno, k') \<Rightarrow>
     (if res = -1 then Err (OsError errno) else Ok (), k'))"

text \<open>
  \<open>read_from_file\<close> owns the descriptor while it reads: an early return or a panic drops the file,
  which closes it.  A buffer of \<open>2 ^ 63\<close> bytes or more exceeds the capacity of a vector.
\<close>

definition read_from_file ::
  "reading \<Rightarrow> ('k, 'z) kernel_scheme \<Rightarrow> fd_t \<Rightarrow> 64 word \<Rightarrow> 64 word option \<Rightarrow> 'k \<Rightarrow>
     ((byte list, io_error) outcome \<times> 'k) option" where
  "read_from_file R K fd start stop k =
     (case std_seek K fd start k of
        (Ok _, k1) \<Rightarrow>
          (case (case stop of
                   Some stop \<Rightarrow>
                     let len = (if start \<le> stop then unat (stop - start) else 0) in
                     if 2 ^ 63 \<le> len then Some (Panic, k1) else read_exact (rd_fuel R) K fd len [] k1
                 | None \<Rightarrow> read_to_end (rd_fuel R) (rd_size R) K fd [] k1) of
             None \<Rightarrow> None
           | Some (Ok buf, k2) \<Rightarrow> Some (Ok buf, k2)
           | Some (Err e, k2) \<Rightarrow> Some (Err e, snd (close K fd k2))
           | Some (Panic, k2) \<Rightarrow> Some (Panic, snd (close K fd k2)))
      | (Err e, k1) \<Rightarrow> Some (Err e, snd (close K fd k1))
      | (Panic, k1) \<Rightarrow> Some (Panic, snd (close K fd k1)))"

text \<open>
  The capture task: the reads of the pipe, until an empty one (end of file) or an error; each nonempty
  read is appended to the handler's buffer.
\<close>

fun append_buf :: "byte list \<Rightarrow> fd_handler \<Rightarrow> (fd_handler, error) outcome" where
  "append_buf data (HCaptureMemory fd r w encoding buf attached) = Ok (HCaptureMemory fd r w encoding (buf @ data) attached)"
| "append_buf data _ = Panic"

fun run_capture_memory :: "(byte list, io_error) outcome list \<Rightarrow> fd_handler \<Rightarrow> (unit, error) outcome \<times> fd_handler" where
  "run_capture_memory [] h = (Ok (), h)"
| "run_capture_memory (r # rs) h =
     (case r of
        Ok data \<Rightarrow> if data = [] then (Ok (), h)
          else (case append_buf data h of Ok h' \<Rightarrow> run_capture_memory rs h' | Err e \<Rightarrow> (Err e, h) | Panic \<Rightarrow> (Panic, h))
      | Err e \<Rightarrow> (Err (ErrIo e), h)
      | Panic \<Rightarrow> (Panic, h))"

fun get_data ::
  "reading \<Rightarrow> ('k, 'z) kernel_scheme \<Rightarrow> fd_handler \<Rightarrow> 64 word \<Rightarrow> 64 word option \<Rightarrow> 'k \<Rightarrow>
     ((fd_data option, error) outcome \<times> 'k) option" where
  "get_data R K (HUnlinkedFile _ file_fd encoding _) start stop k =
     map_option (\<lambda>(r, k'). (map_err ErrIo (map_ok (\<lambda>d. Some \<lparr>fdd_data = d, fdd_encoding = encoding\<rparr>) r), k'))
       (read_from_file R K file_fd start stop k)"
| "get_data R K (HCaptureMemory _ _ _ encoding buf _) start stop k =
     (let stop = (case stop of Some s \<Rightarrow> unat s | None \<Rightarrow> length buf); start = unat start in
      Some (if start \<le> stop \<and> stop \<le> length buf
            then Ok (Some \<lparr>fdd_data = take (stop - start) (drop start buf), fdd_encoding = encoding\<rparr>)
            else Panic, k))"
| "get_data R K _ start stop k = Some (Ok None, k)"

fun get_result ::
  "(byte list \<Rightarrow> string) \<Rightarrow> reading \<Rightarrow> ('k, 'z) kernel_scheme \<Rightarrow> fd_handler \<Rightarrow> 'k \<Rightarrow>
     ((fd_res option, error) outcome \<times> 'k) option" where
  "get_result base64 R K (HUnlinkedFile _ file_fd encoding attached) k =
     (if attached then
        map_option (\<lambda>(r, k'). (map_err ErrIo (map_ok (\<lambda>d. Some (fd_res_from_bytes base64 encoding d)) r), k'))
          (read_from_file R K file_fd 0 None k)
      else Some (bind (lift_err ErrIo (get_file_length K file_fd)) (\<lambda>len. ret (Some (fd_res_detached len encoding))) k))"
| "get_result base64 R K (HCaptureMemory _ _ _ encoding buf attached) k =
     Some (Ok (Some (if attached then fd_res_from_bytes base64 encoding buf
                     else fd_res_detached (int (length buf)) encoding)), k)"
| "get_result base64 R K _ k = Some (Ok None, k)"

section \<open>Fd names\<close>

text \<open>
  Fd names and numbers: the name of any descriptor parses back to it, so the names under which fd
  results are reported are distinct for distinct descriptors and are accepted as fd specs.
\<close>

theorem fd_name_round_trip:
  assumes "in_i32 fd"
  shows "parse_fd (get_fd_name fd) = Ok fd"
proof -
  have "show_int fd \<noteq> s" if "s \<in> {''stdin'', ''stdout'', ''stderr''}" for s
  proof
    assume "show_int fd = s"
    with that have "CHR ''t'' \<in> set (show_int fd)" by auto
    then have "CHR ''t'' \<in> set (show_nat (nat (- fd))) \<union> set (show_nat (nat fd))"
      by (auto simp: show_int_def split: if_splits)
    then show False
      using show_nat_all_digits [of "nat (- fd)"] show_nat_all_digits [of "nat fd"]
      by (auto simp: digit_of_def)
  qed
  then show ?thesis
    using assms by (auto simp: get_fd_name_def parse_fd_def in_i32_def parse_int_show_int)
qed

theorem fd_name_round_trip_witness: "parse_fd (get_fd_name 2) = Ok 2 \<and> parse_fd (get_fd_name (-7)) = Ok (-7)"
  using fd_name_round_trip [of 2] fd_name_round_trip [of "-7"] by (simp add: in_i32_def)

section \<open>The two ends of a pipe\<close>

text \<open>
  \<open>W\<close> and \<open>R\<close> are the write and read ends asked for so far, \<open>po\<close> the pipe made for each.  An end
  is in the map as long as only the other one has been asked for.
\<close>

type_synonym end_set = "(proc_id \<times> raw_fd option) set"

definition lifted :: "pipe_key \<Rightarrow> proc_id \<times> raw_fd option" where
  "lifted key = (fst key, Some (snd key))"

definition pipes_ok :: "(pipe_key \<Rightarrow> raw_fd \<times> raw_fd) \<Rightarrow> end_set \<Rightarrow> end_set \<Rightarrow> pipes \<Rightarrow> bool" where
  "pipes_ok po W R p \<longleftrightarrow> bt_wf p \<and> (\<forall>key. bt_get p key =
     (if lifted key \<notin> W \<union> R then None
      else Some \<lparr>rw_read = (if lifted key \<in> R then None else Some (fst (po key))),
                 rw_write = (if lifted key \<in> W then None else Some (snd (po key)))\<rparr>))"

text \<open>The calls that make a handler never fail in an undocumented way, and pipes can be made.\<close>

definition pipes_made :: "('k, 'z) kernel_scheme \<Rightarrow> bool" where
  "pipes_made K \<longleftrightarrow> (\<forall>k. fst (libc_pipe K k) = 0) \<and> (\<forall>t k. -1 \<le> fst (libc_mkstemp K t k))"

lemma pipe_made:
  assumes "pipes_made K"
  obtains r w k' where "on_kernel (lift_err ErrIo (pipe K)) (p, k) = (Ok \<lparr>rw_read = r, rw_write = w\<rparr>, p, k')"
proof -
  obtain res e f k' where "libc_pipe K k = (res, e, f, k')" by (metis prod_cases4)
  moreover from this assms have "res = 0" unfolding pipes_made_def by (metis fst_conv)
  ultimately show thesis
    by (intro that [of "fst f" "snd f" k'])
      (simp add: on_kernel_def lift_err_def pipe_def check_ret_def)
qed

lemma get_write_fd_ok:
  assumes "pipes_made K" "pipes_ok po W R p" "(i, Some f) \<notin> W"
  shows "\<exists>po' p' k'. get_write_fd K i f (p, k) = (Ok (snd (po' (i, f))), p', k') \<and>
    pipes_ok po' (insert (i, Some f) W) R p' \<and> (\<forall>key. lifted key \<in> W \<union> R \<longrightarrow> po' key = po key)"
proof (cases "(i, Some f) \<in> R")
  case True
  with assms(2,3) have "bt_get p (i, f) = Some \<lparr>rw_read = None, rw_write = Some (snd (po (i, f)))\<rparr>"
    by (simp add: pipes_ok_def lifted_def)
  then have "get_write_fd K i f (p, k) = (Ok (snd (po (i, f))), bt_insert (i, f) \<lparr>rw_read = None, rw_write = None\<rparr> p, k)"
    by (simp add: get_write_fd_def Let_def)
  moreover have "pipes_ok po (insert (i, Some f) W) R (bt_insert (i, f) \<lparr>rw_read = None, rw_write = None\<rparr> p)"
    using assms(2) True by (auto simp: pipes_ok_def bt_get_insert bt_wf_insert lifted_def)
  ultimately show ?thesis by blast
next
  case False
  from assms(1) obtain r w k' where
      pipe: "on_kernel (lift_err ErrIo (pipe K)) (p, k) = (Ok \<lparr>rw_read = r, rw_write = w\<rparr>, p, k')"
    by (rule pipe_made)
  from False assms(2,3) have "bt_get p (i, f) = None" by (simp add: pipes_ok_def lifted_def)
  with pipe have "get_write_fd K i f (p, k) = (Ok w, bt_insert (i, f) \<lparr>rw_read = Some r, rw_write = None\<rparr> p, k')"
    by (simp add: get_write_fd_def put_pipes_def)
  moreover have "pipes_ok (po((i, f) := (r, w))) (insert (i, Some f) W) R (bt_insert (i, f) \<lparr>rw_read = Some r, rw_write = None\<rparr> p)"
    using assms(2,3) False by (auto simp: pipes_ok_def bt_get_insert bt_wf_insert lifted_def)
  moreover have "\<forall>key. lifted key \<in> W \<union> R \<longrightarrow> (po((i, f) := (r, w))) key = po key"
    using assms(3) False by (auto simp: lifted_def)
  ultimately show ?thesis by (intro exI [of _ "po((i, f) := (r, w))"]) auto
qed

lemma get_read_fd_ok:
  assumes "pipes_made K" "pipes_ok po W R p" "(i, Some f) \<notin> R"
  shows "\<exists>po' p' k'. get_read_fd K i f (p, k) = (Ok (fst (po' (i, f))), p', k') \<and>
    pipes_ok po' W (insert (i, Some f) R) p' \<and> (\<forall>key. lifted key \<in> W \<union> R \<longrightarrow> po' key = po key)"
proof (cases "(i, Some f) \<in> W")
  case True
  with assms(2,3) have "bt_get p (i, f) = Some \<lparr>rw_read = Some (fst (po (i, f))), rw_write = None\<rparr>"
    by (simp add: pipes_ok_def lifted_def)
  then have "get_read_fd K i f (p, k) = (Ok (fst (po (i, f))), bt_insert (i, f) \<lparr>rw_read = None, rw_write = None\<rparr> p, k)"
    by (simp add: get_read_fd_def Let_def)
  moreover have "pipes_ok po W (insert (i, Some f) R) (bt_insert (i, f) \<lparr>rw_read = None, rw_write = None\<rparr> p)"
    using assms(2) True by (auto simp: pipes_ok_def bt_get_insert bt_wf_insert lifted_def)
  ultimately show ?thesis by blast
next
  case False
  from assms(1) obtain r w k' where
      pipe: "on_kernel (lift_err ErrIo (pipe K)) (p, k) = (Ok \<lparr>rw_read = r, rw_write = w\<rparr>, p, k')"
    by (rule pipe_made)
  from False assms(2,3) have "bt_get p (i, f) = None" by (simp add: pipes_ok_def lifted_def)
  with pipe have "get_read_fd K i f (p, k) = (Ok r, bt_insert (i, f) \<lparr>rw_read = None, rw_write = Some w\<rparr> p, k')"
    by (simp add: get_read_fd_def put_pipes_def)
  moreover have "pipes_ok (po((i, f) := (r, w))) W (insert (i, Some f) R) (bt_insert (i, f) \<lparr>rw_read = None, rw_write = Some w\<rparr> p)"
    using assms(2,3) False by (auto simp: pipes_ok_def bt_get_insert bt_wf_insert lifted_def)
  moreover have "\<forall>key. lifted key \<in> W \<union> R \<longrightarrow> (po((i, f) := (r, w))) key = po key"
    using assms(3) False by (auto simp: lifted_def)
  ultimately show ?thesis by (intro exI [of _ "po((i, f) := (r, w))"]) auto
qed

text \<open>What a handler made for a pipe end holds.\<close>

fun handler_connected :: "(pipe_key \<Rightarrow> raw_fd \<times> raw_fd) \<Rightarrow> proc_id \<Rightarrow> fd_name \<times> fd_spec \<Rightarrow> raw_fd \<times> fd_handler \<Rightarrow> bool" where
  "handler_connected po i (n, FdPipeWrite) h \<longleftrightarrow> snd h = HPipeWrite (fst h) (snd (po (i, fst h)))"
| "handler_connected po i (n, FdPipeRead q m) h \<longleftrightarrow>
     (\<exists>fd. parse_fd m = Ok fd \<and> snd h = HPipeRead (fst h) (fst (po (q, fd))))"
| "handler_connected po i (n, _) h \<longleftrightarrow> True"

definition write_set :: "proc_id \<Rightarrow> (fd_name \<times> fd_spec) list \<Rightarrow> end_set" where
  "write_set i xs = set (fds_write_ends i xs)"

definition read_set :: "(fd_name \<times> fd_spec) list \<Rightarrow> end_set" where
  "read_set xs = set (fds_read_ends xs)"

text \<open>One handler: the ends it asks for are added, and what was connected stays connected.\<close>

definition same_pipes :: "end_set \<Rightarrow> (pipe_key \<Rightarrow> raw_fd \<times> raw_fd) \<Rightarrow> (pipe_key \<Rightarrow> raw_fd \<times> raw_fd) \<Rightarrow> bool" where
  "same_pipes E po po' \<longleftrightarrow> (\<forall>key. lifted key \<in> E \<longrightarrow> po' key = po key)"

lemma same_pipes_refl [simp]: "same_pipes E po po"
  by (simp add: same_pipes_def)

lemma same_pipes_trans:
  "same_pipes E po po' \<Longrightarrow> same_pipes E' po' po'' \<Longrightarrow> E \<subseteq> E' \<Longrightarrow> same_pipes E po po''"
  by (auto simp: same_pipes_def)

lemma fd_handler_new_other:
  assumes "pipes_made K" "spec \<noteq> FdPipeWrite" "\<And>q m. spec \<noteq> FdPipeRead q m"
  shows "\<exists>r k'. fd_handler_new K i fd spec (p, k) = (r, p, k') \<and> r \<noteq> Panic"
proof -
  have t: "\<exists>r k'. on_kernel (open_unlinked_temp_file K fd enc att) (p, k) = (r, p, k') \<and> r \<noteq> Panic" for enc att
  proof -
    obtain res e path k1 where m: "libc_mkstemp K PATH_TMP_TEMPLATE k = (res, e, path, k1)"
      by (metis prod_cases4)
    have "-1 \<le> res" using assms(1) m unfolding pipes_made_def by (metis fst_conv)
    then have "-1 \<noteq> res \<Longrightarrow> 0 \<le> res" by simp
    moreover have "CHR 0x00 \<notin> set PATH_TMP_TEMPLATE" by (simp add: PATH_TMP_TEMPLATE_def)
    moreover obtain ur ue k2 where "libc_unlink K path k1 = (ur, ue, k2)" by (metis prod_cases3)
    ultimately show ?thesis using m
      by (auto simp: on_kernel_def open_unlinked_temp_file_def bind_def lift_err_def mkstemp_def
          cstring_new_def check_ret_def remove_file_def)
  qed
  from assms(1) obtain r w k' where
      pipe: "on_kernel (lift_err ErrIo (pipe K)) (p, k) = (Ok \<lparr>rw_read = r, rw_write = w\<rparr>, p, k')"
    by (rule pipe_made)
  show ?thesis
  proof (cases spec)
    case (FdCapture mode enc att)
    with t pipe show ?thesis by (cases mode) simp_all
  qed (use assms(2,3) in simp_all)
qed

definition spec_writes :: "proc_id \<Rightarrow> fd_name \<times> fd_spec \<Rightarrow> end_set" where
  "spec_writes i x = (if snd x = FdPipeWrite then {(i, fd_num (fst x))} else {})"

lemma make_fd_handler_ok:
  assumes "pipes_made K" "pipes_ok po W R p" "parse_fd n = Ok fd"
    and "spec_writes i (n, spec) \<inter> W = {}" "set (read_end spec) \<inter> R = {}" "None \<notin> snd ` set (read_end spec)"
  shows "\<exists>h po' p' k'. make_fd_handler K i n spec (p, k) = (Ok (fd, h), p', k') \<and>
    pipes_ok po' (spec_writes i (n, spec) \<union> W) (set (read_end spec) \<union> R) p' \<and>
    same_pipes (W \<union> R) po po' \<and> handler_connected po' i (n, spec) (fd, h)"
proof -
  have fd: "fd_num n = Some fd" using assms(3) by (simp add: fd_num_Some)
  consider "spec = FdPipeWrite" | q m where "spec = FdPipeRead q m"
    | "spec \<noteq> FdPipeWrite" "\<And>q m. spec \<noteq> FdPipeRead q m" by blast
  then show ?thesis
  proof cases
    case 1
    with assms(4) fd have "(i, Some fd) \<notin> W" by (simp add: spec_writes_def)
    from get_write_fd_ok [OF assms(1,2) this, of k] obtain po' p' k' where
        "get_write_fd K i fd (p, k) = (Ok (snd (po' (i, fd))), p', k')"
        "pipes_ok po' (insert (i, Some fd) W) R p'" "\<forall>key. lifted key \<in> W \<union> R \<longrightarrow> po' key = po key"
      by blast
    with 1 assms(3) fd show ?thesis
      by (intro exI [of _ "HPipeWrite fd (snd (po' (i, fd)))"] exI [of _ po'] exI [of _ p'] exI [of _ k'])
        (simp add: make_fd_handler_def spec_writes_def same_pipes_def)
  next
    case 2
    with assms(6) obtain f where m: "fd_num m = Some f" by (cases "fd_num m") auto
    with 2 assms(5) have "(q, Some f) \<notin> R" by simp
    from get_read_fd_ok [OF assms(1,2) this, of k] obtain po' p' k' where
        "get_read_fd K q f (p, k) = (Ok (fst (po' (q, f))), p', k')"
        "pipes_ok po' W (insert (q, Some f) R) p'" "\<forall>key. lifted key \<in> W \<union> R \<longrightarrow> po' key = po key"
      by blast
    moreover have "parse_fd m = Ok f" using m by (simp add: fd_num_Some)
    ultimately show ?thesis using 2 m assms(3) fd
      by (intro exI [of _ "HPipeRead fd (fst (po' (q, f)))"] exI [of _ po'] exI [of _ p'] exI [of _ k'])
        (simp add: make_fd_handler_def spec_writes_def same_pipes_def)
  next
    case 3
    then obtain r k' where r: "fd_handler_new K i fd spec (p, k) = (r, p, k')" "r \<noteq> Panic"
      using fd_handler_new_other [OF assms(1), of spec i fd p k] by blast
    have c: "handler_connected po i (n, spec) h" for h using 3 by (cases spec) auto
    have e: "read_end spec = []" using 3 by (cases spec) auto
    from r 3(1) assms(2,3) c e show ?thesis
      by (intro exI [of _ "case r of Ok h \<Rightarrow> h | Err err \<Rightarrow> HError err"] exI [of _ po] exI [of _ p] exI [of _ k'])
        (cases r; simp add: make_fd_handler_def spec_writes_def)
  qed
qed

lemma handler_connected_same:
  assumes "handler_connected po i x h" "same_pipes E po po'" "parse_fd (fst x) = Ok (fst h)"
    and "spec_writes i x \<union> set (read_end (snd x)) \<subseteq> E"
  shows "handler_connected po' i x h"
proof -
  obtain n spec where x: "x = (n, spec)" by (cases x)
  consider "spec = FdPipeWrite" | q m where "spec = FdPipeRead q m"
    | "spec \<noteq> FdPipeWrite" "\<And>q m. spec \<noteq> FdPipeRead q m" by blast
  then show ?thesis
  proof cases
    case 1
    have "fd_num n = Some (fst h)" using assms(3) x by (simp add: fd_num_Some)
    then have "lifted (i, fst h) \<in> E" using assms(4) x 1 by (simp add: spec_writes_def lifted_def)
    with assms(1,2) x 1 show ?thesis by (simp add: same_pipes_def)
  next
    case 2
    with assms(1) x obtain fd where fd: "parse_fd m = Ok fd" "snd h = HPipeRead (fst h) (fst (po (q, fd)))"
      by auto
    then have "lifted (q, fd) \<in> E" using assms(4) x 2 by (simp add: lifted_def fd_num_Some [symmetric])
    with assms(2) x 2 fd show ?thesis by (simp add: same_pipes_def)
  next
    case 3
    with x show ?thesis by (cases spec) auto
  qed
qed

lemma write_set_Cons: "write_set i (x # xs) = spec_writes i x \<union> write_set i xs"
  by (auto simp: write_set_def fds_write_ends_def spec_writes_def)

lemma read_set_Cons: "read_set (x # xs) = set (read_end (snd x)) \<union> read_set xs"
  by (simp add: read_set_def fds_read_ends_def)

lemma make_fd_handlers_ok:
  assumes "pipes_made K" "pipes_ok po W R p" "fds_distinct xs" "write_set i xs \<inter> W = {}"
    and "distinct (fds_read_ends xs)" "read_set xs \<inter> R = {}" "None \<notin> snd ` read_set xs"
  shows "\<exists>hs po' p' k'. make_fd_handlers K i xs (p, k) = (Ok hs, p', k') \<and>
    pipes_ok po' (write_set i xs \<union> W) (read_set xs \<union> R) p' \<and> same_pipes (W \<union> R) po po' \<and>
    list_all2 (\<lambda>x h. handler_connected po' i x h \<and> parse_fd (fst x) = Ok (fst h)) xs hs"
  using assms
proof (induction xs arbitrary: po W R p k)
  case Nil
  then show ?case
    by (intro exI [of _ "[]"] exI [of _ po] exI [of _ p] exI [of _ k])
      (simp add: write_set_def fds_write_ends_def read_set_def fds_read_ends_def)
next
  case (Cons x xs)
  obtain n spec where x: "x = (n, spec)" by (cases x)
  from Cons.prems(3) obtain fd where fd: "fd_num n = Some fd" and d: "fds_distinct xs"
      and new: "Some fd \<notin> set (map (fd_num \<circ> fst) xs)"
    by (cases "fd_num n") (auto simp: fds_distinct_def x)
  then have p: "parse_fd n = Ok fd" by (simp add: fd_num_Some)
  have w: "spec_writes i x \<inter> write_set i xs = {}"
    using new fd x by (auto simp: spec_writes_def write_set_def fds_write_ends_def)
  have r: "set (read_end spec) \<inter> read_set xs = {}" "distinct (fds_read_ends xs)"
    using Cons.prems(5) x by (auto simp: read_set_def fds_read_ends_def)
  have "\<exists>h po1 p1 k1. make_fd_handler K i n spec (p, k) = (Ok (fd, h), p1, k1) \<and>
      pipes_ok po1 (spec_writes i (n, spec) \<union> W) (set (read_end spec) \<union> R) p1 \<and>
      same_pipes (W \<union> R) po po1 \<and> handler_connected po1 i (n, spec) (fd, h)"
    using Cons.prems x by (intro make_fd_handler_ok [OF Cons.prems(1,2) p]) (auto simp: write_set_Cons read_set_Cons)
  then obtain h po1 p1 k1 where 1: "make_fd_handler K i n spec (p, k) = (Ok (fd, h), p1, k1)"
      "pipes_ok po1 (spec_writes i x \<union> W) (set (read_end spec) \<union> R) p1"
      "same_pipes (W \<union> R) po po1" "handler_connected po1 i x (fd, h)"
    unfolding x by blast
  have "\<exists>hs po' p' k'. make_fd_handlers K i xs (p1, k1) = (Ok hs, p', k') \<and>
      pipes_ok po' (write_set i xs \<union> (spec_writes i x \<union> W)) (read_set xs \<union> (set (read_end spec) \<union> R)) p' \<and>
      same_pipes ((spec_writes i x \<union> W) \<union> (set (read_end spec) \<union> R)) po1 po' \<and>
      list_all2 (\<lambda>x h. handler_connected po' i x h \<and> parse_fd (fst x) = Ok (fst h)) xs hs"
    using Cons.prems w r x d by (intro Cons.IH 1(2)) (auto simp: write_set_Cons read_set_Cons)
  then obtain hs po' p' k' where 2: "make_fd_handlers K i xs (p1, k1) = (Ok hs, p', k')"
      "pipes_ok po' (write_set i xs \<union> (spec_writes i x \<union> W)) (read_set xs \<union> (set (read_end spec) \<union> R)) p'"
      "same_pipes ((spec_writes i x \<union> W) \<union> (set (read_end spec) \<union> R)) po1 po'"
      "list_all2 (\<lambda>x h. handler_connected po' i x h \<and> parse_fd (fst x) = Ok (fst h)) xs hs"
    by blast
  have "handler_connected po' i x (fd, h)"
    using 1(4) 2(3) by (rule handler_connected_same) (auto simp: x p)
  moreover have "same_pipes (W \<union> R) po po'"
    using 1(3) 2(3) by (rule same_pipes_trans) auto
  moreover have "write_set i xs \<union> (spec_writes i x \<union> W) = write_set i (x # xs) \<union> W"
    "read_set xs \<union> (set (read_end spec) \<union> R) = read_set (x # xs) \<union> R"
    by (auto simp: write_set_Cons read_set_Cons x)
  ultimately show ?case
    using 1(1) 2 x p by (intro exI [of _ "(fd, h) # hs"] exI [of _ po'] exI [of _ p'] exI [of _ k']) simp
qed

text \<open>When both ends of every pipe have been asked for, nothing is left to close.\<close>

lemma pipes_close_none:
  "\<forall>e \<in> set p. rw_read (snd e) = None \<and> rw_write (snd e) = None \<Longrightarrow> pipes_close K p n k = (Ok n, k)"
proof (induction p)
  case (Cons e p)
  then show ?case by (cases e) (simp add: close_opt_def)
qed simp

lemma pipes_close_used:
  assumes "pipes_ok po W W p"
  shows "pipes_close K p n k = (Ok n, k)"
proof (rule pipes_close_none, rule ballI)
  fix e assume e: "e \<in> set p"
  obtain i f pair where p: "e = ((i, f), pair)" by (metis prod.collapse)
  have "bt_wf p" using assms by (simp add: pipes_ok_def)
  with e p have "bt_get p (i, f) = Some pair" by (simp add: bt_get_in_set)
  moreover have "bt_get p (i, f) = (if lifted (i, f) \<notin> W then None else Some \<lparr>rw_read = None, rw_write = None\<rparr>)"
    using assms by (simp add: pipes_ok_def)
  ultimately show "rw_read (snd e) = None \<and> rw_write (snd e) = None"
    using p by (auto split: if_splits)
qed

section \<open>The child's descriptor table\<close>

text \<open>
  What the C library documents of \<open>close\<close>, \<open>dup2\<close> and \<open>open\<close> for a descriptor table \<open>tbl\<close>, whose open
  entries are open file descriptions; \<open>file\<close> is the description a path opens with given flags.
\<close>

definition posix_fds ::
  "('k, 'z) kernel_scheme \<Rightarrow> ('k \<Rightarrow> fd_t \<rightharpoonup> 'd) \<Rightarrow> (string \<Rightarrow> int \<Rightarrow> 'd) \<Rightarrow> bool" where
  "posix_fds K tbl file \<longleftrightarrow>
     (\<forall>k fd. tbl k fd \<noteq> None \<longrightarrow> (\<exists>e k'. libc_close K fd k = (0, e, k') \<and> tbl k' = (tbl k)(fd := None))) \<and>
     (\<forall>k a b. tbl k a \<noteq> None \<longrightarrow> 0 \<le> b \<longrightarrow> (\<exists>e k'. libc_dup2 K a b k = (b, e, k') \<and> tbl k' = (tbl k)(b := tbl k a))) \<and>
     (\<forall>k p fl m. \<exists>n e k'. libc_open K p fl m k = (n, e, k') \<and> 0 \<le> n \<and> tbl k n = None \<and> tbl k' = (tbl k)(n \<mapsto> file p fl))"

text \<open>What a handler means for the table: the abstract effect, and when it is ready to take it.\<close>

definition move_fd :: "fd_t \<Rightarrow> fd_t \<Rightarrow> (fd_t \<rightharpoonup> 'd) \<Rightarrow> fd_t \<rightharpoonup> 'd" where
  "move_fd a b t = (if a = b then t(b := None) else t(b := t a, a := None))"

fun attach :: "(string \<Rightarrow> int \<Rightarrow> 'd) \<Rightarrow> fd_handler \<Rightarrow> (fd_t \<rightharpoonup> 'd) \<Rightarrow> fd_t \<rightharpoonup> 'd" where
  "attach file HInherit t = t"
| "attach file (HError _) t = t"
| "attach file (HClose fd) t = t(fd := None)"
| "attach file (HDup fd dup_fd) t = t(fd := t dup_fd)"
| "attach file (HUnmanagedFile fd path oflags mode) t = t(fd \<mapsto> file path oflags)"
| "attach file (HUnlinkedFile fd file_fd _ _) t = move_fd file_fd fd t"
| "attach file (HCaptureMemory fd r w _ _ _) t = move_fd w fd (t(r := None))"
| "attach file (HPipeWrite fd w) t = move_fd w fd t"
| "attach file (HPipeRead fd r) t = move_fd r fd t"

fun ready :: "fd_handler \<Rightarrow> (fd_t \<rightharpoonup> 'd) \<Rightarrow> bool" where
  "ready HInherit t = True"
| "ready (HError _) t = False"
| "ready (HClose fd) t = (t fd \<noteq> None)"
| "ready (HDup fd dup_fd) t = (0 \<le> fd \<and> t dup_fd \<noteq> None)"
| "ready (HUnmanagedFile fd path oflags mode) t = (0 \<le> fd \<and> CHR 0x00 \<notin> set path)"
| "ready (HUnlinkedFile fd file_fd _ _) t = (0 \<le> fd \<and> t file_fd \<noteq> None)"
| "ready (HCaptureMemory fd r w _ _ _) t = (0 \<le> fd \<and> t r \<noteq> None \<and> t w \<noteq> None \<and> r \<noteq> w)"
| "ready (HPipeWrite fd w) t = (0 \<le> fd \<and> t w \<noteq> None)"
| "ready (HPipeRead fd r) t = (0 \<le> fd \<and> t r \<noteq> None)"

lemma close_posix:
  assumes "posix_fds K tbl file" "tbl k fd \<noteq> None"
  obtains k' where "close K fd k = (Ok (), k')" "tbl k' = (tbl k)(fd := None)"
proof -
  from assms obtain e k' where "libc_close K fd k = (0, e, k')" "tbl k' = (tbl k)(fd := None)"
    unfolding posix_fds_def by blast
  then show thesis by (intro that [of k']) (simp_all add: close_def check_ret_def)
qed

lemma dup2_posix:
  assumes "posix_fds K tbl file" "tbl k a \<noteq> None" "0 \<le> b"
  obtains k' where "dup2 K a b k = (Ok (), k')" "tbl k' = (tbl k)(b := tbl k a)"
proof -
  from assms obtain e k' where "libc_dup2 K a b k = (b, e, k')" "tbl k' = (tbl k)(b := tbl k a)"
    unfolding posix_fds_def by blast
  with assms(3) show thesis by (intro that [of k']) (simp_all add: dup2_def check_ret_def)
qed

lemma open_posix:
  assumes "posix_fds K tbl file" "CHR 0x00 \<notin> set path"
  obtains n k' where "sys_open K path oflags mode k = (Ok n, k')" "0 \<le> n" "tbl k n = None"
    "tbl k' = (tbl k)(n \<mapsto> file path oflags)"
proof -
  from assms obtain n e k' where "libc_open K path oflags mode k = (n, e, k')" "0 \<le> n" "tbl k n = None"
      "tbl k' = (tbl k)(n \<mapsto> file path oflags)"
    unfolding posix_fds_def by blast
  with assms(2) show thesis
    by (intro that [of n k']) (simp_all add: sys_open_def cstring_new_def check_ret_def)
qed

lemma move_posix:
  assumes "posix_fds K tbl file" "tbl k a \<noteq> None" "0 \<le> b"
  shows "\<exists>k'. bind (lift_err ErrIo (dup2 K a b)) (\<lambda>_. lift_err ErrIo (close K a)) k = (Ok (), k') \<and>
    tbl k' = move_fd a b (tbl k)"
proof -
  obtain k1 where 1: "dup2 K a b k = (Ok (), k1)" "tbl k1 = (tbl k)(b := tbl k a)"
    using assms by (rule dup2_posix)
  have "tbl k1 a \<noteq> None" using assms(2) 1(2) by simp
  with assms(1) obtain k2 where 2: "close K a k1 = (Ok (), k2)" "tbl k2 = (tbl k1)(a := None)"
    by (rule close_posix)
  from 1 2 show ?thesis by (intro exI [of _ k2]) (auto simp: bind_def lift_err_def move_fd_def)
qed

lemma attach_unmanaged:
  assumes "posix_fds K tbl file" "ready h (tbl k)" "h = HUnmanagedFile fd path oflags mode"
  shows "\<exists>k'. in_child K h k = (Ok (), k') \<and> tbl k' = attach file h (tbl k)"
proof -
  from assms(2,3) have p: "CHR 0x00 \<notin> set path" "0 \<le> fd" by simp_all
  from assms(1) p(1) obtain n k1 where 1: "sys_open K path oflags mode k = (Ok n, k1)" "0 \<le> n" "tbl k n = None"
      "tbl k1 = (tbl k)(n \<mapsto> file path oflags)"
    by (rule open_posix)
  show ?thesis
  proof (cases "n = fd")
    case True
    with 1 assms(3) show ?thesis by (simp add: in_child_def)
  next
    case False
    from 1 have "tbl k1 n \<noteq> None" by simp
    from move_posix [OF assms(1) this p(2)] obtain k2 where
        "bind (lift_err ErrIo (dup2 K n fd)) (\<lambda>_. lift_err ErrIo (close K n)) k1 = (Ok (), k2)"
        "tbl k2 = move_fd n fd (tbl k1)" by blast
    with 1 False assms(3) show ?thesis
      by (intro exI [of _ k2]) (auto simp: in_child_def move_fd_def fun_eq_iff)
  qed
qed

lemma attach_unlinked:
  assumes "posix_fds K tbl file" "ready h (tbl k)" "h = HUnlinkedFile fd file_fd enc att"
  shows "\<exists>k'. in_child K h k = (Ok (), k') \<and> tbl k' = attach file h (tbl k)"
proof -
  from assms(2,3) have f: "tbl k file_fd \<noteq> None" "0 \<le> fd" by simp_all
  show ?thesis
  proof (cases "file_fd = fd")
    case True
    from assms(1) f(1) obtain k1 where "close K file_fd k = (Ok (), k1)" "tbl k1 = (tbl k)(file_fd := None)"
      by (rule close_posix)
    with assms(3) True show ?thesis by (simp add: in_child_def move_fd_def)
  next
    case False
    obtain k1 where 1: "dup2 K file_fd fd k = (Ok (), k1)" "tbl k1 = (tbl k)(fd := tbl k file_fd)"
      using assms(1) f by (rule dup2_posix)
    have "tbl k1 file_fd \<noteq> None" using f 1 by simp
    with assms(1) obtain k2 where "close K file_fd k1 = (Ok (), k2)" "tbl k2 = (tbl k1)(file_fd := None)"
      by (rule close_posix)
    with 1 False assms(3) show ?thesis by (simp add: in_child_def move_fd_def)
  qed
qed

lemma attach_memory:
  assumes "posix_fds K tbl file" "ready h (tbl k)" "h = HCaptureMemory fd r w enc buf att"
  shows "\<exists>k'. in_child K h k = (Ok (), k') \<and> tbl k' = attach file h (tbl k)"
proof -
  from assms(2,3) have f: "tbl k r \<noteq> None" "tbl k w \<noteq> None" "r \<noteq> w" "0 \<le> fd" by simp_all
  from assms(1) f(1) obtain k1 where 1: "close K r k = (Ok (), k1)" "tbl k1 = (tbl k)(r := None)"
    by (rule close_posix)
  have "tbl k1 w \<noteq> None" using f 1 by simp
  from move_posix [OF assms(1) this f(4)] obtain k2 where
      "bind (lift_err ErrIo (dup2 K w fd)) (\<lambda>_. lift_err ErrIo (close K w)) k1 = (Ok (), k2)"
      "tbl k2 = move_fd w fd (tbl k1)" by blast
  with 1 assms(3) show ?thesis by (intro exI [of _ k2]) (simp add: in_child_def)
qed

text \<open>
  C9 In the child every handler that is ready does exactly its abstract effect on the descriptor table:
  it succeeds, attaches what it should to its fd, and closes the descriptor it came from.  When the two
  are the same number, the pipe or temp file is closed instead of attached.
\<close>

theorem in_child_attach:
  assumes "posix_fds K tbl file" "ready h (tbl k)"
  shows "\<exists>k'. in_child K h k = (Ok (), k') \<and> tbl k' = attach file h (tbl k)"
proof (cases h)
  case (HClose fd)
  with assms obtain k1 where "close K fd k = (Ok (), k1)" "tbl k1 = (tbl k)(fd := None)"
    by (auto elim: close_posix)
  with HClose show ?thesis by (simp add: in_child_def)
next
  case (HDup fd dup_fd)
  show ?thesis
  proof (cases "dup_fd = fd")
    case True
    with HDup show ?thesis by (simp add: in_child_def)
  next
    case False
    from assms HDup obtain k1 where "dup2 K dup_fd fd k = (Ok (), k1)" "tbl k1 = (tbl k)(fd := tbl k dup_fd)"
      by (auto elim: dup2_posix)
    with HDup False show ?thesis by (simp add: in_child_def)
  qed
next
  case (HUnmanagedFile fd path oflags mode)
  with assms show ?thesis by (rule attach_unmanaged)
next
  case (HUnlinkedFile fd file_fd enc att)
  with assms show ?thesis by (rule attach_unlinked)
next
  case (HCaptureMemory fd r w enc buf att)
  with assms show ?thesis by (rule attach_memory)
next
  case (HPipeWrite fd w)
  with assms(2) move_posix [OF assms(1), of k w fd] show ?thesis by (auto simp: in_child_def)
next
  case (HPipeRead fd r)
  with assms(2) move_posix [OF assms(1), of k r fd] show ?thesis by (auto simp: in_child_def)
qed (use assms(2) in \<open>simp_all add: in_child_def\<close>)

text \<open>A kernel that is only a descriptor table, for which these laws hold: \<open>'k\<close> is the table itself.\<close>

definition null_kernel :: "'k kernel" where
  "null_kernel = \<lparr>libc_close = (\<lambda>_ k. (-1, 9, k)), libc_dup2 = (\<lambda>_ _ k. (-1, 9, k)),
     libc_open = (\<lambda>_ _ _ k. (-1, 2, k)), libc_mkstemp = (\<lambda>t k. (-1, 2, t, k)), libc_unlink = (\<lambda>_ k. (-1, 2, k)),
     libc_pipe = (\<lambda>k. (-1, 24, (0, 0), k)), libc_read = (\<lambda>_ _ k. (-1, 9, [], k)),
     libc_write = (\<lambda>_ _ k. (-1, 9, k)), libc_lseek_set = (\<lambda>_ _ k. (-1, 9, k)),
     libc_fstat_size = (\<lambda>_ k. (-1, 9, 0, k)), libc_fcntl_getfd = (\<lambda>_ k. (-1, 9, k)),
     libc_fcntl_setfd = (\<lambda>_ _ k. (-1, 9, k)), libc_fork = (\<lambda>k. (-1, 11, k)), libc_setsid = (\<lambda>k. (-1, 1, k)),
     libc_execve = (\<lambda>_ _ _ k. (-1, 2, k)), libc_kill = (\<lambda>_ _ k. (-1, 3, k)),
     libc_wait4 = (\<lambda>_ _ k. (-1, 10, (0, \<lparr>ru_utime = \<lparr>tv_sec = 0, tv_usec = 0\<rparr>, ru_stime = \<lparr>tv_sec = 0, tv_usec = 0\<rparr>,
        ru_maxrss = 0, ru_minflt = 0, ru_majflt = 0, ru_nswap = 0, ru_inblock = 0, ru_oublock = 0,
        ru_nvcsw = 0, ru_nivcsw = 0\<rparr>), k)),
     libc_sysconf_clk_tck = (\<lambda>k. (100, 0, k))\<rparr>"

text \<open>The table is a list of entries; a new descriptor is one above the largest.\<close>

definition table_kernel :: "(fd_t \<times> string) list kernel" where
  "table_kernel = null_kernel
     \<lparr>libc_close := (\<lambda>fd k. if map_of k fd = None then (-1, 9, k) else (0, 0, filter (\<lambda>e. fst e \<noteq> fd) k)),
      libc_dup2 := (\<lambda>a b k. case map_of k a of None \<Rightarrow> (-1, 9, k) | Some d \<Rightarrow> (b, 0, (b, d) # k)),
      libc_open := (\<lambda>p fl m k. let n = Max (insert 0 (fst ` set k)) + 1 in (n, 0, (n, p) # k))\<rparr>"

lemma table_kernel_posix: "posix_fds table_kernel map_of (\<lambda>p _. p)"
proof -
  have "map_of (filter (\<lambda>e. fst e \<noteq> fd) k) = (map_of k)(fd := None)" for fd and k :: "(fd_t \<times> string) list"
    by (induction k) auto
  moreover have "map_of k (Max (insert 0 (fst ` set k)) + 1) = None" for k :: "(fd_t \<times> string) list"
  proof (rule ccontr)
    assume "map_of k (Max (insert 0 (fst ` set k)) + 1) \<noteq> None"
    then have "Max (insert 0 (fst ` set k)) + 1 \<in> fst ` set k" by (simp add: map_of_eq_None_iff)
    then have "Max (insert 0 (fst ` set k)) + 1 \<le> Max (insert 0 (fst ` set k))" by (intro Max_ge) auto
    then show False by simp
  qed
  moreover have "0 \<le> Max (insert 0 (fst ` set k)) + 1" for k :: "(fd_t \<times> string) list"
  proof -
    have "0 \<le> Max (insert 0 (fst ` set k))" by (intro Max_ge) auto
    then show ?thesis by simp
  qed
  ultimately show ?thesis
    unfolding posix_fds_def table_kernel_def null_kernel_def
    by (intro conjI allI impI) (auto simp: Let_def)
qed

theorem in_child_attach_witness:
  "(\<exists>k. in_child table_kernel (HPipeWrite 1 7) [(1, ''tty''), (7, ''pipe'')] = (Ok (), k) \<and>
     map_of k 1 = Some ''pipe'' \<and> map_of k 7 = None) \<and>
   (\<exists>k. in_child table_kernel (HPipeWrite 7 7) [(1, ''tty''), (7, ''pipe'')] = (Ok (), k) \<and> map_of k 7 = None)"
proof
  show "\<exists>k. in_child table_kernel (HPipeWrite 1 7) [(1, ''tty''), (7, ''pipe'')] = (Ok (), k) \<and>
     map_of k 1 = Some ''pipe'' \<and> map_of k 7 = None"
    using in_child_attach [of table_kernel map_of "\<lambda>p _. p" "HPipeWrite 1 7" "[(1, ''tty''), (7, ''pipe'')]"]
      table_kernel_posix by (auto simp: move_fd_def)
next
  show "\<exists>k. in_child table_kernel (HPipeWrite 7 7) [(1, ''tty''), (7, ''pipe'')] = (Ok (), k) \<and> map_of k 7 = None"
    using in_child_attach [of table_kernel map_of "\<lambda>p _. p" "HPipeWrite 7 7" "[(1, ''tty''), (7, ''pipe'')]"]
      table_kernel_posix by (auto simp: move_fd_def)
qed

section \<open>Reading a temp file back\<close>

text \<open>
  A file with contents and a position: a seek sets the position, a read of at least one byte gives a
  nonempty piece at the position, empty only at the end, and is never interrupted; neither changes
  the contents.
\<close>

definition file_kernel :: "('k, 'z) kernel_scheme \<Rightarrow> fd_t \<Rightarrow> ('k \<Rightarrow> byte list) \<Rightarrow> ('k \<Rightarrow> nat) \<Rightarrow> bool" where
  "file_kernel K fd content pos \<longleftrightarrow>
     (\<forall>k p. 0 \<le> p \<longrightarrow> (\<exists>e k'. libc_lseek_set K fd p k = (p, e, k') \<and> pos k' = nat p \<and> content k' = content k)) \<and>
     (\<forall>k n. 0 < n \<longrightarrow> (\<exists>e data k'. libc_read K fd n k = (int (length data), e, data, k') \<and>
        data = take (length data) (drop (pos k) (content k)) \<and> length data \<le> n \<and>
        (data = [] \<longrightarrow> length (content k) \<le> pos k) \<and> pos k' = pos k + length data \<and> content k' = content k))"

lemma std_read_file:
  assumes "file_kernel K fd content pos" "0 < n"
  obtains data k' where "std_read K fd n k = (Ok data, k')"
    "data = take (length data) (drop (pos k) (content k))" "length data \<le> n"
    "data = [] \<longrightarrow> length (content k) \<le> pos k" "pos k' = pos k + length data" "content k' = content k"
proof -
  from assms obtain e data k' where "libc_read K fd n k = (int (length data), e, data, k')"
    "data = take (length data) (drop (pos k) (content k))" "length data \<le> n"
    "data = [] \<longrightarrow> length (content k) \<le> pos k" "pos k' = pos k + length data" "content k' = content k"
    unfolding file_kernel_def by blast
  then show thesis by (intro that [of data k']) (simp_all add: std_read_def)
qed

lemma take_drop_more:
  "data = take (length data) (drop p c) \<Longrightarrow> data @ take m (drop (p + length data) c) = take (length data + m) (drop p c)"
  by (metis add.commute drop_drop take_add)

lemma read_to_end_file:
  assumes "file_kernel K fd content pos" "\<And>n. 0 < sz n"
  shows "length (content k) - pos k < f \<Longrightarrow>
    \<exists>k'. read_to_end f sz K fd buf k = Some (Ok (buf @ drop (pos k) (content k)), k') \<and>
      content k' = content k \<and> pos k' = max (pos k) (length (content k))"
proof (induction f arbitrary: buf k)
  case (Suc f)
  obtain data k1 where 1: "std_read K fd (sz (length buf)) k = (Ok data, k1)"
    "data = take (length data) (drop (pos k) (content k))"
    "data = [] \<longrightarrow> length (content k) \<le> pos k" "pos k1 = pos k + length data" "content k1 = content k"
    using assms(1) assms(2) by (rule std_read_file)
  show ?case
  proof (cases "data = []")
    case True
    with 1 show ?thesis by simp
  next
    case False
    then have "0 < length data" by simp
    moreover have le: "length data \<le> length (content k) - pos k"
      using 1(2) by (metis length_drop length_take min.cobounded2 min.commute)
    ultimately have "length (content k1) - pos k1 < f" using Suc.prems unfolding 1(4,5) by linarith
    from Suc.IH [OF this, of "buf @ data"] obtain k2 where
        "read_to_end f sz K fd (buf @ data) k1 = Some (Ok ((buf @ data) @ drop (pos k1) (content k)), k2)"
        "content k2 = content k" "pos k2 = max (pos k1) (length (content k))" using 1(5) by auto
    moreover have "data @ drop (pos k1) (content k) = drop (pos k) (content k)"
      using 1(2,4) by (metis add.commute append_take_drop_id drop_drop)
    moreover have "max (pos k1) (length (content k)) = max (pos k) (length (content k))" using 1(4) le by auto
    ultimately show ?thesis using 1(1) False by simp
  qed
qed simp

lemma read_exact_file:
  assumes "file_kernel K fd content pos"
  shows "pos k + want \<le> length (content k) \<Longrightarrow> want \<le> f \<Longrightarrow>
    \<exists>k'. read_exact f K fd want buf k = Some (Ok (buf @ take want (drop (pos k) (content k))), k') \<and>
      content k' = content k \<and> pos k' = pos k + want"
proof (induction f arbitrary: want buf k)
  case 0
  then show ?case by (subst read_exact.simps) simp
next
  case (Suc f)
  show ?case
  proof (cases "want = 0")
    case True
    then show ?thesis by (subst read_exact.simps) simp
  next
    case False
    then have "0 < want" by simp
    with assms obtain data k1 where 1: "std_read K fd want k = (Ok data, k1)"
      "data = take (length data) (drop (pos k) (content k))" "length data \<le> want"
      "data = [] \<longrightarrow> length (content k) \<le> pos k" "pos k1 = pos k + length data" "content k1 = content k"
      by (rule std_read_file)
    have ne: "data \<noteq> []" using 1(4) Suc.prems False by auto
    then have "0 < length data" by simp
    with Suc.prems 1(3) have "pos k1 + (want - length data) \<le> length (content k1)" "want - length data \<le> f"
      unfolding 1(5,6) by linarith+
    from Suc.IH [OF this, of "buf @ data"] 1(6) obtain k2 where
        "read_exact f K fd (want - length data) (buf @ data) k1 =
         Some (Ok ((buf @ data) @ take (want - length data) (drop (pos k1) (content k))), k2)"
        "content k2 = content k" "pos k2 = pos k1 + (want - length data)" by auto
    moreover have "data @ take (want - length data) (drop (pos k1) (content k)) = take want (drop (pos k) (content k))"
      using take_drop_more [OF 1(2), of "want - length data"] 1(3,5) by simp
    ultimately show ?thesis using 1(1,3,5) False ne by (subst read_exact.simps) simp
  qed
qed

lemma read_exact_short:
  assumes "file_kernel K fd content pos"
  shows "length (content k) < pos k + want \<Longrightarrow> 0 < want \<Longrightarrow> length (content k) - pos k < f \<Longrightarrow>
    \<exists>k'. read_exact f K fd want buf k = Some (Err (CustomError UnexpectedEof ''failed to fill whole buffer''), k')"
proof (induction f arbitrary: want buf k)
  case (Suc f)
  from assms Suc.prems(2) obtain data k1 where 1: "std_read K fd want k = (Ok data, k1)"
    "data = take (length data) (drop (pos k) (content k))" "length data \<le> want"
    "data = [] \<longrightarrow> length (content k) \<le> pos k" "pos k1 = pos k + length data" "content k1 = content k"
    by (rule std_read_file)
  show ?case
  proof (cases "data = []")
    case True
    with 1 Suc.prems(2) show ?thesis by (subst read_exact.simps) simp
  next
    case False
    then have "0 < length data" by simp
    moreover have "length data \<le> length (content k) - pos k"
      using 1(2) by (metis length_drop length_take min.cobounded2 min.commute)
    ultimately have "length (content k1) < pos k1 + (want - length data)" "0 < want - length data"
        "length (content k1) - pos k1 < f"
      using Suc.prems 1(3,5) unfolding 1(6) by linarith+
    from Suc.IH [OF this, of "buf @ data"] 1(1) False Suc.prems(2) show ?thesis
      by (subst read_exact.simps) simp
  qed
qed simp

lemma seek_file:
  assumes "file_kernel K fd content pos" "unat start < 2 ^ 63"
  obtains k' where "std_seek K fd start k = (Ok (), k')" "pos k' = unat start" "content k' = content k"
proof -
  have s: "sint (start :: 64 word) = int (unat start)"
  proof -
    have u: "uint start = int (unat start)" by simp
    have "int (unat start) < 2 ^ 63" using assms(2) by (metis of_nat_less_iff of_nat_numeral of_nat_power)
    then have "uint start < 2 ^ 63" by (simp only: u)
    moreover have "- (2 ^ 63) \<le> uint start" by (rule order_trans [OF _ uint_ge_0]) simp
    ultimately have "signed_take_bit 63 (uint start) = uint start"
      by (intro signed_take_bit_int_eq_self)
    then show ?thesis by (simp add: sint_uint)
  qed
  have "0 \<le> sint start" unfolding s by simp
  with assms(1) obtain e k' where l: "libc_lseek_set K fd (sint start) k = (sint start, e, k')"
      "pos k' = nat (sint start)" "content k' = content k"
    unfolding file_kernel_def by blast
  from \<open>0 \<le> sint start\<close> have "sint start \<noteq> -1" by linarith
  with l(1) have "std_seek K fd start k = (Ok (), k')" by (simp add: std_seek_def)
  moreover have "pos k' = unat start" unfolding l(2) s by simp
  ultimately show thesis using l(3) by (rule that)
qed

text \<open>The two ways to read, with the position they leave.\<close>

lemma read_from_file_end:
  assumes "file_kernel K fd content pos" "\<forall>n. 0 < rd_size R n" "length (content k) < rd_fuel R"
    and "length (content k) < 2 ^ 63" "unat start \<le> length (content k)"
  shows "\<exists>k'. read_from_file R K fd start None k = Some (Ok (drop (unat start) (content k)), k') \<and>
    content k' = content k \<and> pos k' = length (content k)"
proof -
  have seek: "unat start < 2 ^ 63" using assms(4,5) by linarith
  obtain k1 where k1: "std_seek K fd start k = (Ok (), k1)" "pos k1 = unat start" "content k1 = content k"
    using assms(1) seek by (rule seek_file)
  have "length (content k1) - pos k1 < rd_fuel R" using assms(3) k1(3) by simp
  from read_to_end_file [OF assms(1) _ this, of "rd_size R" "[]"] assms(2,5) k1 show ?thesis
    by (auto simp: read_from_file_def)
qed

lemma read_from_file_range:
  assumes "file_kernel K fd content pos" "length (content k) < rd_fuel R" "length (content k) < 2 ^ 63"
    and "start \<le> stop" "unat stop \<le> length (content k)"
  shows "\<exists>k'. read_from_file R K fd start (Some stop) k =
      Some (Ok (take (unat stop - unat start) (drop (unat start) (content k))), k') \<and>
    content k' = content k \<and> pos k' = unat stop"
proof -
  have le: "unat start \<le> unat stop" using assms(4) by (simp add: word_le_nat_alt)
  then have seek: "unat start < 2 ^ 63" using assms(3,5) by linarith
  obtain k1 where k1: "std_seek K fd start k = (Ok (), k1)" "pos k1 = unat start" "content k1 = content k"
    using assms(1) seek by (rule seek_file)
  have u: "unat (stop - start) = unat stop - unat start" using assms(4) by (simp add: unat_sub)
  have "pos k1 + (unat stop - unat start) \<le> length (content k1)" "unat stop - unat start \<le> rd_fuel R"
    using assms(2,5) k1(2,3) le by simp_all
  from read_exact_file [OF assms(1) this, of "[]"] k1 u assms(3,4,5) le show ?thesis
    by (auto simp: read_from_file_def Let_def)
qed

text \<open>
  C28 Captured output is read back exactly: \<open>read_from_file\<close> gives everything from \<open>start\<close> on, or exactly
  the bytes up to \<open>stop\<close>, and leaves the contents as they are.  A \<open>stop\<close> beyond the end is an error, and
  the temp file's descriptor is then closed although the handler still holds it.
\<close>

theorem read_back:
  assumes "file_kernel K fd content pos" "\<forall>n. 0 < rd_size R n" "length (content k) < rd_fuel R"
    and "length (content k) < 2 ^ 63" "unat start \<le> length (content k)"
  shows "(\<exists>k'. read_from_file R K fd start None k = Some (Ok (drop (unat start) (content k)), k') \<and> content k' = content k) \<and>
    (start \<le> stop \<longrightarrow> unat stop \<le> length (content k) \<longrightarrow> (\<exists>k'. read_from_file R K fd start (Some stop) k =
       Some (Ok (take (unat stop - unat start) (drop (unat start) (content k))), k') \<and> content k' = content k)) \<and>
    (length (content k) < unat stop \<longrightarrow> unat stop < 2 ^ 63 \<longrightarrow> (\<exists>k'. read_from_file R K fd start (Some stop) k =
       Some (Err (CustomError UnexpectedEof ''failed to fill whole buffer''), snd (close K fd k'))))"
proof (intro conjI impI)
  show "\<exists>k'. read_from_file R K fd start None k = Some (Ok (drop (unat start) (content k)), k') \<and> content k' = content k"
    using read_from_file_end [OF assms] by blast
  show "\<exists>k'. read_from_file R K fd start (Some stop) k =
       Some (Ok (take (unat stop - unat start) (drop (unat start) (content k))), k') \<and> content k' = content k"
    if "start \<le> stop" "unat stop \<le> length (content k)"
    using read_from_file_range [OF assms(1,3,4) that] by blast
  assume s: "length (content k) < unat stop" "unat stop < 2 ^ 63"
  have seek: "unat start < 2 ^ 63" using assms(4,5) by linarith
  obtain k1 where k1: "std_seek K fd start k = (Ok (), k1)" "pos k1 = unat start" "content k1 = content k"
    using assms(1) seek by (rule seek_file)
  from s assms(5) have le: "start \<le> stop" by (simp add: word_le_nat_alt)
  then have u: "unat (stop - start) = unat stop - unat start" by (simp add: unat_sub)
  have "length (content k1) < pos k1 + (unat stop - unat start)" "0 < unat stop - unat start"
      "length (content k1) - pos k1 < rd_fuel R"
    using s k1(2,3) assms(3,5) by simp_all
  from read_exact_short [OF assms(1) this, of "[]"] k1 s u le
  show "\<exists>k'. read_from_file R K fd start (Some stop) k =
     Some (Err (CustomError UnexpectedEof ''failed to fill whole buffer''), snd (close K fd k'))"
    by (auto simp: read_from_file_def Let_def)
qed

text \<open>A file of five bytes, read at most two at a time; the kernel state is the position.\<close>

definition sample_content :: "byte list" where
  "sample_content = [104, 101, 108, 108, 111]"

definition position_kernel :: "nat kernel" where
  "position_kernel = null_kernel
     \<lparr>libc_lseek_set := (\<lambda>_ p k. (p, 0, nat p)),
      libc_read := (\<lambda>_ n k. let data = take (min n 2) (drop k sample_content) in
        (int (length data), 0, data, k + length data))\<rparr>"

lemma take_min_drop: "take (min (length c - p) n) (drop p c) = take n (drop p c)"
  by (simp add: min_def)

lemma position_kernel_file: "file_kernel position_kernel 9 (\<lambda>_. sample_content) id"
  unfolding file_kernel_def
  by (auto simp: position_kernel_def null_kernel_def Let_def take_min_drop)

theorem read_back_witness:
  "(\<exists>k. read_from_file \<lparr>rd_fuel = 6, rd_size = (\<lambda>_. 32)\<rparr> position_kernel 9 1 None 0 = Some (Ok [101, 108, 108, 111], k)) \<and>
   (\<exists>k. read_from_file \<lparr>rd_fuel = 6, rd_size = (\<lambda>_. 32)\<rparr> position_kernel 9 1 (Some 3) 0 = Some (Ok [101, 108], k))"
  using read_back [OF position_kernel_file, of "\<lparr>rd_fuel = 6, rd_size = (\<lambda>_. 32)\<rparr>" 1 0 3]
  by (auto simp: sample_content_def word_le_nat_alt)

text \<open>
  Captured memory: after the capture task has read pieces up to the end of the pipe, the handler's
  buffer is all of them in order; the attached result encodes it all, data from \<open>start\<close> is the rest of
  it, and a request whose range is reversed or ends beyond the buffer panics.
\<close>

theorem capture_memory_data:
  assumes "\<forall>c \<in> set chunks. c \<noteq> []"
  shows "\<exists>h. run_capture_memory (map Ok chunks @ Ok [] # rest) (HCaptureMemory fd r w enc [] att) = (Ok (), h) \<and>
    get_result base64 R K h k = Some (Ok (Some (if att then fd_res_from_bytes base64 enc (concat chunks)
      else fd_res_detached (int (length (concat chunks))) enc)), k) \<and>
    (unat start \<le> length (concat chunks) \<longrightarrow> get_data R K h start None k =
      Some (Ok (Some \<lparr>fdd_data = drop (unat start) (concat chunks), fdd_encoding = enc\<rparr>), k)) \<and>
    (get_data R K h start (Some stop) k = Some (Panic, k) \<longleftrightarrow>
      stop < start \<or> length (concat chunks) < unat stop)"
proof -
  have "run_capture_memory (map Ok chunks @ Ok [] # rest) (HCaptureMemory fd r w enc buf att) =
      (Ok (), HCaptureMemory fd r w enc (buf @ concat chunks) att)" for buf
    using assms(1) by (induction chunks arbitrary: buf) auto
  then show ?thesis
    by (intro exI [of _ "HCaptureMemory fd r w enc (concat chunks) att"])
      (auto simp: Let_def word_le_nat_alt word_less_nat_alt)
qed

theorem capture_memory_data_witness:
  "\<exists>h. run_capture_memory [Ok [1, 2], Ok [3], Ok []] (HCaptureMemory 1 5 6 None [] True) = (Ok (), h) \<and>
     get_data \<lparr>rd_fuel = 0, rd_size = id\<rparr> (null_kernel :: unit kernel) h 1 None () =
       Some (Ok (Some \<lparr>fdd_data = [2, 3], fdd_encoding = None\<rparr>), ()) \<and>
     get_data \<lparr>rd_fuel = 0, rd_size = id\<rparr> (null_kernel :: unit kernel) h 1 (Some 4) () = Some (Panic, ())"
  using capture_memory_data [of "[[1, 2], [3]]" "[]" 1 5 6 None True "\<lambda>_. ''b64''" "\<lparr>rd_fuel = 0, rd_size = id\<rparr>"
      "null_kernel :: unit kernel" "()" 1 4]
  by auto

end
