(* ===== verification/Procs.thy ===== *)
theory Procs
  imports Fd Finalize
begin

text \<open>
  Processes and their registry, from \<open>src/procs.rs\<close>: \<open>Proc\<close>, \<open>SharedProcs\<close> with its notifications and
  the shutdown channel.  A \<open>SharedProc\<close> is shared between the registry and the task that waits for the
  process: procs live in a heap, and the registry maps IDs to addresses.

  The broadcast channel is the list of all notifications sent to receivers; a subscription is a
  position in it.  The world outside (kernel, \<open>/proc\<close>, clocks) is the state \<open>'k\<close> of the record \<open>host\<close>.
\<close>

section \<open>The host\<close>

record 'k host =
  h_kernel :: "'k kernel"
  h_proc_host :: proc_host
  h_read_file :: "'k \<Rightarrow> reader"
  h_reading :: reading
  h_base64 :: "byte list \<Rightarrow> string"
  h_wait :: wait_macros
  h_utc :: "'k \<Rightarrow> int"
  h_instant :: "'k \<Rightarrow> nat"
  h_rfc3339 :: "int \<Rightarrow> string"

section \<open>Processes\<close>

type_synonym fd_handlers = "(raw_fd \<times> fd_handler) list"

record proc =
  p_pid :: pid_t
  p_slice :: "string option"
  p_scope :: "string option"
  p_systemd_enabled :: bool
  p_reaped :: bool
  p_errors :: "string list"
  p_fd_handlers :: fd_handlers
  p_start_time :: int
  p_start_instant :: nat
  p_wait_info :: "wait_info option"
  p_proc_stat :: "proc_stat option"
  p_cgroup_accounting :: "cgroup_accounting option"
  p_scope_result :: "string option"
  p_cleanup_incomplete :: bool
  p_stop_time :: "int option"
  p_elapsed :: "nat option"

definition proc_new ::
  "pid_t \<Rightarrow> string option \<Rightarrow> string option \<Rightarrow> bool \<Rightarrow> int \<Rightarrow> nat \<Rightarrow> fd_handlers \<Rightarrow> proc" where
  "proc_new pid slice_name scope systemd_enabled start_time start_instant handlers =
     \<lparr>p_pid = pid, p_slice = slice_name, p_scope = scope, p_systemd_enabled = systemd_enabled,
      p_reaped = False, p_errors = [], p_fd_handlers = handlers, p_start_time = start_time,
      p_start_instant = start_instant, p_wait_info = None, p_proc_stat = None,
      p_cgroup_accounting = None, p_scope_result = None, p_cleanup_incomplete = False,
      p_stop_time = None, p_elapsed = None\<rparr>"

definition send_signal :: "('k, 'z) kernel_scheme \<Rightarrow> proc \<Rightarrow> signum \<Rightarrow> 'k \<Rightarrow> (unit, error) outcome \<times> 'k" where
  "send_signal K p signum k =
     (if p_reaped p then (Err NoProc, k)
      else case kill K (p_pid p) signum k of
        (Ok _, k') \<Rightarrow> (Ok (), k')
      | (Err err, k') \<Rightarrow> (Err (if io_kind_of err = NotFound then NoProc else ErrIo err), k')
      | (Panic, k') \<Rightarrow> (Panic, k'))"

definition get_state :: "proc \<Rightarrow> state" where
  "get_state p =
     (if p_errors p \<noteq> [] then Error
      else if p_wait_info p = None then Running
      else Terminated)"

text \<open>The results of the fds, in the order of the handlers; a failed one is an error value.\<close>

fun fd_results ::
  "'k host \<Rightarrow> fd_handlers \<Rightarrow> ((string \<times> fd_res option) list, error, 'k) run" where
  "fd_results H [] = at_once (ret [])"
| "fd_results H ((n, h) # rest) =
     run_then (\<lambda>k. case get_result (h_base64 H) (h_reading H) (h_kernel H) h k of
         None \<Rightarrow> None
       | Some (Ok fd_result, k') \<Rightarrow> Some (Ok fd_result, k')
       | Some (Err _, k') \<Rightarrow> Some (Ok (Some FdResError), k')
       | Some (Panic, k') \<Rightarrow> Some (Panic, k')) (\<lambda>r.
     run_then (fd_results H rest) (\<lambda>rs. at_once (ret ((get_fd_name n, r) # rs))))"

definition as_secs_f64 :: "nat \<Rightarrow> f64" where
  "as_secs_f64 nanos =
     FAdd (OfInt (int (nanos div 10 ^ 9))) (FDiv (OfInt (int (nanos mod 10 ^ 9))) (OfInt (10 ^ 9)))"

text \<open>\<open>load_or_log\<close> of the two \<open>/proc\<close> files, which never returns an error.\<close>

definition read_stat :: "'k host \<Rightarrow> pid_t \<Rightarrow> 'k \<Rightarrow> (proc_stat option, error) outcome \<times> 'k" where
  "read_stat H pid k = (map_err ErrIo (load_or_log (stat_load (h_proc_host H) (h_read_file H k) pid)), k)"

definition read_statm :: "'k host \<Rightarrow> pid_t \<Rightarrow> 'k \<Rightarrow> (proc_statm option, error) outcome \<times> 'k" where
  "read_statm H pid k = (map_err ErrIo (load_or_log (statm_load (h_proc_host H) (h_read_file H k) pid)), k)"

definition exit_results ::
  "'k host \<Rightarrow> proc \<Rightarrow> 'k \<Rightarrow> (status option \<times> resource_usage option \<times> proc_statm option, error) outcome \<times> 'k" where
  "exit_results H p =
     (case p_wait_info p of
        Some (_, status, usage) \<Rightarrow>
          bind (\<lambda>k. (status_new (h_wait H) status, k)) (\<lambda>st. ret (Some st, Some (resource_usage_new usage), None))
      | None \<Rightarrow> bind (read_statm H (p_pid p)) (\<lambda>m. ret (None, None, m)))"

definition proc_times :: "'k host \<Rightarrow> proc \<Rightarrow> 'k \<Rightarrow> times" where
  "proc_times H p k =
     \<lparr>tm_start = h_rfc3339 H (p_start_time p), tm_now = h_rfc3339 H (h_utc H k),
      tm_stop = map_option (h_rfc3339 H) (p_stop_time p),
      tm_elapsed = as_secs_f64 (case p_elapsed p of Some e \<Rightarrow> e | None \<Rightarrow> h_instant H k - p_start_instant p)\<rparr>"

definition proc_to_result :: "'k host \<Rightarrow> proc \<Rightarrow> (proc_res, error, 'k) run" where
  "proc_to_result H p =
     run_then (at_once (exit_results H p)) (\<lambda>(status, usage, statm).
     run_then (fd_results H (p_fd_handlers p)) (\<lambda>results k.
       let tms = proc_times H p k in
       run_then (at_once (case p_proc_stat p of Some s \<Rightarrow> ret (Some s) | None \<Rightarrow> read_stat H (p_pid p))) (\<lambda>stat.
       at_once (ret
         \<lparr>pr_state = get_state p, pr_errors = p_errors p, pr_pid = p_pid p, pr_proc_stat = stat,
          pr_proc_statm = statm, pr_cgroup_accounting = p_cgroup_accounting p,
          pr_systemd_enabled = p_systemd_enabled p, pr_scope_result = p_scope_result p,
          pr_cleanup_incomplete = p_cleanup_incomplete p, pr_times = tms, pr_status = status,
          pr_rusage = usage, pr_fds = bt_collect results\<rparr>)) k))"

fun get_fd_handler :: "fd_handlers \<Rightarrow> raw_fd \<Rightarrow> fd_handler option" where
  "get_fd_handler [] fd = None"
| "get_fd_handler ((n, h) # rest) fd = (if n = fd then Some h else get_fd_handler rest fd)"

definition get_fd_data ::
  "'k host \<Rightarrow> proc \<Rightarrow> raw_fd \<Rightarrow> 64 word \<Rightarrow> 64 word option \<Rightarrow> (fd_data option, error, 'k) run" where
  "get_fd_data H p fd start stop =
     (case get_fd_handler (p_fd_handlers p) fd of
        Some h \<Rightarrow> get_data (h_reading H) (h_kernel H) h start stop
      | None \<Rightarrow> at_once (fail (NoFd fd)))"

section \<open>Notifications\<close>

datatype notification =
    NotiStart proc_id
  | NotiNotRunning proc_id
  | NotiDelete proc_id
  | NotiShutDown shutdown_state

definition channel_capacity :: nat where "channel_capacity = 1024"

section \<open>The registry\<close>

type_synonym addr = nat

record registry =
  reg_procs :: "(proc_id, addr) btree"
  reg_heap :: "proc list"
  reg_log :: "notification list"
  reg_receivers :: nat
  reg_shutdown :: shutdown_state

definition procs_new :: registry where
  "procs_new = \<lparr>reg_procs = [], reg_heap = [], reg_log = [], reg_receivers = 0, reg_shutdown = Active\<rparr>"

definition notify :: "notification \<Rightarrow> registry \<Rightarrow> registry" where
  "notify noti r = (if reg_receivers r > 0 then r\<lparr>reg_log := reg_log r @ [noti]\<rparr> else r)"

text \<open>\<open>subscribe\<close> gives the position of the next notification; dropping a subscription frees its receiver.\<close>

definition subscribe :: "registry \<Rightarrow> nat \<times> registry" where
  "subscribe r = (length (reg_log r), r\<lparr>reg_receivers := reg_receivers r + 1\<rparr>)"

definition unsubscribe :: "registry \<Rightarrow> registry" where
  "unsubscribe r = r\<lparr>reg_receivers := reg_receivers r - 1\<rparr>"

text \<open>
  \<open>recv\<close>: a subscriber that has fallen behind by more than the capacity panics, otherwise it gets the
  next notification; \<open>None\<close> is a call that is still waiting.
\<close>

definition recv :: "nat \<Rightarrow> registry \<Rightarrow> ((notification, unit) outcome \<times> nat) option" where
  "recv pos r =
     (if channel_capacity < length (reg_log r) - pos then Some (Panic, pos)
      else if pos < length (reg_log r) then Some (Ok (reg_log r ! pos), pos + 1)
      else None)"

text \<open>
  \<open>set_shutdown\<close> and \<open>check_idling\<close> call each other: an idling registry without procs is done.
\<close>

function set_shutdown :: "shutdown_state \<Rightarrow> registry \<Rightarrow> registry" where
  "set_shutdown st r =
     (let r' = notify (NotiShutDown st) (r\<lparr>reg_shutdown := st\<rparr>) in
      if reg_procs r' = [] \<and> reg_shutdown r' = Idling then set_shutdown Done r' else r')"
  by pat_completeness auto
termination
  by (relation "measure (\<lambda>(st, r). if st = Idling then 1 else 0)") (auto simp: notify_def split: if_splits)

declare set_shutdown.simps [simp del]

definition check_idling :: "registry \<Rightarrow> registry" where
  "check_idling r = (if reg_procs r = [] \<and> reg_shutdown r = Idling then set_shutdown Done r else r)"

definition get_shutdown :: "registry \<Rightarrow> shutdown_state" where
  "get_shutdown r = reg_shutdown r"

definition procs_insert :: "proc_id \<Rightarrow> addr \<Rightarrow> registry \<Rightarrow> registry" where
  "procs_insert i a r = notify (NotiStart i) (r\<lparr>reg_procs := bt_insert i a (reg_procs r)\<rparr>)"

definition procs_len :: "registry \<Rightarrow> nat" where
  "procs_len r = length (reg_procs r)"

definition get_proc_ids :: "registry \<Rightarrow> proc_id list" where
  "get_proc_ids r = bt_keys (reg_procs r)"

definition procs_get :: "registry \<Rightarrow> proc_id \<Rightarrow> addr option" where
  "procs_get r i = bt_get (reg_procs r) i"

definition procs_first :: "registry \<Rightarrow> (proc_id \<times> addr) option" where
  "procs_first r = (case reg_procs r of [] \<Rightarrow> None | e # _ \<Rightarrow> Some e)"

definition proc_at :: "registry \<Rightarrow> addr \<Rightarrow> proc" where
  "proc_at r a = reg_heap r ! a"

definition first_running :: "registry \<Rightarrow> (proc_id \<times> addr) option" where
  "first_running r = find (\<lambda>(_, a). get_state (proc_at r a) = Running) (reg_procs r)"

definition remove_if_not_running :: "proc_id \<Rightarrow> registry \<Rightarrow> (addr, error) outcome \<times> registry" where
  "remove_if_not_running i r =
     (case procs_get r i of
        None \<Rightarrow> (Err (NoProcId i), r)
      | Some a \<Rightarrow>
          if get_state (proc_at r a) = Running then (Err (ProcRunning i), r)
          else (Ok a, notify (NotiDelete i) (check_idling (r\<lparr>reg_procs := bt_remove i (reg_procs r)\<rparr>))))"

definition procs_pop :: "registry \<Rightarrow> (proc_id \<times> addr) option \<times> registry" where
  "procs_pop r =
     (case reg_procs r of
        [] \<Rightarrow> (None, check_idling r)
      | (i, a) # rest \<Rightarrow> (Some (i, a), check_idling (notify (NotiDelete i) (r\<lparr>reg_procs := rest\<rparr>))))"

fun results_of :: "'k host \<Rightarrow> registry \<Rightarrow> (proc_id \<times> addr) list \<Rightarrow> ((proc_id \<times> proc_res) list, error, 'k) run" where
  "results_of H r [] = at_once (ret [])"
| "results_of H r ((i, a) # rest) =
     run_then (proc_to_result H (proc_at r a)) (\<lambda>x.
     run_then (results_of H r rest) (\<lambda>xs. at_once (ret ((i, x) # xs))))"

definition procs_to_result :: "'k host \<Rightarrow> registry \<Rightarrow> (res, error, 'k) run" where
  "procs_to_result H r = run_then (results_of H r (reg_procs r)) (\<lambda>xs. at_once (ret (bt_collect xs)))"

text \<open>The registry is emptied before the results are collected and the deletions notified.\<close>

definition forget_all :: "registry \<Rightarrow> registry" where
  "forget_all r =
     check_idling (foldl (\<lambda>r i. notify (NotiDelete i) r) (r\<lparr>reg_procs := []\<rparr>) (get_proc_ids r))"

definition collect_results :: "'k host \<Rightarrow> registry \<Rightarrow> 'k \<Rightarrow> ((res, error) outcome \<times> registry \<times> 'k) option" where
  "collect_results H r k =
     (let r' = r\<lparr>reg_procs := []\<rparr> in
      case run_then (results_of H r (reg_procs r)) (\<lambda>xs. at_once (ret (bt_collect xs))) k of
        None \<Rightarrow> None
      | Some (Ok x, k') \<Rightarrow>
          Some (Ok x, forget_all r, k')
      | Some (Err e, k') \<Rightarrow> Some (Err e, r', k')
      | Some (Panic, k') \<Rightarrow> Some (Panic, r', k'))"

text \<open>The last error is returned; a signal is sent to every running proc.\<close>

fun signal_all :: "('k, 'z) kernel_scheme \<Rightarrow> signum \<Rightarrow> registry \<Rightarrow> (proc_id \<times> addr) list \<Rightarrow>
    (unit, error) outcome \<Rightarrow> 'k \<Rightarrow> (unit, error) outcome \<times> 'k" where
  "signal_all K signum r [] result k = (result, k)"
| "signal_all K signum r ((i, a) # rest) result k =
     (let p = proc_at r a in
      if get_state p = Running then
        (case send_signal K p signum k of
           (Panic, k') \<Rightarrow> (Panic, k')
         | (Err e, k') \<Rightarrow> signal_all K signum r rest (Err e) k'
         | (Ok _, k') \<Rightarrow> signal_all K signum r rest result k')
      else signal_all K signum r rest result k)"

definition send_signal_all :: "('k, 'z) kernel_scheme \<Rightarrow> signum \<Rightarrow> registry \<Rightarrow> 'k \<Rightarrow> (unit, error) outcome \<times> 'k" where
  "send_signal_all K signum r k = signal_all K signum r (reg_procs r) (Ok ()) k"

section \<open>What the operations change\<close>

lemma notify_simps [simp]:
  "reg_procs (notify n r) = reg_procs r" "reg_heap (notify n r) = reg_heap r"
  "reg_receivers (notify n r) = reg_receivers r" "reg_shutdown (notify n r) = reg_shutdown r"
  by (simp_all add: notify_def)

lemma set_shutdown_simps [simp]:
  "reg_procs (set_shutdown st r) = reg_procs r" "reg_heap (set_shutdown st r) = reg_heap r"
  "reg_receivers (set_shutdown st r) = reg_receivers r"
  "reg_shutdown (set_shutdown st r) = (if st = Idling \<and> reg_procs r = [] then Done else st)"
  by (subst set_shutdown.simps; subst set_shutdown.simps; simp add: Let_def)+

lemma check_idling_simps [simp]:
  "reg_procs (check_idling r) = reg_procs r" "reg_heap (check_idling r) = reg_heap r"
  "reg_receivers (check_idling r) = reg_receivers r"
  "reg_shutdown (check_idling r) = (if reg_procs r = [] \<and> reg_shutdown r = Idling then Done else reg_shutdown r)"
  by (simp_all add: check_idling_def)

lemma notify_all_simps [simp]:
  "reg_procs (foldl (\<lambda>r i. notify (f i) r) r is) = reg_procs r"
  "reg_heap (foldl (\<lambda>r i. notify (f i) r) r is) = reg_heap r"
  "reg_receivers (foldl (\<lambda>r i. notify (f i) r) r is) = reg_receivers r"
  "reg_shutdown (foldl (\<lambda>r i. notify (f i) r) r is) = reg_shutdown r"
  by (induction "is" arbitrary: r) simp_all

text \<open>The log while there is a receiver.\<close>

lemma log_notify: "0 < reg_receivers r \<Longrightarrow> reg_log (notify n r) = reg_log r @ [n]"
  by (simp add: notify_def)

lemma log_set_shutdown:
  "0 < reg_receivers r \<Longrightarrow> reg_log (set_shutdown st r) =
     reg_log r @ NotiShutDown st # (if st = Idling \<and> reg_procs r = [] then [NotiShutDown Done] else [])"
  by (subst set_shutdown.simps; subst set_shutdown.simps) (auto simp: Let_def log_notify)

lemma log_check_idling:
  "0 < reg_receivers r \<Longrightarrow> reg_log (check_idling r) =
     reg_log r @ (if reg_procs r = [] \<and> reg_shutdown r = Idling then [NotiShutDown Done] else [])"
  by (simp add: check_idling_def log_set_shutdown)

lemma log_notify_all:
  "0 < reg_receivers r \<Longrightarrow> reg_log (foldl (\<lambda>r i. notify (f i) r) r is) = reg_log r @ map f is"
  by (induction "is" arbitrary: r) (simp_all add: log_notify)

lemmas log_simps = log_notify log_set_shutdown log_check_idling log_notify_all

text \<open>In any case the log only grows.\<close>

lemma log_grows_notify: "\<exists>ns. reg_log (notify n r) = reg_log r @ ns"
  by (simp add: notify_def)

section \<open>The invariant of the registry\<close>

text \<open>
  IDs in order, each with its own heap cell; and an empty registry is never idling: when the last
  process is deleted, an idling registry shuts down.
\<close>

definition reg_ok :: "registry \<Rightarrow> bool" where
  "reg_ok r \<longleftrightarrow> bt_wf (reg_procs r) \<and> (\<forall>a \<in> snd ` set (reg_procs r). a < length (reg_heap r)) \<and>
     distinct (map snd (reg_procs r)) \<and> \<not> (reg_procs r = [] \<and> reg_shutdown r = Idling)"

lemma set_bt_insert_vals: "snd ` set (bt_insert k v m) \<subseteq> insert v (snd ` set m)"
  by (induction k v m rule: bt_insert.induct) auto

lemma bt_insert_not_Nil [simp]: "bt_insert k v m \<noteq> []"
  by (cases "(k, v, m)" rule: bt_insert.cases) auto

lemma distinct_vals_insert:
  "distinct (map snd m) \<Longrightarrow> v \<notin> snd ` set m \<Longrightarrow> distinct (map snd (bt_insert k v m))"
proof (induction k v m rule: bt_insert.induct)
  case (2 k v a b m)
  then show ?case using set_bt_insert_vals [of k v m] by auto
qed simp

lemma distinct_vals_remove: "distinct (map snd m) \<Longrightarrow> distinct (map snd (bt_remove k m))"
proof (induction k m rule: bt_remove.induct)
  case (2 k a b m)
  then show ?case using set_bt_remove [of k m] by (auto simp: image_iff)
qed simp

lemma reg_ok_new: "reg_ok procs_new"
  by (simp add: reg_ok_def procs_new_def)

lemma reg_ok_notify [simp]: "reg_ok (notify n r) = reg_ok r"
  by (simp add: reg_ok_def)

lemma reg_ok_insert:
  assumes "reg_ok r"
  shows "reg_ok (procs_insert i (length (reg_heap r)) (r\<lparr>reg_heap := reg_heap r @ [p]\<rparr>))"
proof -
  have "snd ` set (bt_insert i (length (reg_heap r)) (reg_procs r)) \<subseteq>
      insert (length (reg_heap r)) (snd ` set (reg_procs r))"
    by (rule set_bt_insert_vals)
  moreover have "length (reg_heap r) \<notin> snd ` set (reg_procs r)" using assms by (auto simp: reg_ok_def)
  ultimately show ?thesis
    using assms by (fastforce simp: reg_ok_def procs_insert_def bt_wf_insert intro: distinct_vals_insert)
qed

lemma reg_ok_set_shutdown: "reg_ok r \<Longrightarrow> reg_ok (set_shutdown st r)"
  by (auto simp: reg_ok_def)

lemma reg_ok_check_idling:
  assumes "bt_wf (reg_procs r)" "\<forall>a \<in> snd ` set (reg_procs r). a < length (reg_heap r)" "distinct (map snd (reg_procs r))"
  shows "reg_ok (check_idling r)"
  using assms by (auto simp: reg_ok_def)

lemma reg_ok_forget_all: "reg_ok (forget_all r)"
  unfolding forget_all_def by (rule reg_ok_check_idling) simp_all

lemma reg_ok_remove:
  assumes "reg_ok r" "remove_if_not_running i r = (res, r')"
  shows "reg_ok r'"
proof -
  have "reg_ok (check_idling (r\<lparr>reg_procs := bt_remove i (reg_procs r)\<rparr>))"
    using assms(1) set_bt_remove [of i "reg_procs r"]
    by (intro reg_ok_check_idling) (auto simp: reg_ok_def bt_wf_remove distinct_vals_remove)
  with assms show ?thesis
    by (auto simp: remove_if_not_running_def split: option.splits if_splits)
qed

lemma reg_ok_pop:
  assumes "reg_ok r" "procs_pop r = (res, r')"
  shows "reg_ok r'"
proof (cases "reg_procs r")
  case Nil
  with assms show ?thesis by (auto simp: procs_pop_def reg_ok_def)
next
  case (Cons e rest)
  with assms(1) have "reg_ok (check_idling (notify (NotiDelete (fst e)) (r\<lparr>reg_procs := rest\<rparr>)))"
    by (intro reg_ok_check_idling) (auto simp: reg_ok_def bt_wf_def)
  with Cons assms(2) show ?thesis by (cases e) (simp add: procs_pop_def)
qed

section \<open>A subscriber can follow the registry\<close>

text \<open>The operations of the registry, as the tasks and handlers call them.\<close>

datatype reg_op =
    OpStart proc_id proc
  | OpRemove proc_id
  | OpPop
  | OpForget
  | OpShutdown shutdown_state
  | OpNotRunning proc_id
  | OpSubscribe

fun apply_op :: "registry \<Rightarrow> reg_op \<Rightarrow> registry" where
  "apply_op r (OpStart i p) = procs_insert i (length (reg_heap r)) (r\<lparr>reg_heap := reg_heap r @ [p]\<rparr>)"
| "apply_op r (OpRemove i) = snd (remove_if_not_running i r)"
| "apply_op r OpPop = snd (procs_pop r)"
| "apply_op r OpForget = forget_all r"
| "apply_op r (OpShutdown st) = set_shutdown st r"
| "apply_op r (OpNotRunning i) = notify (NotiNotRunning i) r"
| "apply_op r OpSubscribe = snd (subscribe r)"

definition run_ops :: "reg_op list \<Rightarrow> registry \<Rightarrow> registry" where
  "run_ops ops r = foldl apply_op r ops"

text \<open>What the notifications say: the IDs that exist, and the shutdown state.\<close>

fun note_ids :: "proc_id set \<Rightarrow> notification \<Rightarrow> proc_id set" where
  "note_ids ids (NotiStart i) = insert i ids"
| "note_ids ids (NotiDelete i) = ids - {i}"
| "note_ids ids _ = ids"

fun note_shutdown :: "shutdown_state \<Rightarrow> notification \<Rightarrow> shutdown_state" where
  "note_shutdown st (NotiShutDown st') = st'"
| "note_shutdown st _ = st"

definition reg_ids :: "registry \<Rightarrow> proc_id set" where
  "reg_ids r = set (get_proc_ids r)"

lemma keys_insert: "fst ` set (bt_insert k v m) = insert k (fst ` set m)"
  by (rule set_bt_insert)

lemma keys_remove: "bt_wf m \<Longrightarrow> fst ` set (bt_remove k m) = fst ` set m - {k}"
proof (induction k m rule: bt_remove.induct)
  case (2 k a b m)
  then have "a \<notin> fst ` set m" "bt_wf m" by (auto simp: bt_wf_Cons)
  with "2.IH" show ?case by auto
qed simp

lemma note_deletes:
  "foldl note_ids ids (map (NotiDelete \<circ> fst) m) = ids - fst ` set m"
  "foldl note_shutdown st (map (NotiDelete \<circ> fst) m) = st"
  by (induction m arbitrary: ids) auto

definition followed :: "registry \<Rightarrow> registry \<Rightarrow> bool" where
  "followed r r' \<longleftrightarrow> reg_ok r' \<and> 0 < reg_receivers r' \<and>
     (\<exists>ns. reg_log r' = reg_log r @ ns \<and> reg_ids r' = foldl note_ids (reg_ids r) ns \<and>
           reg_shutdown r' = foldl note_shutdown (reg_shutdown r) ns)"

lemma followed_trans: "followed r r' \<Longrightarrow> followed r' r'' \<Longrightarrow> followed r r''"
  by (auto simp: followed_def)

lemma apply_op_ok: "reg_ok r \<Longrightarrow> reg_ok (apply_op r op)"
proof (cases op)
  case (OpRemove i)
  then show "reg_ok r \<Longrightarrow> ?thesis" using reg_ok_remove [of r i] by (cases "remove_if_not_running i r") auto
next
  case OpPop
  then show "reg_ok r \<Longrightarrow> ?thesis" using reg_ok_pop [of r] by (cases "procs_pop r") auto
qed (auto simp: reg_ok_insert reg_ok_set_shutdown reg_ok_forget_all, simp add: reg_ok_def subscribe_def)

lemma apply_op_followed:
  assumes "reg_ok r" "0 < reg_receivers r"
  shows "followed r (apply_op r op)"
proof -
  have ok: "reg_ok (apply_op r op)" using assms(1) by (rule apply_op_ok)
  have wf: "bt_wf (reg_procs r)" using assms(1) by (simp add: reg_ok_def)
  note s = reg_ids_def get_proc_ids_def bt_keys_def log_simps
  show ?thesis
  proof (cases op)
    case (OpStart i p)
    with ok assms(2) show ?thesis
      by (simp add: followed_def procs_insert_def s keys_insert)
  next
    case (OpRemove i)
    show ?thesis
    proof (cases "\<exists>a. procs_get r i = Some a \<and> get_state (proc_at r a) \<noteq> Running")
      case True
      with OpRemove ok assms(2) wf show ?thesis
        by (auto simp: followed_def remove_if_not_running_def s keys_remove)
    next
      case False
      then have "snd (remove_if_not_running i r) = r"
        by (auto simp: remove_if_not_running_def split: option.split)
      with OpRemove ok assms(2) show ?thesis by (simp add: followed_def)
    qed
  next
    case OpPop
    with ok assms wf show ?thesis
      by (cases "reg_procs r"; cases "hd (reg_procs r)")
        (auto simp: followed_def procs_pop_def s reg_ok_def bt_wf_Cons)
  next
    case OpForget
    with ok assms(2) show ?thesis
      by (auto simp: followed_def forget_all_def s note_deletes)
  next
    case (OpShutdown st)
    with ok assms(2) show ?thesis by (auto simp: followed_def s)
  next
    case (OpNotRunning i)
    with ok assms(2) show ?thesis by (simp add: followed_def s)
  next
    case OpSubscribe
    with ok assms(2) show ?thesis by (simp add: followed_def subscribe_def s)
  qed
qed

text \<open>
  C10 The notifications tell the whole story: from any moment a client is subscribed, whatever operations
  follow, replaying the notifications sent since gives exactly the IDs in the registry and its shutdown
  state; and the registry stays well formed, in particular never empty while idling.
\<close>

theorem registry_followed:
  assumes "reg_ok r" "0 < reg_receivers r"
  shows "\<exists>ns. reg_log (run_ops ops r) = reg_log r @ ns \<and>
    reg_ids (run_ops ops r) = foldl note_ids (reg_ids r) ns \<and>
    reg_shutdown (run_ops ops r) = foldl note_shutdown (reg_shutdown r) ns \<and> reg_ok (run_ops ops r)"
proof -
  have "followed r (run_ops ops r)"
    using assms
  proof (induction ops arbitrary: r)
    case Nil
    then show ?case by (simp add: run_ops_def followed_def)
  next
    case (Cons op ops)
    from Cons.prems have f: "followed r (apply_op r op)" by (rule apply_op_followed)
    then have "followed (apply_op r op) (run_ops ops (apply_op r op))"
      by (intro Cons.IH) (auto simp: followed_def)
    with f show ?case by (auto simp: run_ops_def intro: followed_trans)
  qed
  then show ?thesis by (auto simp: followed_def)
qed

definition sample_proc :: proc where
  "sample_proc = proc_new 100 None None False 0 0 []"

theorem registry_followed_witness:
  "\<exists>ns. reg_log (run_ops [OpStart ''a'' sample_proc, OpShutdown Idling, OpPop] (snd (subscribe procs_new))) = ns \<and>
     foldl note_ids {} ns = {} \<and> foldl note_shutdown Active ns = Done"
proof -
  let ?r = "snd (subscribe procs_new)" let ?ops = "[OpStart ''a'' sample_proc, OpShutdown Idling, OpPop]"
  have ok: "reg_ok ?r" "0 < reg_receivers ?r" using reg_ok_new by (simp_all add: reg_ok_def subscribe_def)
  have "reg_ids ?r = {}" "reg_log ?r = []" "reg_shutdown ?r = Active"
    by (simp_all add: subscribe_def procs_new_def reg_ids_def get_proc_ids_def bt_keys_def)
  moreover have "reg_ids (run_ops ?ops ?r) = {}" "reg_shutdown (run_ops ?ops ?r) = Done"
    by (simp_all add: run_ops_def procs_insert_def subscribe_def procs_new_def procs_pop_def reg_ids_def
        get_proc_ids_def bt_keys_def)
  ultimately show ?thesis
    using registry_followed [OF ok, of ?ops] by auto
qed

end
