(* ===== verification/Tasks.thy ===== *)
theory Tasks
  imports Procs
begin

text \<open>
  The tasks of \<open>src/procs.rs\<close> that act on a registered process, and their interleaving.  \<open>run_proc\<close> has
  two parts: the reader of the error pipe, which appends to the proc's errors, and \<open>wait_for_proc\<close>,
  which on every SIGCHLD looks whether its process has terminated, then marks it reaped, finalizes its
  systemd units, and records the exit; when both are over, \<open>NotRunning\<close> is notified.  The capture
  task of a descriptor appends what it reads to the buffer of the process.  \<open>wait_running\<close> and \<open>wait_idle\<close>
  are the loops that wait on the notifications.  Tasks run interleaved at their awaits: one step of
  \<open>task_step\<close> is what one of them does between two awaits, \<open>world_step\<close> what wakes them, and \<open>sys_step\<close> has
  both and what the rest of the program does to the registry.
\<close>

section \<open>Waiting for the process\<close>

record pending_exit =
  pe_wait_info :: wait_info
  pe_proc_stat :: "proc_stat option"
  pe_stop_time :: int
  pe_stop_instant :: nat

text \<open>
  What happens on a SIGCHLD, up to the next await: a snapshot of \<open>/proc/<pid>/stat\<close>, then a nonblocking
  wait, which makes one attempt.
\<close>

definition wait_check :: "'k host \<Rightarrow> pid_t \<Rightarrow> 'k \<Rightarrow> (pending_exit option, error) outcome \<times> 'k" where
  "wait_check H pid =
     bind (read_stat H pid) (\<lambda>stat k.
       case wait 1 (h_kernel H) pid False k of
         Some (Ok (Some info), k') \<Rightarrow>
           (Ok (Some \<lparr>pe_wait_info = info, pe_proc_stat = stat, pe_stop_time = h_utc H k',
                      pe_stop_instant = h_instant H k'\<rparr>), k')
       | Some (Ok None, k') \<Rightarrow> (Ok None, k')
       | Some (_, k') \<Rightarrow> (Panic, k')
       | None \<Rightarrow> (Panic, k))"

definition update_proc :: "addr \<Rightarrow> (proc \<Rightarrow> proc) \<Rightarrow> registry \<Rightarrow> registry" where
  "update_proc a f r = r\<lparr>reg_heap := (reg_heap r)[a := f (reg_heap r ! a)]\<rparr>"

definition mark_reaped :: "addr \<Rightarrow> registry \<Rightarrow> registry" where
  "mark_reaped a = update_proc a (\<lambda>p. p\<lparr>p_reaped := True\<rparr>)"

text \<open>The last part, after the units are final: what is recorded; the assertion panics on a second exit.\<close>

definition record_of :: "pending_exit \<Rightarrow> units_final \<Rightarrow> proc \<Rightarrow> proc" where
  "record_of pe fin p = p
     \<lparr>p_wait_info := Some (pe_wait_info pe), p_proc_stat := pe_proc_stat pe,
      p_cgroup_accounting := uf_cgroup_accounting fin, p_scope_result := uf_scope_result fin,
      p_cleanup_incomplete := uf_cleanup_incomplete fin, p_stop_time := Some (pe_stop_time pe),
      p_elapsed := Some (pe_stop_instant pe - p_start_instant p)\<rparr>"

definition record_exit :: "addr \<Rightarrow> pending_exit \<Rightarrow> units_final \<Rightarrow> registry \<Rightarrow> (unit, error) outcome \<times> registry" where
  "record_exit a pe fin r =
     (if p_wait_info (proc_at r a) \<noteq> None then (Panic, r)
      else (Ok (), update_proc a (record_of pe fin) r))"

text \<open>The error task: the messages read from the error pipe go to the proc's errors.\<close>

definition append_errors :: "addr \<Rightarrow> string list \<Rightarrow> registry \<Rightarrow> registry" where
  "append_errors a errors = update_proc a (\<lambda>p. p\<lparr>p_errors := p_errors p @ errors\<rparr>)"

text \<open>
  A piece that the capture task of the handler at index \<open>j\<close> has read: it goes to the handler's buffer.  The
  task runs as long as the pipe is open, also after the process has ended.
\<close>

definition capture :: "nat \<Rightarrow> byte list \<Rightarrow> proc \<Rightarrow> proc" where
  "capture j data p =
     (case p_fd_handlers p ! j of (n, h) \<Rightarrow>
        (case append_buf data h of
           Ok h' \<Rightarrow> p\<lparr>p_fd_handlers := (p_fd_handlers p)[j := (n, h')]\<rparr>
         | _ \<Rightarrow> p))"

lemma capture_simps [simp]:
  "p_wait_info (capture j data p) = p_wait_info p" "p_reaped (capture j data p) = p_reaped p"
  "p_errors (capture j data p) = p_errors p" "p_pid (capture j data p) = p_pid p"
  "p_stop_time (capture j data p) = p_stop_time p" "p_elapsed (capture j data p) = p_elapsed p"
  "p_proc_stat (capture j data p) = p_proc_stat p" "p_cgroup_accounting (capture j data p) = p_cgroup_accounting p"
  "p_scope_result (capture j data p) = p_scope_result p" "p_cleanup_incomplete (capture j data p) = p_cleanup_incomplete p"
  by (simp_all add: capture_def split: prod.split outcome.split)

datatype task_phase = Waiting | Finalizing pending_exit | Exited | Crashed

text \<open>
  The task of a process: its ID and the process; whether a SIGCHLD has come that its receiver has not
  looked at; whether all writing ends of its error pipe are closed; whether the error task is over; and how
  far \<open>wait_for_proc\<close> is.
\<close>

record task =
  t_id :: proc_id
  t_addr :: addr
  t_woken :: bool
  t_errors_eof :: bool
  t_errors_done :: bool
  t_phase :: task_phase

text \<open>The task as \<open>start_procs\<close> spawns it.\<close>

definition new_task :: "proc_id \<Rightarrow> addr \<Rightarrow> task" where
  "new_task i a = \<lparr>t_id = i, t_addr = a, t_woken = False, t_errors_eof = False, t_errors_done = False,
     t_phase = Waiting\<rparr>"

lemma new_task_simps [simp]:
  "t_id (new_task i a) = i" "t_addr (new_task i a) = a" "t_phase (new_task i a) = Waiting"
  "\<not> t_errors_done (new_task i a)" "\<not> t_woken (new_task i a)" "\<not> t_errors_eof (new_task i a)"
  by (simp_all add: new_task_def)

section \<open>Waiting for all processes\<close>

datatype wait_kind = WaitRunning | WaitIdle

record waiter =
  wt_kind :: wait_kind
  wt_pos :: nat
  wt_target :: "proc_id option"

fun wait_pick :: "wait_kind \<Rightarrow> registry \<Rightarrow> (proc_id \<times> addr) option" where
  "wait_pick WaitRunning r = first_running r"
| "wait_pick WaitIdle r = procs_first r"

fun wait_matches :: "wait_kind \<Rightarrow> proc_id \<Rightarrow> notification \<Rightarrow> bool" where
  "wait_matches WaitRunning i n = (n = NotiNotRunning i \<or> n = NotiDelete i)"
| "wait_matches WaitIdle i n = (n = NotiDelete i)"

text \<open>One step of the loop: done, still waiting for a notification, or on to the next state.\<close>

datatype wait_progress = WaitDone | WaitPending | WaitPanic | WaitNext waiter

definition wait_step :: "waiter \<Rightarrow> registry \<Rightarrow> wait_progress" where
  "wait_step w r =
     (case wt_target w of
        None \<Rightarrow> (case wait_pick (wt_kind w) r of
            None \<Rightarrow> WaitDone
          | Some (i, _) \<Rightarrow> WaitNext (w\<lparr>wt_target := Some i\<rparr>))
      | Some i \<Rightarrow> (case recv (wt_pos w) r of
            None \<Rightarrow> WaitPending
          | Some (Ok n, pos) \<Rightarrow>
              WaitNext (w\<lparr>wt_pos := pos, wt_target := (if wait_matches (wt_kind w) i n then None else Some i)\<rparr>)
          | Some (_, _) \<Rightarrow> WaitPanic))"

section \<open>The system\<close>

record sys =
  s_reg :: registry
  s_tasks :: "task list"
  s_waiter :: "waiter option"

definition sys_init :: sys where
  "sys_init = \<lparr>s_reg = procs_new, s_tasks = [], s_waiter = None\<rparr>"

definition remove_nth :: "nat \<Rightarrow> 'a list \<Rightarrow> 'a list" where
  "remove_nth n xs = take n xs @ drop (Suc n) xs"

definition set_task :: "nat \<Rightarrow> task \<Rightarrow> sys \<Rightarrow> sys" where
  "set_task n t s = s\<lparr>s_tasks := (s_tasks s)[n := t]\<rparr>"

definition set_reg :: "registry \<Rightarrow> sys \<Rightarrow> sys" where
  "set_reg r s = s\<lparr>s_reg := r\<rparr>"

text \<open>What \<open>Proc::new\<close> leaves open until the process has exited; its errors may be set.\<close>

definition proc_fresh :: "proc \<Rightarrow> bool" where
  "proc_fresh p \<longleftrightarrow> \<not> p_reaped p \<and> p_wait_info p = None \<and> p_proc_stat p = None \<and> p_cgroup_accounting p = None \<and>
     p_scope_result p = None \<and> \<not> p_cleanup_incomplete p \<and> p_stop_time p = None \<and> p_elapsed p = None"

lemma proc_fresh_new [simp]: "proc_fresh (proc_new pid sl sc en t n hs)" "proc_fresh (p\<lparr>p_errors := es\<rparr>) = proc_fresh p"
  by (simp_all add: proc_fresh_def proc_new_def)

lemma proc_freshD: "proc_fresh p \<Longrightarrow> p_wait_info p = None" "proc_fresh p \<Longrightarrow> \<not> p_reaped p"
  by (simp_all add: proc_fresh_def)

text \<open>
  The registration of a started process, as in \<open>start_procs\<close>: a new heap cell, the registry entry and
  its notification, and the task.
\<close>

definition spawn :: "proc_id \<Rightarrow> proc \<Rightarrow> sys \<Rightarrow> sys" where
  "spawn i p s =
     (let a = length (reg_heap (s_reg s)) in
      s\<lparr>s_reg := procs_insert i a ((s_reg s)\<lparr>reg_heap := reg_heap (s_reg s) @ [p]\<rparr>),
        s_tasks := s_tasks s @ [new_task i a]\<rparr>)"

text \<open>
  The steps of the tasks of the process at address \<open>a\<close>.  The host's state \<open>k\<close> changes freely between steps;
  what a task sees of it is what its own calls return.  The waiting task looks at its process only after a
  SIGCHLD, and a look that finds the process running uses the SIGCHLD up; the error task ends at the end of
  the error pipe.
\<close>

inductive task_step :: "'k host \<Rightarrow> 'k systemd option \<Rightarrow> addr \<Rightarrow> sys \<Rightarrow> sys \<Rightarrow> bool"
  for H :: "'k host" and S :: "'k systemd option" where
  ErrorsRead: "n < length (s_tasks s) \<Longrightarrow> s_tasks s ! n = t \<Longrightarrow> \<not> t_errors_done t \<Longrightarrow> t_errors_eof t \<Longrightarrow>
    task_step H S (t_addr t) s (set_task n (t\<lparr>t_errors_done := True\<rparr>) (set_reg (append_errors (t_addr t) errs (s_reg s)) s))"
| Captured: "a < length (reg_heap (s_reg s)) \<Longrightarrow> j < length (p_fd_handlers (proc_at (s_reg s) a)) \<Longrightarrow>
    task_step H S a s (set_reg (update_proc a (capture j data) (s_reg s)) s)"
| Reaped: "n < length (s_tasks s) \<Longrightarrow> s_tasks s ! n = t \<Longrightarrow> t_phase t = Waiting \<Longrightarrow> t_woken t \<Longrightarrow>
    wait_check H (p_pid (proc_at (s_reg s) (t_addr t))) k = (Ok (Some pe), k') \<Longrightarrow>
    task_step H S (t_addr t) s
      (set_task n (t\<lparr>t_woken := False, t_phase := Finalizing pe\<rparr>) (set_reg (mark_reaped (t_addr t) (s_reg s)) s))"
| NotYet: "n < length (s_tasks s) \<Longrightarrow> s_tasks s ! n = t \<Longrightarrow> t_phase t = Waiting \<Longrightarrow> t_woken t \<Longrightarrow>
    wait_check H (p_pid (proc_at (s_reg s) (t_addr t))) k = (Ok None, k') \<Longrightarrow>
    task_step H S (t_addr t) s (set_task n (t\<lparr>t_woken := False\<rparr>) s)"
| CheckPanics: "n < length (s_tasks s) \<Longrightarrow> s_tasks s ! n = t \<Longrightarrow> t_phase t = Waiting \<Longrightarrow> t_woken t \<Longrightarrow>
    wait_check H (p_pid (proc_at (s_reg s) (t_addr t))) k = (Panic, k') \<Longrightarrow>
    task_step H S (t_addr t) s (set_task n (t\<lparr>t_phase := Crashed\<rparr>) s)"
| Recorded: "n < length (s_tasks s) \<Longrightarrow> s_tasks s ! n = t \<Longrightarrow> t_phase t = Finalizing pe \<Longrightarrow>
    finalize_units (h_read_file H) (p_slice (proc_at (s_reg s) (t_addr t))) (p_scope (proc_at (s_reg s) (t_addr t)))
      S \<infinity> w = (Some fin, w') \<Longrightarrow>
    record_exit (t_addr t) pe fin (s_reg s) = (Ok (), r) \<Longrightarrow>
    task_step H S (t_addr t) s (set_task n (t\<lparr>t_phase := Exited\<rparr>) (set_reg r s))"
| RecordPanics: "n < length (s_tasks s) \<Longrightarrow> s_tasks s ! n = t \<Longrightarrow> t_phase t = Finalizing pe \<Longrightarrow>
    record_exit (t_addr t) pe fin (s_reg s) = (Panic, r) \<Longrightarrow>
    task_step H S (t_addr t) s (set_task n (t\<lparr>t_phase := Crashed\<rparr>) (set_reg r s))"
| Finished: "n < length (s_tasks s) \<Longrightarrow> s_tasks s ! n = t \<Longrightarrow> t_errors_done t \<Longrightarrow> t_phase t \<in> {Exited, Crashed} \<Longrightarrow>
    task_step H S (t_addr t) s
      (s\<lparr>s_reg := notify (NotiNotRunning (t_id t)) (s_reg s), s_tasks := remove_nth n (s_tasks s)\<rparr>)"

text \<open>
  What the world outside does to the tasks: a SIGCHLD, of this or of any other child, reaches the receiver of
  a task, which is from before the fork; and the last writing end of an error pipe is closed.
\<close>

inductive world_step :: "sys \<Rightarrow> sys \<Rightarrow> bool" where
  SigChld: "n < length (s_tasks s) \<Longrightarrow> s_tasks s ! n = t \<Longrightarrow> world_step s (set_task n (t\<lparr>t_woken := True\<rparr>) s)"
| PipeCloses: "n < length (s_tasks s) \<Longrightarrow> s_tasks s ! n = t \<Longrightarrow> world_step s (set_task n (t\<lparr>t_errors_eof := True\<rparr>) s)"

text \<open>
  The steps of the system: those of the tasks and of the world, and those by which the rest of the program
  acts on the registry, in any order.  What the rest of the program does is not restricted here, so that what
  holds of all runs of this relation holds whatever the API, the agent and the handlers do.
\<close>

inductive sys_step :: "'k host \<Rightarrow> 'k systemd option \<Rightarrow> sys \<Rightarrow> sys \<Rightarrow> bool"
  for H :: "'k host" and S :: "'k systemd option" where
  Task: "task_step H S a s s' \<Longrightarrow> sys_step H S s s'"
| World: "world_step s s' \<Longrightarrow> sys_step H S s s'"
| Spawn: "proc_fresh p \<Longrightarrow> sys_step H S s (spawn i p s)"
| Removed: "remove_if_not_running i (s_reg s) = (res, r) \<Longrightarrow> sys_step H S s (set_reg r s)"
| Popped: "procs_pop (s_reg s) = (res, r) \<Longrightarrow> sys_step H S s (set_reg r s)"
| Collected: "collect_results H (s_reg s) k = Some (Ok res, r, k') \<Longrightarrow> sys_step H S s (set_reg r s)"
| Shutdown: "sys_step H S s (set_reg (set_shutdown st (s_reg s)) s)"
| Subscribed: "sys_step H S s (set_reg (snd (subscribe (s_reg s))) s)"
| Unsubscribed: "reg_receivers (s_reg s) > (if s_waiter s = None then 0 else 1) \<Longrightarrow>
    sys_step H S s (set_reg (unsubscribe (s_reg s)) s)"
| WaitStarts: "s_waiter s = None \<Longrightarrow> subscribe (s_reg s) = (pos, r) \<Longrightarrow>
    sys_step H S s (s\<lparr>s_reg := r, s_waiter := Some \<lparr>wt_kind = kind, wt_pos = pos, wt_target = None\<rparr>\<rparr>)"
| WaitSteps: "s_waiter s = Some w \<Longrightarrow> wait_step w (s_reg s) = WaitNext w' \<Longrightarrow>
    sys_step H S s (s\<lparr>s_waiter := Some w'\<rparr>)"
| WaitEnds: "s_waiter s = Some w \<Longrightarrow> wait_step w (s_reg s) \<in> {WaitDone, WaitPanic} \<Longrightarrow>
    sys_step H S s (s\<lparr>s_reg := unsubscribe (s_reg s), s_waiter := None\<rparr>)"

text \<open>The cases of a step, those of the tasks and of the world included; a step that only turns a flag on or off is one case.\<close>

definition same_task :: "task \<Rightarrow> task \<Rightarrow> bool" where
  "same_task t t' \<longleftrightarrow> t_id t' = t_id t \<and> t_addr t' = t_addr t \<and> t_phase t' = t_phase t"

lemma same_taskD:
  assumes "same_task t t'"
  shows "t_id t' = t_id t" "t_addr t' = t_addr t" "t_phase t' = t_phase t"
  using assms by (simp_all add: same_task_def)

lemma sys_cases:
  assumes "sys_step H S s s'"
  obtains
    (Spawn) p i where "s' = spawn i p s" "proc_fresh p"
  | (ErrorsRead) n t errs where
      "s' = set_task n (t\<lparr>t_errors_done := True\<rparr>) (set_reg (append_errors (t_addr t) errs (s_reg s)) s)"
      "n < length (s_tasks s)" "s_tasks s ! n = t" "\<not> t_errors_done t"
  | (Captured) a j data where "s' = set_reg (update_proc a (capture j data) (s_reg s)) s"
      "a < length (reg_heap (s_reg s))" "j < length (p_fd_handlers (proc_at (s_reg s) a))"
  | (Reaped) n t k pe k' where
      "s' = set_task n (t\<lparr>t_woken := False, t_phase := Finalizing pe\<rparr>) (set_reg (mark_reaped (t_addr t) (s_reg s)) s)"
      "n < length (s_tasks s)" "s_tasks s ! n = t" "t_phase t = Waiting"
      "wait_check H (p_pid (proc_at (s_reg s) (t_addr t))) k = (Ok (Some pe), k')"
  | (Flagged) n t t' where "s' = set_task n t' s" "n < length (s_tasks s)" "s_tasks s ! n = t" "same_task t t'"
  | (CheckPanics) n t k k' where "s' = set_task n (t\<lparr>t_phase := Crashed\<rparr>) s"
      "n < length (s_tasks s)" "s_tasks s ! n = t" "t_phase t = Waiting"
      "wait_check H (p_pid (proc_at (s_reg s) (t_addr t))) k = (Panic, k')"
  | (Recorded) n t pe w fin w' r where "s' = set_task n (t\<lparr>t_phase := Exited\<rparr>) (set_reg r s)"
      "n < length (s_tasks s)" "s_tasks s ! n = t" "t_phase t = Finalizing pe"
      "finalize_units (h_read_file H) (p_slice (proc_at (s_reg s) (t_addr t))) (p_scope (proc_at (s_reg s) (t_addr t)))
        S \<infinity> w = (Some fin, w')"
      "record_exit (t_addr t) pe fin (s_reg s) = (Ok (), r)"
  | (RecordPanics) n t pe fin r where "s' = set_task n (t\<lparr>t_phase := Crashed\<rparr>) (set_reg r s)"
      "n < length (s_tasks s)" "s_tasks s ! n = t" "t_phase t = Finalizing pe"
      "record_exit (t_addr t) pe fin (s_reg s) = (Panic, r)"
  | (Finished) n t where
      "s' = s\<lparr>s_reg := notify (NotiNotRunning (t_id t)) (s_reg s), s_tasks := remove_nth n (s_tasks s)\<rparr>"
      "n < length (s_tasks s)" "s_tasks s ! n = t" "t_errors_done t" "t_phase t \<in> {Exited, Crashed}"
  | (Removed) i res r where "s' = set_reg r s" "remove_if_not_running i (s_reg s) = (res, r)"
  | (Popped) res r where "s' = set_reg r s" "procs_pop (s_reg s) = (res, r)"
  | (Collected) k res r k' where "s' = set_reg r s" "collect_results H (s_reg s) k = Some (Ok res, r, k')"
  | (Shutdown) st where "s' = set_reg (set_shutdown st (s_reg s)) s"
  | (Subscribed) "s' = set_reg (snd (subscribe (s_reg s))) s"
  | (Unsubscribed) "s' = set_reg (unsubscribe (s_reg s)) s" "reg_receivers (s_reg s) > (if s_waiter s = None then 0 else 1)"
  | (WaitStarts) pos r kind where
      "s' = s\<lparr>s_reg := r, s_waiter := Some \<lparr>wt_kind = kind, wt_pos = pos, wt_target = None\<rparr>\<rparr>"
      "s_waiter s = None" "subscribe (s_reg s) = (pos, r)"
  | (WaitSteps) w w' where "s' = s\<lparr>s_waiter := Some w'\<rparr>" "s_waiter s = Some w" "wait_step w (s_reg s) = WaitNext w'"
  | (WaitEnds) w where "s' = s\<lparr>s_reg := unsubscribe (s_reg s), s_waiter := None\<rparr>"
      "s_waiter s = Some w" "wait_step w (s_reg s) \<in> {WaitDone, WaitPanic}"
  using assms
proof (cases rule: sys_step.cases)
  case (Task a)
  then show thesis
  proof (cases rule: task_step.cases)
    case ErrorsRead
    show thesis by (rule that(2)) (fact ErrorsRead)+
  next
    case Captured
    show thesis by (rule that(3)) (fact Captured)+
  next
    case Reaped
    show thesis by (rule that(4)) (fact Reaped)+
  next
    case (NotYet n t k k')
    then show thesis by (intro that(5) [of n "t\<lparr>t_woken := False\<rparr>" t]) (simp_all add: same_task_def)
  next
    case CheckPanics
    show thesis by (rule that(6)) (fact CheckPanics)+
  next
    case Recorded
    show thesis by (rule that(7)) (fact Recorded)+
  next
    case RecordPanics
    show thesis by (rule that(8)) (fact RecordPanics)+
  next
    case Finished
    show thesis by (rule that(9)) (fact Finished)+
  qed
next
  case World
  then show thesis
  proof (cases rule: world_step.cases)
    case (SigChld n t)
    then show thesis by (intro that(5) [of n "t\<lparr>t_woken := True\<rparr>" t]) (simp_all add: same_task_def)
  next
    case (PipeCloses n t)
    then show thesis by (intro that(5) [of n "t\<lparr>t_errors_eof := True\<rparr>" t]) (simp_all add: same_task_def)
  qed
next
  case Spawn
  show thesis by (rule that(1)) (fact Spawn)+
next
  case Removed
  show thesis by (rule that(10)) (fact Removed)+
next
  case Popped
  show thesis by (rule that(11)) (fact Popped)+
next
  case Collected
  show thesis by (rule that(12)) (fact Collected)+
next
  case Shutdown
  show thesis by (rule that(13)) (fact Shutdown)+
next
  case Subscribed
  show thesis by (rule that(14)) (fact Subscribed)+
next
  case Unsubscribed
  show thesis by (rule that(15)) (fact Unsubscribed)+
next
  case WaitStarts
  show thesis by (rule that(16)) (fact WaitStarts)+
next
  case WaitSteps
  show thesis by (rule that(17)) (fact WaitSteps)+
next
  case WaitEnds
  show thesis by (rule that(18)) (fact WaitEnds)+
qed

lemmas sys_task_intros =
  sys_step.Task [OF task_step.ErrorsRead] sys_step.Task [OF task_step.Reaped] sys_step.Task [OF task_step.CheckPanics]
  sys_step.Task [OF task_step.Recorded] sys_step.Task [OF task_step.Finished]

inductive sys_reach :: "'k host \<Rightarrow> 'k systemd option \<Rightarrow> sys \<Rightarrow> bool" for H S where
  init: "sys_reach H S sys_init"
| step: "sys_reach H S s \<Longrightarrow> sys_step H S s s' \<Longrightarrow> sys_reach H S s'"

text \<open>A run in which no waiting task has crashed yet.\<close>

definition crash_free :: "sys \<Rightarrow> bool" where
  "crash_free s \<longleftrightarrow> (\<forall>t \<in> set (s_tasks s). t_phase t \<noteq> Crashed)"

inductive calm_reach :: "'k host \<Rightarrow> 'k systemd option \<Rightarrow> sys \<Rightarrow> bool" for H S where
  init: "calm_reach H S sys_init"
| step: "calm_reach H S s \<Longrightarrow> sys_step H S s s' \<Longrightarrow> crash_free s' \<Longrightarrow> calm_reach H S s'"

lemma calm_reach_sys: "calm_reach H S s \<Longrightarrow> sys_reach H S s"
  by (induction rule: calm_reach.induct) (auto intro: sys_reach.intros)

section \<open>The invariant of the system\<close>

text \<open>
  Every task has its own process; what is recorded of the process agrees with the phase of its task;
  as long as no task has crashed, a registered process without an exit has a task that will record it.
\<close>

definition phase_ok :: "proc \<Rightarrow> task_phase \<Rightarrow> bool" where
  "phase_ok p ph \<longleftrightarrow>
     (case ph of
        Waiting \<Rightarrow> p_wait_info p = None \<and> \<not> p_reaped p
      | Finalizing pe \<Rightarrow> p_wait_info p = None \<and> p_reaped p
      | Exited \<Rightarrow> p_wait_info p \<noteq> None \<and> p_reaped p
      | Crashed \<Rightarrow> p_wait_info p = None \<and> \<not> p_reaped p)"

definition tasks_ok :: "registry \<Rightarrow> task list \<Rightarrow> bool" where
  "tasks_ok r ts \<longleftrightarrow> distinct (map t_addr ts) \<and>
     (\<forall>t \<in> set ts. t_addr t < length (reg_heap r) \<and> phase_ok (proc_at r (t_addr t)) (t_phase t))"

definition exit_pending :: "task list \<Rightarrow> proc_id \<Rightarrow> addr \<Rightarrow> bool" where
  "exit_pending ts i a \<longleftrightarrow> (\<exists>t \<in> set ts. t_id t = i \<and> t_addr t = a)"

definition linked :: "registry \<Rightarrow> task list \<Rightarrow> bool" where
  "linked r ts \<longleftrightarrow> (\<forall>(i, a) \<in> set (reg_procs r). p_wait_info (proc_at r a) = None \<longrightarrow> exit_pending ts i a)"

text \<open>The waiter holds a subscription, and what it waits for is still to come or still unread.\<close>

definition waiter_ok :: "sys \<Rightarrow> bool" where
  "waiter_ok s \<longleftrightarrow>
     (\<forall>w. s_waiter s = Some w \<longrightarrow>
        0 < reg_receivers (s_reg s) \<and> wt_pos w \<le> length (reg_log (s_reg s)) \<and>
        (\<forall>i. wt_target w = Some i \<longrightarrow>
           (\<exists>n \<in> set (drop (wt_pos w) (reg_log (s_reg s))). wait_matches (wt_kind w) i n) \<or>
           (\<exists>a. (i, a) \<in> set (reg_procs (s_reg s)) \<and>
              (wt_kind w = WaitRunning \<longrightarrow> exit_pending (s_tasks s) i a))))"

definition sys_ok :: "sys \<Rightarrow> bool" where
  "sys_ok s \<longleftrightarrow> reg_ok (s_reg s) \<and> tasks_ok (s_reg s) (s_tasks s) \<and> linked (s_reg s) (s_tasks s) \<and>
     crash_free s \<and> waiter_ok s"

text \<open>Reading the process table does not panic on this host: no line of \<open>/proc\<close> that the parser cannot read.\<close>

definition checks_safe :: "'k host \<Rightarrow> bool" where
  "checks_safe H \<longleftrightarrow> (\<forall>pid k. fst (wait_check H pid k) \<noteq> Panic)"

lemma set_simps [simp]:
  "s_reg (set_reg r s) = r" "s_tasks (set_reg r s) = s_tasks s" "s_waiter (set_reg r s) = s_waiter s"
  "s_reg (set_task n t s) = s_reg s" "s_tasks (set_task n t s) = (s_tasks s)[n := t]" "s_waiter (set_task n t s) = s_waiter s"
  by (simp_all add: set_reg_def set_task_def)

lemma update_proc_id [simp]: "update_proc a (\<lambda>p. p) r = r"
  by (cases "a < length (reg_heap r)") (simp_all add: update_proc_def)

lemma set_reg_same [simp]: "set_reg (s_reg s) s = s"
  by (simp add: set_reg_def)

lemma phase_ok_errors [simp]: "phase_ok (p\<lparr>p_errors := errs\<rparr>) ph = phase_ok p ph"
  by (simp add: phase_ok_def split: task_phase.split)

lemma proc_at_update: "a < length (reg_heap r) \<Longrightarrow> proc_at (update_proc a f r) b = (if a = b then f (proc_at r a) else proc_at r b)"
  by (auto simp: proc_at_def update_proc_def nth_list_update)

lemma update_proc_simps [simp]:
  "reg_procs (update_proc a f r) = reg_procs r" "length (reg_heap (update_proc a f r)) = length (reg_heap r)"
  "reg_log (update_proc a f r) = reg_log r" "reg_receivers (update_proc a f r) = reg_receivers r"
  "reg_shutdown (update_proc a f r) = reg_shutdown r"
  by (simp_all add: update_proc_def)

lemma proc_at_notify [simp]: "proc_at (notify n r) a = proc_at r a"
  by (simp add: proc_at_def)

lemma reg_ok_update [simp]: "reg_ok (update_proc a f r) = reg_ok r"
  by (simp add: reg_ok_def)

text \<open>The operations that only remove entries or send notifications.\<close>

definition shrinks :: "registry \<Rightarrow> registry \<Rightarrow> bool" where
  "shrinks r r' \<longleftrightarrow> reg_heap r' = reg_heap r \<and> set (reg_procs r') \<subseteq> set (reg_procs r) \<and>
     reg_receivers r' = reg_receivers r \<and> reg_ok r' \<and>
     (0 < reg_receivers r \<longrightarrow> (\<exists>ns. reg_log r' = reg_log r @ ns \<and>
        (\<forall>(i, a) \<in> set (reg_procs r) - set (reg_procs r'). NotiDelete i \<in> set ns)))"

lemma bt_remove_lost: "(j, a) \<in> set m \<Longrightarrow> (j, a) \<notin> set (bt_remove i m) \<Longrightarrow> j = i"
  by (induction i m rule: bt_remove.induct) (auto split: if_splits)

lemma shrinks_remove:
  assumes "reg_ok r" "remove_if_not_running i r = (res, r')"
  shows "shrinks r r'"
proof (cases "\<exists>a. procs_get r i = Some a \<and> get_state (proc_at r a) \<noteq> Running")
  case True
  then have r': "r' = notify (NotiDelete i) (check_idling (r\<lparr>reg_procs := bt_remove i (reg_procs r)\<rparr>))"
    using assms(2) by (auto simp: remove_if_not_running_def)
  show ?thesis
    using reg_ok_remove [OF assms] set_bt_remove [of i "reg_procs r"] bt_remove_lost [of _ _ "reg_procs r" i]
    by (auto simp: shrinks_def r' log_simps)
next
  case False
  then have "r' = r" using assms(2) by (auto simp: remove_if_not_running_def split: option.splits if_splits)
  with assms(1) show ?thesis by (simp add: shrinks_def)
qed

lemma shrinks_pop:
  assumes "reg_ok r" "procs_pop r = (res, r')"
  shows "shrinks r r'"
proof (cases "reg_procs r")
  case Nil
  with assms have "r' = r" by (auto simp: procs_pop_def check_idling_def reg_ok_def)
  with assms(1) show ?thesis by (simp add: shrinks_def)
next
  case (Cons e rest)
  obtain i a where e: "e = (i, a)" by (cases e)
  with Cons assms(2) have r': "r' = check_idling (notify (NotiDelete i) (r\<lparr>reg_procs := rest\<rparr>))"
    by (simp add: procs_pop_def)
  from reg_ok_pop [OF assms] Cons e show ?thesis by (auto simp: shrinks_def r' log_simps)
qed

lemma shrinks_forget: "shrinks r (forget_all r)"
  using reg_ok_forget_all [of r]
  by (auto simp: shrinks_def forget_all_def log_simps get_proc_ids_def bt_keys_def image_iff intro: rev_bexI)

lemma shrinks_shutdown: "reg_ok r \<Longrightarrow> shrinks r (set_shutdown st r)"
  by (auto simp: shrinks_def reg_ok_set_shutdown log_simps)

lemma shrinks_notify: "reg_ok r \<Longrightarrow> shrinks r (notify n r)"
  by (auto simp: shrinks_def log_simps)

lemma matches_delete: "wait_matches kind i (NotiDelete i)"
  by (cases kind) simp_all

text \<open>What a smaller registry keeps of the invariant.\<close>

lemma tasks_ok_heap: "tasks_ok r ts \<Longrightarrow> reg_heap r' = reg_heap r \<Longrightarrow> tasks_ok r' ts"
  by (simp add: tasks_ok_def proc_at_def)

lemma linked_shrinks: "linked r ts \<Longrightarrow> shrinks r r' \<Longrightarrow> linked r' ts"
  by (fastforce simp: linked_def shrinks_def proc_at_def)

lemma waiter_shrinks:
  assumes "waiter_ok s" "shrinks (s_reg s) r'"
  shows "waiter_ok (set_reg r' s)"
proof (cases "s_waiter s")
  case None
  then show ?thesis by (simp add: waiter_ok_def set_reg_def)
next
  case (Some w)
  with assms(1) have rc: "0 < reg_receivers (s_reg s)" "wt_pos w \<le> length (reg_log (s_reg s))"
    by (simp_all add: waiter_ok_def)
  with assms(2) obtain ns where ns: "reg_log r' = reg_log (s_reg s) @ ns"
      "\<forall>(i, a) \<in> set (reg_procs (s_reg s)) - set (reg_procs r'). NotiDelete i \<in> set ns"
    unfolding shrinks_def by blast
  have unread: "set (drop (wt_pos w) (reg_log r')) = set (drop (wt_pos w) (reg_log (s_reg s))) \<union> set ns"
    using rc(2) by (simp add: ns(1))
  have rec: "reg_receivers r' = reg_receivers (s_reg s)" using assms(2) by (simp add: shrinks_def)
  show ?thesis
  proof (cases "wt_target w")
    case None
    with Some rc rec ns(1) show ?thesis by (simp add: waiter_ok_def set_reg_def)
  next
    case t: (Some i)
    from assms(1) Some t consider
        (seen) "\<exists>n \<in> set (drop (wt_pos w) (reg_log (s_reg s))). wait_matches (wt_kind w) i n"
      | (live) a where "(i, a) \<in> set (reg_procs (s_reg s))" "wt_kind w = WaitRunning \<longrightarrow> exit_pending (s_tasks s) i a"
      by (auto simp: waiter_ok_def)
    then show ?thesis
    proof cases
      case seen
      with Some t rc rec ns(1) unread show ?thesis by (auto simp: waiter_ok_def set_reg_def)
    next
      case live
      show ?thesis
      proof (cases "(i, a) \<in> set (reg_procs r')")
        case True
        with live Some t rc rec ns(1) show ?thesis by (auto simp: waiter_ok_def set_reg_def)
      next
        case False
        with live(1) ns(2) have "NotiDelete i \<in> set (drop (wt_pos w) (reg_log r'))"
          unfolding unread by blast
        with matches_delete have "\<exists>n \<in> set (drop (wt_pos w) (reg_log r')). wait_matches (wt_kind w) i n"
          by blast
        with Some t rc rec ns(1) show ?thesis by (simp add: waiter_ok_def set_reg_def)
      qed
    qed
  qed
qed

lemma sys_ok_shrinks:
  assumes "sys_ok s" "shrinks (s_reg s) r'"
  shows "sys_ok (set_reg r' s)"
proof -
  from assms have "reg_ok r'" "reg_heap r' = reg_heap (s_reg s)" by (auto simp: shrinks_def)
  moreover have "linked r' (s_tasks s)" using assms by (auto simp: sys_ok_def intro: linked_shrinks)
  moreover have "waiter_ok (set_reg r' s)" using assms by (auto simp: sys_ok_def intro: waiter_shrinks)
  ultimately show ?thesis
    using assms(1) tasks_ok_heap [of "s_reg s" "s_tasks s" r'] by (auto simp: sys_ok_def crash_free_def set_reg_def)
qed

text \<open>A step of a task on its own process.\<close>

lemma exit_pending_update:
  assumes "n < length ts" "t_id t' = t_id (ts ! n)" "t_addr t' = t_addr (ts ! n)"
  shows "exit_pending (ts[n := t']) i a = exit_pending ts i a"
proof -
  have "map (\<lambda>t. (t_id t, t_addr t)) (ts[n := t']) = map (\<lambda>t. (t_id t, t_addr t)) ts"
    using assms by (simp add: map_update list_update_same_conv)
  then have "(\<lambda>t. (t_id t, t_addr t)) ` set (ts[n := t']) = (\<lambda>t. (t_id t, t_addr t)) ` set ts"
    by (metis set_map)
  moreover have "exit_pending us i a \<longleftrightarrow> (i, a) \<in> (\<lambda>t. (t_id t, t_addr t)) ` set us" for us
    by (auto simp: exit_pending_def image_iff)
  ultimately show ?thesis by simp
qed

lemma tasks_ok_task:
  assumes ok: "tasks_ok r ts" and n: "n < length ts" "ts ! n = t" and t': "t_addr t' = t_addr t"
    and f: "phase_ok (f (proc_at r (t_addr t))) (t_phase t')"
  shows "tasks_ok (update_proc (t_addr t) f r) (ts[n := t'])"
proof -
  let ?r = "update_proc (t_addr t) f r" let ?ts = "ts[n := t']"
  from ok have d: "distinct (map t_addr ts)"
    and each: "\<And>u. u \<in> set ts \<Longrightarrow> t_addr u < length (reg_heap r) \<and> phase_ok (proc_at r (t_addr u)) (t_phase u)"
    by (auto simp: tasks_ok_def)
  have a: "t_addr t < length (reg_heap r)" using n each by auto
  have addrs: "map t_addr ?ts = map t_addr ts"
    using n t' by (simp add: map_update list_update_same_conv)
  have others: "t_addr u \<noteq> t_addr t" if "u \<in> set ?ts" "u \<noteq> t'" for u
  proof -
    from that(1) obtain m where "m < length ts" "?ts ! m = u"
      by (auto simp: in_set_conv_nth)
    with that(2) n(1) have m: "m < length ts" "m \<noteq> n" "ts ! m = u"
      by (auto simp: nth_list_update split: if_splits)
    with d n(1) have "t_addr (ts ! m) \<noteq> t_addr (ts ! n)"
      by (metis length_map nth_eq_iff_index_eq nth_map)
    with m n show ?thesis by simp
  qed
  show ?thesis
    unfolding tasks_ok_def addrs
  proof (intro conjI ballI)
    show "distinct (map t_addr ts)" by (rule d)
    fix u assume u: "u \<in> set ?ts"
    show "t_addr u < length (reg_heap ?r)" using u a t' each set_update_subset_insert [of ts n t'] by auto
    show "phase_ok (proc_at ?r (t_addr u)) (t_phase u)"
    proof (cases "u = t'")
      case True
      with f t' a show ?thesis by (simp add: proc_at_update)
    next
      case False
      with u have "u \<in> set ts" using set_update_subset_insert [of ts n t'] by auto
      with each others [OF u False] a show ?thesis by (simp add: proc_at_update)
    qed
  qed
qed

lemma sys_ok_task:
  assumes ok: "sys_ok s" and n: "n < length (s_tasks s)" "s_tasks s ! n = t"
    and t': "t_id t' = t_id t" "t_addr t' = t_addr t" "t_phase t' \<noteq> Crashed"
    and f: "phase_ok (f (proc_at (s_reg s) (t_addr t))) (t_phase t')" "\<And>p. p_wait_info (f p) = None \<Longrightarrow> p_wait_info p = None"
  shows "sys_ok (set_task n t' (set_reg (update_proc (t_addr t) f (s_reg s)) s))"
proof -
  let ?r = "update_proc (t_addr t) f (s_reg s)" let ?ts = "(s_tasks s)[n := t']"
  from ok have nc: "\<And>u. u \<in> set (s_tasks s) \<Longrightarrow> t_phase u \<noteq> Crashed" and tok: "tasks_ok (s_reg s) (s_tasks s)"
    by (auto simp: sys_ok_def crash_free_def)
  then have a: "t_addr t < length (reg_heap (s_reg s))" using n by (auto simp: tasks_ok_def)
  have "tasks_ok ?r ?ts" using tasks_ok_task [where f = f] tok n t'(2) f(1) by blast
  moreover have "linked ?r ?ts"
    using ok a f(2) n t' by (auto simp: sys_ok_def linked_def proc_at_update exit_pending_update split: if_splits)
  moreover have "waiter_ok (set_task n t' (set_reg ?r s))"
    using ok n t' by (simp add: sys_ok_def waiter_ok_def set_task_def set_reg_def exit_pending_update)
  ultimately show ?thesis
    using ok nc t'(3) set_update_subset_insert [of "s_tasks s" n t']
    by (auto simp: sys_ok_def crash_free_def set_task_def set_reg_def)
qed

text \<open>A new process.\<close>

lemma bt_insert_entries:
  assumes "bt_wf m"
  shows "(j, b) \<in> set (bt_insert k v m) \<longleftrightarrow> (if j = k then b = v else (j, b) \<in> set m)"
  using bt_get_in_set [OF bt_wf_insert [OF assms], of k v j b] bt_get_in_set [OF assms, of j b]
  by (auto simp: bt_get_insert)

lemma proc_at_append: "a < length (reg_heap r) \<Longrightarrow> proc_at (procs_insert i b (r\<lparr>reg_heap := reg_heap r @ [p]\<rparr>)) a = proc_at r a"
  by (simp add: proc_at_def procs_insert_def nth_append)

lemma tasks_ok_spawn:
  assumes ok: "tasks_ok r ts" and p: "p_wait_info p = None" "\<not> p_reaped p"
  shows "tasks_ok (procs_insert i (length (reg_heap r)) (r\<lparr>reg_heap := reg_heap r @ [p]\<rparr>))
    (ts @ [new_task i (length (reg_heap r))])"
proof -
  let ?a = "length (reg_heap r)"
  let ?r' = "procs_insert i ?a (r\<lparr>reg_heap := reg_heap r @ [p]\<rparr>)"
  let ?t = "new_task i ?a"
  from ok have d: "distinct (map t_addr ts)"
    and each: "\<And>u. u \<in> set ts \<Longrightarrow> t_addr u < ?a \<and> phase_ok (proc_at r (t_addr u)) (t_phase u)"
    by (auto simp: tasks_ok_def)
  have new: "proc_at ?r' ?a = p" by (simp add: proc_at_def procs_insert_def)
  show ?thesis
    unfolding tasks_ok_def
  proof (intro conjI ballI)
    show "distinct (map t_addr (ts @ [?t]))" using each d by (auto dest: less_not_refl2)
    fix u assume "u \<in> set (ts @ [?t])"
    then consider "u \<in> set ts" | "u = ?t" by auto
    then have "t_addr u < Suc ?a \<and> phase_ok (proc_at ?r' (t_addr u)) (t_phase u)"
    proof cases
      case 1
      then show ?thesis using each [OF 1] by (simp add: proc_at_append)
    next
      case 2
      then show ?thesis using new p by (simp add: phase_ok_def)
    qed
    then show "t_addr u < length (reg_heap ?r')" "phase_ok (proc_at ?r' (t_addr u)) (t_phase u)"
      by (simp_all add: procs_insert_def)
  qed
qed

lemma sys_ok_spawn:
  assumes ok: "sys_ok s" and p: "p_wait_info p = None" "\<not> p_reaped p"
  shows "sys_ok (spawn i p s)"
proof -
  let ?r = "s_reg s" let ?a = "length (reg_heap (s_reg s))"
  let ?r' = "procs_insert i ?a (?r\<lparr>reg_heap := reg_heap ?r @ [p]\<rparr>)"
  let ?t = "new_task i ?a"
  from ok have r: "reg_ok ?r" and tok: "tasks_ok ?r (s_tasks s)" by (auto simp: sys_ok_def)
  have wf: "bt_wf (reg_procs ?r)" and lt: "\<And>j b. (j, b) \<in> set (reg_procs ?r) \<Longrightarrow> b < ?a"
    using r by (force simp: reg_ok_def)+
  have procs: "(j, b) \<in> set (reg_procs ?r') \<longleftrightarrow> (if j = i then b = ?a else (j, b) \<in> set (reg_procs ?r))" for j b
    using bt_insert_entries [OF wf] by (simp add: procs_insert_def)
  have pend: "exit_pending (s_tasks s @ [?t]) j b \<longleftrightarrow> exit_pending (s_tasks s) j b \<or> j = i \<and> b = ?a" for j b
    by (auto simp: exit_pending_def)
  have "tasks_ok ?r' (s_tasks s @ [?t])" by (rule tasks_ok_spawn [OF tok p])
  moreover have "linked ?r' (s_tasks s @ [?t])"
    unfolding linked_def
  proof (intro ballI, clarify)
    fix j b assume e: "(j, b) \<in> set (reg_procs ?r')" and none: "p_wait_info (proc_at ?r' b) = None"
    show "exit_pending (s_tasks s @ [?t]) j b"
    proof (cases "j = i")
      case True
      with e show ?thesis by (simp add: procs pend)
    next
      case False
      with e have m: "(j, b) \<in> set (reg_procs ?r)" by (simp add: procs)
      with none have "p_wait_info (proc_at ?r b) = None" by (simp add: proc_at_append lt)
      with m ok show ?thesis by (auto simp: sys_ok_def linked_def pend)
    qed
  qed
  moreover have "waiter_ok (spawn i p s)"
    unfolding waiter_ok_def
  proof (intro allI impI)
    fix w assume "s_waiter (spawn i p s) = Some w"
    then have w: "s_waiter s = Some w" by (simp add: spawn_def Let_def)
    with ok have rc: "0 < reg_receivers ?r" "wt_pos w \<le> length (reg_log ?r)"
      by (auto simp: sys_ok_def waiter_ok_def)
    have log: "reg_log ?r' = reg_log ?r @ [NotiStart i]" using rc by (simp add: procs_insert_def log_notify)
    have "reg_receivers ?r' = reg_receivers ?r" by (simp add: procs_insert_def)
    moreover have "(\<exists>n \<in> set (drop (wt_pos w) (reg_log ?r')). wait_matches (wt_kind w) j n) \<or>
        (\<exists>a. (j, a) \<in> set (reg_procs ?r') \<and> (wt_kind w = WaitRunning \<longrightarrow> exit_pending (s_tasks s @ [?t]) j a))"
      if t: "wt_target w = Some j" for j
    proof -
      from ok w t consider "\<exists>n \<in> set (drop (wt_pos w) (reg_log ?r)). wait_matches (wt_kind w) j n"
        | a where "(j, a) \<in> set (reg_procs ?r)" "wt_kind w = WaitRunning \<longrightarrow> exit_pending (s_tasks s) j a"
        by (auto simp: sys_ok_def waiter_ok_def)
      then show ?thesis
      proof cases
        case 1
        with rc(2) log show ?thesis by auto
      next
        case 2
        then have "(j, if j = i then ?a else a) \<in> set (reg_procs ?r') \<and>
            (wt_kind w = WaitRunning \<longrightarrow> exit_pending (s_tasks s @ [?t]) j (if j = i then ?a else a))"
          by (simp add: procs pend)
        then show ?thesis by blast
      qed
    qed
    ultimately show "0 < reg_receivers (s_reg (spawn i p s)) \<and> wt_pos w \<le> length (reg_log (s_reg (spawn i p s))) \<and>
        (\<forall>j. wt_target w = Some j \<longrightarrow>
           (\<exists>n \<in> set (drop (wt_pos w) (reg_log (s_reg (spawn i p s)))). wait_matches (wt_kind w) j n) \<or>
           (\<exists>a. (j, a) \<in> set (reg_procs (s_reg (spawn i p s))) \<and>
              (wt_kind w = WaitRunning \<longrightarrow> exit_pending (s_tasks (spawn i p s)) j a)))"
      using rc log by (simp add: spawn_def Let_def)
  qed
  ultimately show ?thesis
    using ok reg_ok_insert [OF r, of i p] by (auto simp: sys_ok_def crash_free_def spawn_def Let_def)
qed

text \<open>A change of a process that concerns neither its wait nor its exit.\<close>

lemma phase_ok_same: "p_wait_info q = p_wait_info p \<Longrightarrow> p_reaped q = p_reaped p \<Longrightarrow> phase_ok q ph = phase_ok p ph"
  by (simp add: phase_ok_def split: task_phase.split)

lemma tasks_ok_proc:
  assumes "tasks_ok r ts" "a < length (reg_heap r)" "\<And>p. p_wait_info (f p) = p_wait_info p \<and> p_reaped (f p) = p_reaped p"
  shows "tasks_ok (update_proc a f r) ts"
proof -
  have same: "phase_ok (f p) ph = phase_ok p ph" for p ph
    using assms(3) by (intro phase_ok_same) simp_all
  show ?thesis using assms(1,2) by (simp add: tasks_ok_def proc_at_update same)
qed

lemma sys_ok_proc:
  assumes "sys_ok s" "a < length (reg_heap (s_reg s))" "\<And>p. p_wait_info (f p) = p_wait_info p \<and> p_reaped (f p) = p_reaped p"
  shows "sys_ok (set_reg (update_proc a f (s_reg s)) s)"
proof -
  have "tasks_ok (update_proc a f (s_reg s)) (s_tasks s)" using assms by (intro tasks_ok_proc) (auto simp: sys_ok_def)
  moreover have "linked (update_proc a f (s_reg s)) (s_tasks s)"
    using assms by (auto simp: sys_ok_def linked_def proc_at_update split: if_splits)
  ultimately show ?thesis using assms(1) by (simp add: sys_ok_def crash_free_def waiter_ok_def set_reg_def)
qed

text \<open>A task that is over.\<close>

lemma remove_nth_split: "n < length xs \<Longrightarrow> \<exists>ys zs. xs = ys @ xs ! n # zs \<and> remove_nth n xs = ys @ zs"
  by (metis id_take_nth_drop remove_nth_def)

lemma sys_ok_finished:
  assumes ok: "sys_ok s" and n: "n < length (s_tasks s)" "s_tasks s ! n = t" and ph: "t_phase t = Exited"
  shows "sys_ok (s\<lparr>s_reg := notify (NotiNotRunning (t_id t)) (s_reg s), s_tasks := remove_nth n (s_tasks s)\<rparr>)"
proof -
  let ?r = "s_reg s" let ?r' = "notify (NotiNotRunning (t_id t)) (s_reg s)"
  from remove_nth_split [OF n(1)] n(2) obtain ys zs where ts: "s_tasks s = ys @ t # zs" "remove_nth n (s_tasks s) = ys @ zs"
    by auto
  have done_: "p_wait_info (proc_at ?r (t_addr t)) \<noteq> None"
    using ok ts ph by (auto simp: sys_ok_def tasks_ok_def phase_ok_def)
  have pend: "exit_pending (ys @ zs) i a" if "exit_pending (s_tasks s) i a" "i \<noteq> t_id t \<or> a \<noteq> t_addr t" for i a
    using that by (auto simp: exit_pending_def ts)
  have "tasks_ok ?r' (ys @ zs)" using ok ts by (auto simp: sys_ok_def tasks_ok_def)
  moreover have "linked ?r' (ys @ zs)"
    using ok done_ pend by (fastforce simp: sys_ok_def linked_def)
  moreover have "waiter_ok (s\<lparr>s_reg := ?r', s_tasks := ys @ zs\<rparr>)"
    unfolding waiter_ok_def
  proof (intro allI impI)
    fix w assume "s_waiter (s\<lparr>s_reg := ?r', s_tasks := ys @ zs\<rparr>) = Some w"
    then have w: "s_waiter s = Some w" by simp
    with ok have rc: "0 < reg_receivers ?r" "wt_pos w \<le> length (reg_log ?r)"
      by (auto simp: sys_ok_def waiter_ok_def)
    have log: "reg_log ?r' = reg_log ?r @ [NotiNotRunning (t_id t)]" using rc by (simp add: log_notify)
    have "(\<exists>n \<in> set (drop (wt_pos w) (reg_log ?r')). wait_matches (wt_kind w) j n) \<or>
        (\<exists>a. (j, a) \<in> set (reg_procs ?r) \<and> (wt_kind w = WaitRunning \<longrightarrow> exit_pending (ys @ zs) j a))"
      if t: "wt_target w = Some j" for j
    proof -
      from ok w t consider "\<exists>n \<in> set (drop (wt_pos w) (reg_log ?r)). wait_matches (wt_kind w) j n"
        | a where "(j, a) \<in> set (reg_procs ?r)" "wt_kind w = WaitRunning \<longrightarrow> exit_pending (s_tasks s) j a"
        by (auto simp: sys_ok_def waiter_ok_def)
      then show ?thesis
      proof cases
        case 1
        with rc(2) log show ?thesis by auto
      next
        case 2
        show ?thesis
        proof (cases "j = t_id t \<and> wt_kind w = WaitRunning")
          case True
          with rc(2) log show ?thesis by simp
        next
          case False
          with 2 pend show ?thesis by auto
        qed
      qed
    qed
    with rc log show "0 < reg_receivers (s_reg (s\<lparr>s_reg := ?r', s_tasks := ys @ zs\<rparr>)) \<and>
        wt_pos w \<le> length (reg_log (s_reg (s\<lparr>s_reg := ?r', s_tasks := ys @ zs\<rparr>))) \<and>
        (\<forall>j. wt_target w = Some j \<longrightarrow>
           (\<exists>n \<in> set (drop (wt_pos w) (reg_log (s_reg (s\<lparr>s_reg := ?r', s_tasks := ys @ zs\<rparr>)))). wait_matches (wt_kind w) j n) \<or>
           (\<exists>a. (j, a) \<in> set (reg_procs (s_reg (s\<lparr>s_reg := ?r', s_tasks := ys @ zs\<rparr>))) \<and>
              (wt_kind w = WaitRunning \<longrightarrow> exit_pending (s_tasks (s\<lparr>s_reg := ?r', s_tasks := ys @ zs\<rparr>)) j a)))"
      by simp
  qed
  ultimately show ?thesis using ok ts by (auto simp: sys_ok_def crash_free_def)
qed


text \<open>Subscriptions, and the waiter itself.\<close>

lemma sys_ok_receivers:
  assumes "sys_ok s" "0 < n \<or> s_waiter s = None"
  shows "sys_ok (set_reg ((s_reg s)\<lparr>reg_receivers := n\<rparr>) s)"
  using assms by (auto simp: sys_ok_def crash_free_def set_reg_def reg_ok_def tasks_ok_def linked_def waiter_ok_def proc_at_def)

lemma sys_ok_no_waiter: "sys_ok s \<Longrightarrow> sys_ok (s\<lparr>s_reg := unsubscribe (s_reg s), s_waiter := None\<rparr>)"
  by (simp add: sys_ok_def crash_free_def reg_ok_def tasks_ok_def linked_def waiter_ok_def proc_at_def unsubscribe_def)

lemma first_running_in: "first_running r = Some (i, a) \<Longrightarrow> (i, a) \<in> set (reg_procs r) \<and> get_state (proc_at r a) = Running"
  by (auto simp: first_running_def find_Some_iff in_set_conv_nth)

lemma procs_first_in: "procs_first r = Some (i, a) \<Longrightarrow> (i, a) \<in> set (reg_procs r)"
  by (auto simp: procs_first_def split: list.splits)

lemma running_no_exit: "get_state p = Running \<Longrightarrow> p_wait_info p = None"
  by (auto simp: get_state_def split: if_splits)

lemma recv_next: "recv pos r = Some (Ok n, pos') \<Longrightarrow> pos < length (reg_log r) \<and> n = reg_log r ! pos \<and> pos' = pos + 1"
  by (auto simp: recv_def split: if_splits)

lemma sys_ok_wait_step:
  assumes ok: "sys_ok s" and w: "s_waiter s = Some w" and step: "wait_step w (s_reg s) = WaitNext w'"
  shows "sys_ok (s\<lparr>s_waiter := Some w'\<rparr>)"
proof -
  let ?r = "s_reg s"
  from ok w have rc: "0 < reg_receivers ?r" "wt_pos w \<le> length (reg_log ?r)"
    by (auto simp: sys_ok_def waiter_ok_def)
  have "waiter_ok (s\<lparr>s_waiter := Some w'\<rparr>)"
  proof (cases "wt_target w")
    case None
    with step obtain i a where pick: "wait_pick (wt_kind w) ?r = Some (i, a)" and w': "w' = w\<lparr>wt_target := Some i\<rparr>"
      by (auto simp: wait_step_def split: option.splits)
    have mem: "(i, a) \<in> set (reg_procs ?r)"
      using pick by (cases "wt_kind w") (auto dest: first_running_in procs_first_in)
    have "wt_kind w = WaitRunning \<Longrightarrow> exit_pending (s_tasks s) i a"
      using pick ok by (auto simp: sys_ok_def linked_def dest!: first_running_in running_no_exit)
    with mem rc w' show ?thesis by (auto simp: waiter_ok_def)
  next
    case (Some i)
    with step obtain n pos where r: "recv (wt_pos w) ?r = Some (Ok n, pos)"
      and w': "w' = w\<lparr>wt_pos := pos, wt_target := (if wait_matches (wt_kind w) i n then None else Some i)\<rparr>"
      by (auto simp: wait_step_def split: option.splits outcome.splits)
    from recv_next [OF r] have d: "drop (wt_pos w) (reg_log ?r) = n # drop pos (reg_log ?r)" "pos \<le> length (reg_log ?r)"
      by (auto simp: Cons_nth_drop_Suc)
    show ?thesis
    proof (cases "wait_matches (wt_kind w) i n")
      case True
      with w' rc d show ?thesis by (simp add: waiter_ok_def)
    next
      case False
      with ok w Some d have "(\<exists>n \<in> set (drop pos (reg_log ?r)). wait_matches (wt_kind w) i n) \<or>
          (\<exists>a. (i, a) \<in> set (reg_procs ?r) \<and> (wt_kind w = WaitRunning \<longrightarrow> exit_pending (s_tasks s) i a))"
        by (auto simp: sys_ok_def waiter_ok_def)
      with w' rc d False show ?thesis by (simp add: waiter_ok_def)
    qed
  qed
  with ok show ?thesis by (simp add: sys_ok_def crash_free_def)
qed

section \<open>Every step keeps the invariant\<close>

lemma sys_ok_init: "sys_ok sys_init"
  using reg_ok_new by (simp add: sys_ok_def crash_free_def sys_init_def tasks_ok_def linked_def waiter_ok_def procs_new_def)

lemma sys_ok_reg: "sys_ok s \<Longrightarrow> reg_ok (s_reg s)"
  by (simp add: sys_ok_def)

lemma sys_ok_phase:
  assumes "sys_ok s" "n < length (s_tasks s)" "s_tasks s ! n = t"
  shows "phase_ok (proc_at (s_reg s) (t_addr t)) (t_phase t)" "t_phase t \<noteq> Crashed"
  using assms by (auto simp: sys_ok_def crash_free_def tasks_ok_def)

lemma checks_safe_never: "checks_safe H \<Longrightarrow> wait_check H pid k \<noteq> (Panic, k')"
  by (metis checks_safe_def fst_conv)

lemma sys_ok_step:
  assumes "crash_free s'" "sys_ok s" "sys_step H S s s'"
  shows "sys_ok s'"
  using assms(3)
proof (cases rule: sys_cases)
  case (Spawn p i)
  with assms(2) show ?thesis by (simp add: sys_ok_spawn proc_freshD)
next
  case (ErrorsRead n t errs)
  with sys_ok_phase [OF assms(2) ErrorsRead(2,3)] show ?thesis
    unfolding ErrorsRead(1) append_errors_def
    by (intro sys_ok_task [OF assms(2) ErrorsRead(2,3)]) simp_all
next
  case (Captured a j data)
  with sys_ok_proc [OF assms(2) Captured(2), of "capture j data"] show ?thesis by simp
next
  case (Reaped n t k pe k')
  with sys_ok_phase [OF assms(2) Reaped(2,3)] show ?thesis
    unfolding Reaped(1) mark_reaped_def
    by (intro sys_ok_task [OF assms(2) Reaped(2,3)]) (simp_all add: phase_ok_def)
next
  case (Flagged n t t')
  with sys_ok_phase [OF assms(2) Flagged(2,3)] sys_ok_task [OF assms(2) Flagged(2,3), of t' "\<lambda>p. p"]
  show ?thesis by (simp add: same_taskD)
next
  case (CheckPanics n t k k')
  with assms(1) show ?thesis by (auto simp: crash_free_def dest: bspec [OF _ set_update_memI])
next
  case (Recorded n t pe w fin w' r)
  with sys_ok_phase [OF assms(2) Recorded(2,3)] have r: "r = update_proc (t_addr t) (record_of pe fin) (s_reg s)"
    by (simp add: record_exit_def record_of_def phase_ok_def)
  from sys_ok_phase [OF assms(2) Recorded(2,3)] Recorded show ?thesis
    unfolding Recorded(1) r
    by (intro sys_ok_task [OF assms(2) Recorded(2,3)]) (simp_all add: phase_ok_def record_of_def)
next
  case (RecordPanics n t pe fin r)
  with sys_ok_phase [OF assms(2) RecordPanics(2,3)] show ?thesis by (simp add: record_exit_def phase_ok_def)
next
  case (Finished n t)
  with sys_ok_phase [OF assms(2) Finished(2,3)] have "t_phase t = Exited" by simp
  with sys_ok_finished [OF assms(2) Finished(2,3)] Finished(1) show ?thesis by simp
next
  case (Removed i res r)
  with sys_ok_reg [OF assms(2)] show ?thesis by (metis assms(2) sys_ok_shrinks shrinks_remove)
next
  case (Popped res r)
  with sys_ok_reg [OF assms(2)] show ?thesis by (metis assms(2) sys_ok_shrinks shrinks_pop)
next
  case (Collected k res r k')
  then have "r = forget_all (s_reg s)"
    by (auto simp: collect_results_def Let_def split: option.splits prod.splits outcome.splits)
  with Collected(1) show ?thesis by (simp add: assms(2) sys_ok_shrinks shrinks_forget)
next
  case (Shutdown st)
  with sys_ok_reg [OF assms(2)] show ?thesis by (metis assms(2) sys_ok_shrinks shrinks_shutdown)
next
  case Subscribed
  with sys_ok_receivers [OF assms(2), of "reg_receivers (s_reg s) + 1"] show ?thesis by (simp add: subscribe_def)
next
  case Unsubscribed
  with sys_ok_receivers [OF assms(2), of "reg_receivers (s_reg s) - 1"] show ?thesis
    by (simp add: unsubscribe_def split: if_splits)
next
  case (WaitStarts pos r kind)
  then have r: "r = (s_reg s)\<lparr>reg_receivers := reg_receivers (s_reg s) + 1\<rparr>" "pos = length (reg_log (s_reg s))"
    by (auto simp: subscribe_def)
  have "sys_ok (set_reg r s)" unfolding r by (rule sys_ok_receivers [OF assms(2)]) simp
  then show ?thesis unfolding WaitStarts(1) by (simp add: sys_ok_def crash_free_def set_reg_def waiter_ok_def r)
next
  case (WaitSteps w w')
  with assms(2) show ?thesis by (simp add: sys_ok_wait_step)
next
  case (WaitEnds w)
  with assms(2) show ?thesis by (simp add: sys_ok_no_waiter)
qed

lemma calm_reach_ok: "calm_reach H S s \<Longrightarrow> sys_ok s"
  by (induction rule: calm_reach.induct) (auto intro: sys_ok_init sys_ok_step)

text \<open>Where no check panics, no task crashes.\<close>

lemma crash_free_task:
  "crash_free s \<Longrightarrow> t_phase t' \<noteq> Crashed \<Longrightarrow> crash_free (set_task n t' (set_reg r s))"
  using set_update_subset_insert [of "s_tasks s" n t'] by (auto simp: crash_free_def)

lemma crash_free_tasks: "crash_free s \<Longrightarrow> set (s_tasks s') \<subseteq> set (s_tasks s) \<Longrightarrow> crash_free s'"
  by (auto simp: crash_free_def)

lemma set_remove_nth: "set (remove_nth n ts) \<subseteq> set ts"
  by (auto simp: remove_nth_def dest: in_set_takeD in_set_dropD)

lemma crash_free_step:
  assumes "checks_safe H" "sys_ok s" "sys_step H S s s'"
  shows "crash_free s'"
proof -
  from assms(2) have free: "crash_free s" by (simp add: sys_ok_def)
  then have each: "n < length (s_tasks s) \<Longrightarrow> t_phase (s_tasks s ! n) \<noteq> Crashed" for n
    by (simp add: crash_free_def)
  from assms(3) show ?thesis
  proof (cases rule: sys_cases)
    case (Spawn p i)
    with free show ?thesis by (auto simp: crash_free_def spawn_def Let_def)
  next
    case (ErrorsRead n t errs)
    with each [of n] free show ?thesis by (auto intro: crash_free_task)
  next
    case (Reaped n t k pe k')
    with free show ?thesis by (auto intro: crash_free_task)
  next
    case (Flagged n t t')
    with each [of n] crash_free_task [OF free, of t' n "s_reg s"] show ?thesis by (simp add: same_taskD)
  next
    case (CheckPanics n t k k')
    with assms(1) show ?thesis by (simp add: checks_safe_never)
  next
    case (Recorded n t pe w fin w' r)
    with free show ?thesis by (auto intro: crash_free_task)
  next
    case (RecordPanics n t pe fin r)
    with sys_ok_phase [OF assms(2) RecordPanics(2,3)] show ?thesis by (simp add: record_exit_def phase_ok_def)
  next
    case (Finished n t)
    with free set_remove_nth [of n "s_tasks s"] show ?thesis by (intro crash_free_tasks [OF free]) simp
  qed (use free in \<open>auto intro: crash_free_tasks\<close>)
qed

lemma sys_reach_calm:
  assumes "sys_reach H S s" "checks_safe H"
  shows "calm_reach H S s"
  using assms(1)
proof (induction rule: sys_reach.induct)
  case init
  show ?case by (rule calm_reach.init)
next
  case (step s s')
  then show ?case using assms(2) by (blast intro: calm_reach.step crash_free_step calm_reach_ok)
qed

lemma sys_reach_ok: "sys_reach H S s \<Longrightarrow> checks_safe H \<Longrightarrow> sys_ok s"
  by (rule calm_reach_ok [OF sys_reach_calm])


section \<open>The properties of the tasks\<close>

text \<open>
  C11 No wakeup is lost: in every reachable state, a \<open>wait_running\<close> or \<open>wait_idle\<close> that is waiting for a
  notification waits for a process that is still registered and, in \<open>wait_running\<close>, whose task is still
  to notify; and when \<open>wait_running\<close> returns, no registered process is running, when \<open>wait_idle\<close>
  returns, none is registered.  This holds in every run in which no waiting task has crashed so far: after a
  panic in a check (\<open>crash_orphans\<close> below), a process without an exit has no task that would notify.
\<close>

theorem wait_not_lost:
  assumes "calm_reach H S s" "s_waiter s = Some w"
  shows "case wait_step w (s_reg s) of
      WaitPending \<Rightarrow> \<exists>i a. wt_target w = Some i \<and> procs_get (s_reg s) i = Some a \<and>
        (wt_kind w = WaitRunning \<longrightarrow> (\<exists>t \<in> set (s_tasks s). t_id t = i \<and> t_addr t = a))
    | WaitDone \<Rightarrow>
        (if wt_kind w = WaitIdle then reg_procs (s_reg s) = []
         else \<forall>(i, a) \<in> set (reg_procs (s_reg s)). get_state (proc_at (s_reg s) a) \<noteq> Running)
    | _ \<Rightarrow> True"
proof (cases "wait_step w (s_reg s)")
  case WaitPending
  have ok: "sys_ok s" using assms(1) by (rule calm_reach_ok)
  then have wf: "bt_wf (reg_procs (s_reg s))" by (simp add: sys_ok_def reg_ok_def)
  have w: "wt_pos w \<le> length (reg_log (s_reg s))"
    using ok assms(2) by (auto simp: sys_ok_def waiter_ok_def)
  from WaitPending obtain i where i: "wt_target w = Some i" "recv (wt_pos w) (s_reg s) = None"
    by (auto simp: wait_step_def split: option.splits prod.splits outcome.splits)
  then have "wt_pos w = length (reg_log (s_reg s))" using w by (auto simp: recv_def split: if_splits)
  with ok i assms(2) obtain a where "(i, a) \<in> set (reg_procs (s_reg s))"
      "wt_kind w = WaitRunning \<longrightarrow> exit_pending (s_tasks s) i a"
    by (auto simp: sys_ok_def waiter_ok_def)
  with i wf WaitPending show ?thesis by (auto simp: procs_get_def bt_get_in_set exit_pending_def)
next
  case WaitDone
  then show ?thesis
    by (cases "wt_kind w") (auto simp: wait_step_def first_running_def procs_first_def find_None_iff
        split: option.splits prod.splits outcome.splits list.splits)
qed simp_all


text \<open>The address book of the tasks is sound on every host, also when a task has crashed.\<close>

lemma heap_remove: "remove_if_not_running i r = (res, r') \<Longrightarrow> reg_heap r' = reg_heap r"
  by (auto simp: remove_if_not_running_def split: option.splits if_splits)

lemma heap_pop: "procs_pop r = (res, r') \<Longrightarrow> reg_heap r' = reg_heap r"
  by (auto simp: procs_pop_def split: list.splits)

lemma heap_collect: "collect_results H r k = Some (res, r', k') \<Longrightarrow> reg_heap r' = reg_heap r"
  by (auto simp: collect_results_def forget_all_def Let_def split: option.splits prod.splits outcome.splits)

lemma heap_subscribe: "subscribe r = (pos, r') \<Longrightarrow> reg_heap r' = reg_heap r"
  by (auto simp: subscribe_def)

lemma heap_unsubscribe [simp]: "reg_heap (unsubscribe r) = reg_heap r"
  by (simp add: unsubscribe_def)

lemma heap_subscribe_snd [simp]: "reg_heap (snd (subscribe r)) = reg_heap r"
  by (simp add: subscribe_def)

lemmas heap_same = heap_remove heap_pop heap_collect heap_subscribe

lemma tasks_ok_phase: "tasks_ok r ts \<Longrightarrow> n < length ts \<Longrightarrow> phase_ok (proc_at r (t_addr (ts ! n))) (t_phase (ts ! n))"
  by (simp add: tasks_ok_def)

lemma distinct_remove_nth: "n < length ts \<Longrightarrow> distinct (map f ts) \<Longrightarrow> distinct (map f (remove_nth n ts))"
  by (subst (asm) id_take_nth_drop [of n ts]) (auto simp: remove_nth_def)

lemma tasks_ok_remove: "tasks_ok r ts \<Longrightarrow> n < length ts \<Longrightarrow> tasks_ok r (remove_nth n ts)"
  using set_remove_nth [of n ts] by (auto simp: tasks_ok_def distinct_remove_nth)

lemma tasks_ok_step:
  assumes "tasks_ok (s_reg s) (s_tasks s)" "sys_step H S s s'"
  shows "tasks_ok (s_reg s') (s_tasks s')"
  using assms(2)
proof (cases rule: sys_cases)
  case (Spawn p i)
  with assms(1) show ?thesis by (simp add: spawn_def Let_def tasks_ok_spawn proc_freshD)
next
  case (ErrorsRead n t errs)
  with assms(1) tasks_ok_phase [OF assms(1), of n] show ?thesis
    unfolding append_errors_def by (auto intro!: tasks_ok_task)
next
  case (Captured a j data)
  with tasks_ok_proc [OF assms(1) Captured(2), of "capture j data"] show ?thesis by simp
next
  case (Reaped n t k pe k')
  with assms(1) tasks_ok_phase [OF assms(1), of n] show ?thesis
    unfolding mark_reaped_def by (auto simp: phase_ok_def intro!: tasks_ok_task)
next
  case (CheckPanics n t k k')
  with tasks_ok_task [OF assms(1) CheckPanics(2,3), of "t\<lparr>t_phase := Crashed\<rparr>" "\<lambda>p. p"]
    tasks_ok_phase [OF assms(1), of n] show ?thesis by (simp add: phase_ok_def)
next
  case (Flagged n t t')
  with tasks_ok_task [OF assms(1) Flagged(2,3), of t' "\<lambda>p. p"] tasks_ok_phase [OF assms(1), of n]
  show ?thesis by (simp add: same_taskD)
next
  case (Recorded n t pe w fin w' r)
  then have r: "r = update_proc (t_addr t) (record_of pe fin) (s_reg s)"
    by (simp add: record_exit_def split: if_splits)
  from Recorded tasks_ok_phase [OF assms(1), of n] assms(1) show ?thesis
    by (auto simp: r phase_ok_def record_of_def intro!: tasks_ok_task)
next
  case (RecordPanics n t pe fin r)
  with tasks_ok_phase [OF assms(1), of n] show ?thesis by (auto simp: record_exit_def phase_ok_def)
next
  case (Finished n t)
  with assms(1) show ?thesis by (simp add: tasks_ok_remove tasks_ok_heap)
qed (use assms(1) in \<open>auto simp: heap_same intro: tasks_ok_heap\<close>)

lemma sys_reach_tasks: "sys_reach H S s \<Longrightarrow> tasks_ok (s_reg s) (s_tasks s)"
proof (induction rule: sys_reach.induct)
  case init
  then show ?case by (simp add: sys_init_def tasks_ok_def)
qed (rule tasks_ok_step)

text \<open>A process whose waiting task is dead: nothing records its exit any more.\<close>

definition orphaned :: "addr \<Rightarrow> sys \<Rightarrow> bool" where
  "orphaned a s \<longleftrightarrow> a < length (reg_heap (s_reg s)) \<and> p_wait_info (proc_at (s_reg s) a) = None \<and>
     \<not> p_reaped (proc_at (s_reg s) a) \<and> (\<forall>t \<in> set (s_tasks s). t_addr t = a \<longrightarrow> t_phase t = Crashed)"

lemma orphaned_heap:
  "orphaned a s \<Longrightarrow> reg_heap (s_reg s') = reg_heap (s_reg s) \<Longrightarrow> set (s_tasks s') \<subseteq> set (s_tasks s) \<Longrightarrow> orphaned a s'"
  by (auto simp: orphaned_def proc_at_def)

lemma proc_at_update_in: "b < length (reg_heap r) \<Longrightarrow> proc_at (update_proc a f r) b = (if a = b then f (proc_at r b) else proc_at r b)"
  by (auto simp: proc_at_def update_proc_def nth_list_update)

lemma orphaned_task:
  assumes "orphaned a s" "n < length (s_tasks s)" "s_tasks s ! n = t" "t_addr t' = t_addr t"
    "t_addr t = a \<Longrightarrow> t_phase t' = Crashed \<and> (\<forall>p. p_wait_info (f p) = p_wait_info p \<and> p_reaped (f p) = p_reaped p)"
  shows "orphaned a (set_task n t' (set_reg (update_proc (t_addr t) f (s_reg s)) s))"
  using assms set_update_subset_insert [of "s_tasks s" n t']
  by (auto simp: orphaned_def proc_at_update_in)

lemma orphaned_step:
  assumes "orphaned a s" "sys_step H S s s'"
  shows "orphaned a s'"
  using assms(2)
proof (cases rule: sys_cases)
  case (Spawn p i)
  with assms(1) show ?thesis
    by (auto simp: orphaned_def spawn_def Let_def proc_at_append proc_freshD) (simp add: procs_insert_def)
next
  case (ErrorsRead n t errs)
  have "t_addr t = a \<Longrightarrow> t_phase t = Crashed" using assms(1) ErrorsRead by (auto simp: orphaned_def)
  with ErrorsRead assms(1) show ?thesis unfolding append_errors_def by (auto intro!: orphaned_task)
next
  case (Captured b j data)
  with assms(1) show ?thesis by (auto simp: orphaned_def proc_at_update)
next
  case (Reaped n t k pe k')
  then have "t_addr t \<noteq> a" using assms(1) by (auto simp: orphaned_def)
  with Reaped assms(1) show ?thesis unfolding mark_reaped_def by (auto intro!: orphaned_task)
next
  case (CheckPanics n t k k')
  with orphaned_task [OF assms(1) CheckPanics(2,3), of "t\<lparr>t_phase := Crashed\<rparr>" "\<lambda>p. p"]
  show ?thesis by (simp add: set_reg_def)
next
  case (Flagged n t t')
  then have "t_addr t = a \<Longrightarrow> t_phase t = Crashed" using assms(1) by (auto simp: orphaned_def)
  with orphaned_task [OF assms(1) Flagged(2,3), of t' "\<lambda>p. p"] Flagged
  show ?thesis by (simp add: set_reg_def same_taskD)
next
  case (Recorded n t pe w fin w' r)
  then have "t_addr t \<noteq> a" using assms(1) by (auto simp: orphaned_def)
  moreover from Recorded have "r = update_proc (t_addr t) (record_of pe fin) (s_reg s)"
    by (simp add: record_exit_def split: if_splits)
  ultimately show ?thesis using Recorded assms(1) by (auto intro!: orphaned_task)
next
  case (RecordPanics n t pe fin r)
  then have "r = s_reg s" by (simp add: record_exit_def split: if_splits)
  with RecordPanics orphaned_task [OF assms(1) RecordPanics(2,3), of "t\<lparr>t_phase := Crashed\<rparr>" "\<lambda>p. p"]
  show ?thesis by (simp add: set_reg_def)
next
  case (Finished n t)
  with assms(1) show ?thesis
    by (auto intro!: orphaned_heap [of a s] simp: remove_nth_def dest: in_set_takeD in_set_dropD)
qed (use assms(1) in \<open>auto intro: orphaned_heap simp: heap_same\<close>)


text \<open>
  C39 A panic while a process is checked (an error of \<open>wait4\<close>, or a line of \<open>/proc/<pid>/stat\<close> that cannot
  be parsed) loses the process: whatever happens later, its exit is never recorded and it is never
  reaped, so that it is shown as running, or as failed if it had errors, and a process without errors
  cannot be deleted.
\<close>

theorem crash_orphans:
  assumes "sys_reach H S s" "n < length (s_tasks s)" "s_tasks s ! n = t" "t_phase t = Waiting" "t_woken t"
    and "wait_check H (p_pid (proc_at (s_reg s) (t_addr t))) k = (Panic, k')"
  shows "\<exists>s1. task_step H S (t_addr t) s s1 \<and> (\<forall>s' i. (sys_step H S)\<^sup>*\<^sup>* s1 s' \<longrightarrow>
    p_wait_info (proc_at (s_reg s') (t_addr t)) = None \<and> \<not> p_reaped (proc_at (s_reg s') (t_addr t)) \<and>
    (p_errors (proc_at (s_reg s') (t_addr t)) = [] \<and> procs_get (s_reg s') i = Some (t_addr t) \<longrightarrow>
       remove_if_not_running i (s_reg s') = (Err (ProcRunning i), s_reg s')))"
proof -
  let ?t1 = "t\<lparr>t_phase := Crashed\<rparr>" let ?s1 = "set_task n (t\<lparr>t_phase := Crashed\<rparr>) s"
  have tok: "tasks_ok (s_reg s) (s_tasks s)" using assms(1) by (rule sys_reach_tasks)
  then have only: "u = ?t1" if "u \<in> set ((s_tasks s)[n := ?t1])" "t_addr u = t_addr t" for u
    using that assms(2,3)
    by (auto simp: tasks_ok_def in_set_conv_nth nth_list_update distinct_conv_nth split: if_splits)
  have "t_addr t < length (reg_heap (s_reg s))" using tok assms(2,3) by (auto simp: tasks_ok_def)
  moreover have "t_phase u = Crashed" if "u \<in> set (s_tasks ?s1)" "t_addr u = t_addr t" for u
    using only [of u] that by simp
  ultimately have o: "orphaned (t_addr t) ?s1"
    using tasks_ok_phase [OF tok assms(2)] assms(3,4) by (auto simp: orphaned_def phase_ok_def)
  have "orphaned (t_addr t) s'" if "(sys_step H S)\<^sup>*\<^sup>* ?s1 s'" for s'
    using that o by (induction rule: rtranclp_induct) (auto intro: orphaned_step)
  moreover have "task_step H S (t_addr t) s ?s1" using assms(2-6) by (rule task_step.CheckPanics)
  ultimately show ?thesis
    by (auto simp: orphaned_def remove_if_not_running_def get_state_def intro!: exI [of _ ?s1])
qed

text \<open>
  C4 A process that has exited can always be followed through.  In every reachable state, also after crashes
  of other tasks, let the task of a process be waiting with a SIGCHLD not yet looked at, the writing ends of
  its error pipe be closed (unless the error task is over), and a check give the exit.  Then the
  steps of the tasks of this process alone lead to a state where the exit is recorded as \<open>wait4\<close> gave it, the
  process is no longer running, what the error pipe held is in its errors, and its task is over and has
  notified \<open>NotRunning\<close>; whatever systemd answers, and with no step of anything else.
\<close>

theorem exit_followed_through:
  assumes "sys_reach H S s" "n < length (s_tasks s)" "s_tasks s ! n = t" "t_phase t = Waiting" "t_woken t"
    and "\<not> t_errors_done t \<longrightarrow> t_errors_eof t"
    and "wait_check H (p_pid (proc_at (s_reg s) (t_addr t))) k = (Ok (Some pe), k')"
  shows "\<exists>s'. (task_step H S (t_addr t))\<^sup>*\<^sup>* s s' \<and> s_tasks s' = remove_nth n (s_tasks s) \<and>
    p_wait_info (proc_at (s_reg s') (t_addr t)) = Some (pe_wait_info pe) \<and>
    get_state (proc_at (s_reg s') (t_addr t)) \<noteq> Running \<and>
    p_errors (proc_at (s_reg s') (t_addr t)) =
      p_errors (proc_at (s_reg s) (t_addr t)) @ (if t_errors_done t then [] else errs) \<and>
    reg_procs (s_reg s') = reg_procs (s_reg s) \<and>
    (0 < reg_receivers (s_reg s) \<longrightarrow> reg_log (s_reg s') = reg_log (s_reg s) @ [NotiNotRunning (t_id t)])"
proof -
  let ?a = "t_addr t" let ?r = "s_reg s" let ?ts = "s_tasks s" let ?step = "task_step H S (t_addr t)"
  have ok: "tasks_ok ?r ?ts" using assms(1) by (rule sys_reach_tasks)
  then have a: "?a < length (reg_heap ?r)" using assms(2,3) by (auto simp: tasks_ok_def)
  have "p_wait_info (proc_at ?r ?a) = None"
    using tasks_ok_phase [OF ok assms(2)] assms(3,4) by (simp add: phase_ok_def)
  then have none: "p_wait_info (proc_at (mark_reaped ?a ?r) ?a) = None" using a by (simp add: mark_reaped_def proc_at_update)
  obtain fin w' where fin: "finalize_units (h_read_file H) (p_slice (proc_at (mark_reaped ?a ?r) ?a))
      (p_scope (proc_at (mark_reaped ?a ?r) ?a)) S \<infinity> \<lparr>w_now = 0, w_bus = k\<rparr> = (Some fin, w')"
    using finalize_units_returns by blast
  let ?t1 = "t\<lparr>t_woken := False, t_phase := Finalizing pe\<rparr>" let ?t2 = "?t1\<lparr>t_phase := Exited\<rparr>"
  let ?t3 = "?t2\<lparr>t_errors_done := True\<rparr>"
  let ?s1 = "set_task n ?t1 (set_reg (mark_reaped ?a ?r) s)"
  let ?r2 = "update_proc ?a (record_of pe fin) (mark_reaped ?a ?r)"
  let ?s2 = "set_task n ?t2 (set_reg ?r2 ?s1)"
  let ?s3 = "if t_errors_done t then ?s2 else set_task n ?t3 (set_reg (append_errors ?a errs ?r2) ?s2)"
  let ?s4 = "?s3\<lparr>s_reg := notify (NotiNotRunning (t_id t)) (s_reg ?s3), s_tasks := remove_nth n (s_tasks ?s3)\<rparr>"
  have "?step s ?s1" by (rule task_step.Reaped [OF assms(2-5,7)])
  moreover have "?step ?s1 ?s2"
    using task_step.Recorded [of n ?s1 ?t1 pe H S _ fin w' ?r2] assms(2) fin none by (simp add: record_exit_def)
  moreover have "?step\<^sup>*\<^sup>* ?s2 ?s3"
  proof (cases "t_errors_done t")
    case False
    then have "?step ?s2 ?s3"
      using task_step.ErrorsRead [of n ?s2 ?t2 H S errs] assms(2,6) by simp
    then show ?thesis by (rule r_into_rtranclp)
  qed simp
  moreover have "?step ?s3 ?s4"
    using task_step.Finished [of n ?s3 "s_tasks ?s3 ! n" H S] assms(2) by (cases "t_errors_done t") simp_all
  ultimately have "?step\<^sup>*\<^sup>* s ?s4"
    by (meson converse_rtranclp_into_rtranclp rtranclp.rtrancl_into_rtrancl)
  moreover have "remove_nth n (s_tasks ?s3) = remove_nth n ?ts"
    by (simp add: remove_nth_def)
  moreover have "proc_at (s_reg ?s4) ?a = (if t_errors_done t then (\<lambda>p. p) else (\<lambda>p. p\<lparr>p_errors := p_errors p @ errs\<rparr>))
      (record_of pe fin (proc_at (mark_reaped ?a ?r) ?a))"
    using a by (simp add: mark_reaped_def append_errors_def proc_at_update)
  moreover obtain w1 w2 w3 where "pe_wait_info pe = (w1, w2, w3)" by (cases "pe_wait_info pe")
  ultimately show ?thesis
    using a by (intro exI [of _ ?s4]) (simp add: record_of_def get_state_def mark_reaped_def append_errors_def log_notify proc_at_update)
qed

text \<open>Once a process is reaped it stays so.\<close>

definition reaped_at :: "addr \<Rightarrow> registry \<Rightarrow> bool" where
  "reaped_at a r \<longleftrightarrow> a < length (reg_heap r) \<and> p_reaped (proc_at r a)"

lemma reaped_heap: "reaped_at a r \<Longrightarrow> reg_heap r' = reg_heap r \<Longrightarrow> reaped_at a r'"
  by (simp add: reaped_at_def proc_at_def)

lemma reaped_update: "reaped_at a r \<Longrightarrow> (\<And>p. p_reaped p \<Longrightarrow> p_reaped (f p)) \<Longrightarrow> reaped_at a (update_proc b f r)"
  by (simp add: reaped_at_def proc_at_update_in)

lemma reaped_step:
  assumes "sys_step H S s s'" "reaped_at a (s_reg s)"
  shows "reaped_at a (s_reg s')"
  using assms(1)
proof (cases rule: sys_cases)
  case (Spawn p i)
  with assms(2) show ?thesis
    by (simp add: reaped_at_def spawn_def Let_def proc_at_append) (simp add: procs_insert_def)
qed (use assms(2) in \<open>auto simp: append_errors_def mark_reaped_def record_exit_def record_of_def heap_same
   intro!: reaped_update intro: reaped_heap split: if_splits\<close>)

text \<open>
  C5 No signal goes to a reused pid: as long as the wait of a process has not returned its exit, a request to
  signal it goes to its pid; from the step in which the wait returns it, in every later state of the run, also
  when its task is over and whether or not it is still registered, a signal gives \<open>NoProc\<close> and calls
  nothing.
\<close>

theorem no_signal_after_reap:
  assumes "sys_reach H S s" "t \<in> set (s_tasks s)" "(sys_step H S)\<^sup>*\<^sup>* s s'"
  shows "if t_phase t \<in> {Waiting, Crashed}
    then send_signal K (proc_at (s_reg s) (t_addr t)) signum k =
      lift_err (\<lambda>e. if io_kind_of e = NotFound then NoProc else ErrIo e)
        (kill K (p_pid (proc_at (s_reg s) (t_addr t))) signum) k
    else send_signal K (proc_at (s_reg s') (t_addr t)) signum k = (Err NoProc, k)"
proof -
  let ?a = "t_addr t"
  have t: "?a < length (reg_heap (s_reg s))" "phase_ok (proc_at (s_reg s) ?a) (t_phase t)"
    using sys_reach_tasks [OF assms(1)] assms(2) by (auto simp: tasks_ok_def)
  show ?thesis
  proof (cases "t_phase t \<in> {Waiting, Crashed}")
    case True
    with t(2) have "\<not> p_reaped (proc_at (s_reg s) ?a)" by (auto simp: phase_ok_def)
    with True show ?thesis
      by (auto simp: send_signal_def lift_err_def split: prod.split outcome.split)
  next
    case False
    with t have "reaped_at ?a (s_reg s)"
      by (cases "t_phase t") (auto simp: phase_ok_def reaped_at_def)
    with assms(3) have "reaped_at ?a (s_reg s')"
      by (induction rule: rtranclp_induct) (auto dest: reaped_step)
    with False show ?thesis by (simp add: send_signal_def reaped_at_def)
  qed
qed


section \<open>The properties at a concrete host\<close>

text \<open>A host without \<open>/proc\<close>, on which \<open>wait4\<close> either reaps at once or fails with \<open>ECHILD\<close>.\<close>

definition no_usage :: rusage where
  "no_usage = \<lparr>ru_utime = \<lparr>tv_sec = 0, tv_usec = 0\<rparr>, ru_stime = \<lparr>tv_sec = 0, tv_usec = 0\<rparr>,
     ru_maxrss = 0, ru_minflt = 0, ru_majflt = 0, ru_nswap = 0, ru_inblock = 0, ru_oublock = 0,
     ru_nvcsw = 0, ru_nivcsw = 0\<rparr>"

definition plain_host :: "'k kernel \<Rightarrow> 'k host" where
  "plain_host K = \<lparr>h_kernel = K, h_proc_host = sample_host, h_read_file = (\<lambda>_ _. Err (OsError 2)),
     h_reading = \<lparr>rd_fuel = 0, rd_size = id\<rparr>, h_base64 = (\<lambda>_. ''''), h_wait = linux_macros,
     h_utc = (\<lambda>_. 7), h_instant = (\<lambda>_. 7), h_rfc3339 = (\<lambda>_. '''')\<rparr>"

definition reaping_kernel :: "unit kernel" where
  "reaping_kernel = null_kernel\<lparr>libc_wait4 := (\<lambda>pid _ k. (pid, 4, (0, no_usage), k)), libc_kill := (\<lambda>_ _ k. (0, 0, k))\<rparr>"

definition sample_exit :: "pid_t \<Rightarrow> pending_exit" where
  "sample_exit pid = \<lparr>pe_wait_info = (pid, 0, no_usage), pe_proc_stat = None, pe_stop_time = 7, pe_stop_instant = 7\<rparr>"

lemma reaping_check: "0 < pid \<Longrightarrow> wait_check (plain_host reaping_kernel) pid k = (Ok (Some (sample_exit pid)), k)"
  by (simp add: wait_check_def plain_host_def reaping_kernel_def read_stat_def stat_load_def load_or_log_def
      wait.simps(2) wait4_def sample_exit_def null_kernel_def)

lemma failing_check: "wait_check (plain_host null_kernel) pid k = (Panic, k)"
  by (simp add: wait_check_def plain_host_def null_kernel_def read_stat_def stat_load_def load_or_log_def
      wait.simps(2) wait4_def WNOHANG_def)

lemma reaping_safe: "checks_safe (plain_host reaping_kernel)"
  by (simp add: checks_safe_def wait_check_def plain_host_def reaping_kernel_def read_stat_def stat_load_def load_or_log_def
      wait.simps(2) wait4_def null_kernel_def)

definition one_started :: sys where
  "one_started = spawn ''a'' sample_proc sys_init"

definition sample_task :: task where
  "sample_task = new_task ''a'' 0"

lemma one_started_reach: "sys_reach H S one_started" "calm_reach H S one_started"
proof -
  have s: "sys_step H S sys_init one_started"
    unfolding one_started_def by (rule sys_step.Spawn) (simp add: sample_proc_def)
  then show "sys_reach H S one_started" by (rule sys_reach.step [OF sys_reach.init])
  show "calm_reach H S one_started"
    by (rule calm_reach.step [OF calm_reach.init s]) (simp add: crash_free_def one_started_def spawn_def sys_init_def Let_def)
qed

lemma one_started_simps [simp]:
  "s_tasks one_started = [sample_task]" "proc_at (s_reg one_started) 0 = sample_proc"
  "reg_procs (s_reg one_started) = [(''a'', 0)]" "s_waiter one_started = None"
  "t_addr sample_task = 0" "t_phase sample_task = Waiting" "t_id sample_task = ''a''"
  "\<not> t_errors_done sample_task" "\<not> t_woken sample_task" "\<not> t_errors_eof sample_task"
  by (simp_all add: one_started_def spawn_def sys_init_def procs_new_def sample_task_def procs_insert_def proc_at_def)

text \<open>The same after a SIGCHLD, and after the end of its error pipe.\<close>

definition woken_task :: task where
  "woken_task = sample_task\<lparr>t_woken := True\<rparr>"

definition one_woken :: sys where
  "one_woken = set_task 0 woken_task one_started"

definition one_closed :: sys where
  "one_closed = set_task 0 (woken_task\<lparr>t_errors_eof := True\<rparr>) one_woken"

lemma one_woken_reach: "sys_reach H S one_woken"
proof -
  have "world_step one_started one_woken"
    using world_step.SigChld [of 0 one_started sample_task] by (simp add: one_woken_def woken_task_def)
  then show ?thesis by (blast intro: sys_reach.step sys_step.World one_started_reach)
qed

lemma one_woken_simps [simp]:
  "s_tasks one_woken = [woken_task]" "s_reg one_woken = s_reg one_started" "s_waiter one_woken = None"
  "t_addr woken_task = 0" "t_phase woken_task = Waiting" "t_id woken_task = ''a''" "t_woken woken_task"
  "\<not> t_errors_done woken_task" "\<not> t_errors_eof woken_task"
  "s_tasks one_closed = [woken_task\<lparr>t_errors_eof := True\<rparr>]" "s_reg one_closed = s_reg one_started"
  by (simp_all add: one_woken_def woken_task_def one_closed_def)

lemma one_closed_reach: "sys_reach H S one_closed"
proof -
  have "world_step one_woken one_closed"
    using world_step.PipeCloses [of 0 one_woken woken_task] by (simp add: one_closed_def)
  then show ?thesis by (blast intro: sys_reach.step sys_step.World one_woken_reach)
qed

text \<open>Its exit is found.\<close>

definition one_reaped :: sys where
  "one_reaped = set_task 0 (woken_task\<lparr>t_woken := False, t_phase := Finalizing (sample_exit 100)\<rparr>)
     (set_reg (mark_reaped 0 (s_reg one_woken)) one_woken)"

lemma one_reaped_step: "sys_step (plain_host reaping_kernel) S one_woken one_reaped"
proof -
  have "wait_check (plain_host reaping_kernel) (p_pid (proc_at (s_reg one_woken) 0)) () = (Ok (Some (sample_exit 100)), ())"
    using reaping_check [of 100 "()"] by (simp add: sample_proc_def proc_new_def)
  then show ?thesis
    using sys_step.Task [OF task_step.Reaped [of 0 one_woken woken_task "plain_host reaping_kernel" "()" "sample_exit 100" "()"]]
    by (simp add: one_reaped_def)
qed

theorem no_signal_after_reap_witness:
  "send_signal reaping_kernel (proc_at (s_reg one_started) 0) 15 () = (Ok (), ()) \<and>
   send_signal reaping_kernel (proc_at (s_reg one_reaped) 0) 15 () = (Err NoProc, ())"
proof
  show "send_signal reaping_kernel (proc_at (s_reg one_started) 0) 15 () = (Ok (), ())"
    using no_signal_after_reap [OF one_started_reach(1) [of "plain_host reaping_kernel" None], of sample_task one_started
        reaping_kernel 15 "()"]
    by (simp add: lift_err_def kill_def reaping_kernel_def)
  have "sys_reach (plain_host reaping_kernel) None one_reaped"
    by (rule sys_reach.step [OF one_woken_reach one_reaped_step])
  from no_signal_after_reap [OF this, of "woken_task\<lparr>t_woken := False, t_phase := Finalizing (sample_exit 100)\<rparr>" one_reaped
      reaping_kernel 15 "()"]
  show "send_signal reaping_kernel (proc_at (s_reg one_reaped) 0) 15 () = (Err NoProc, ())"
    by (simp add: one_reaped_def)
qed

definition sample_waiter :: waiter where
  "sample_waiter = \<lparr>wt_kind = WaitRunning, wt_pos = 0, wt_target = Some ''a''\<rparr>"

definition one_awaited :: sys where
  "one_awaited = one_started\<lparr>s_reg := (s_reg one_started)\<lparr>reg_receivers := 1\<rparr>, s_waiter := Some sample_waiter\<rparr>"

lemma one_awaited_reach: "calm_reach H S one_awaited"
proof -
  let ?w0 = "sample_waiter\<lparr>wt_target := None\<rparr>"
  let ?s1 = "one_started\<lparr>s_reg := (s_reg one_started)\<lparr>reg_receivers := 1\<rparr>, s_waiter := Some ?w0\<rparr>"
  have "subscribe (s_reg one_started) = (0, (s_reg one_started)\<lparr>reg_receivers := 1\<rparr>)"
    by (simp add: one_started_def spawn_def sys_init_def procs_new_def procs_insert_def subscribe_def notify_def)
  from sys_step.WaitStarts [OF _ this, of H S WaitRunning] have "sys_step H S one_started ?s1"
    by (simp add: sample_waiter_def)
  then have "calm_reach H S ?s1"
    by (rule calm_reach.step [OF one_started_reach(2)]) (simp add: crash_free_def)
  moreover have "sys_step H S ?s1 (?s1\<lparr>s_waiter := Some sample_waiter\<rparr>)"
    by (rule sys_step.WaitSteps [where w = ?w0])
      (simp_all add: wait_step_def sample_waiter_def first_running_def one_started_def spawn_def sys_init_def
        procs_new_def procs_insert_def proc_at_def get_state_def sample_proc_def proc_new_def notify_def)
  ultimately show ?thesis
    unfolding one_awaited_def by (rule calm_reach.step [THEN back_subst [of "calm_reach H S"]]) (simp_all add: crash_free_def)
qed

theorem wait_not_lost_witness:
  "wait_step sample_waiter (s_reg one_awaited) = WaitPending \<and>
   (\<exists>a. procs_get (s_reg one_awaited) ''a'' = Some a \<and> (\<exists>t \<in> set (s_tasks one_awaited). t_id t = ''a'' \<and> t_addr t = a))"
proof -
  have "s_waiter one_awaited = Some sample_waiter" by (simp add: one_awaited_def)
  note app = wait_not_lost [OF one_awaited_reach [of "plain_host reaping_kernel" None] this]
  have "wait_step sample_waiter (s_reg one_awaited) = WaitPending"
    by (simp add: wait_step_def sample_waiter_def one_awaited_def one_started_def spawn_def sys_init_def
        procs_new_def procs_insert_def recv_def notify_def)
  with app show ?thesis by (simp add: sample_waiter_def)
qed

theorem crash_orphans_witness:
  "\<exists>s1. task_step (plain_host (null_kernel :: unit kernel)) None 0 one_woken s1 \<and>
     (\<forall>s'. (sys_step (plain_host (null_kernel :: unit kernel)) None)\<^sup>*\<^sup>* s1 s' \<longrightarrow> p_wait_info (proc_at (s_reg s') 0) = None)"
  using crash_orphans [OF one_woken_reach, of 0 woken_task "plain_host (null_kernel :: unit kernel)" "()" "()" None]
  by (simp add: failing_check) blast

theorem exit_followed_through_witness:
  "\<exists>s'. (task_step (plain_host reaping_kernel) None 0)\<^sup>*\<^sup>* one_closed s' \<and> s_tasks s' = [] \<and>
     p_wait_info (proc_at (s_reg s') 0) = Some (100, 0, no_usage) \<and> p_errors (proc_at (s_reg s') 0) = [''exec'']"
  using exit_followed_through [OF one_closed_reach, of 0 "woken_task\<lparr>t_errors_eof := True\<rparr>"
      "plain_host reaping_kernel" "()" "sample_exit 100" "()" None "[''exec'']"]
  by (auto simp: reaping_check remove_nth_def sample_exit_def sample_proc_def proc_new_def)

end
