(* ===== verification/StartProcs.thy ===== *)
theory StartProcs
  imports Tasks Fdio Environ
begin

text \<open>
  Starting processes: \<open>start_procs\<close> of \<open>src/procs.rs\<close> with \<open>get_exe\<close> and \<open>set_up_slice\<close>, and what the
  forked child does up to its \<open>execve\<close>.  A run that waits on systemd for ever is \<open>None\<close>.  The end of the
  calling process itself, by \<open>exit\<close> or by \<open>execve\<close>, is a panic that has set \<open>ss_end\<close>.
\<close>

section \<open>What is not in the source\<close>

text \<open>
  The \<open>eventfd\<close> of the \<open>nix\<close> crate, the environment of the agent, fresh unit names, and the texts of
  errors.
\<close>

record 'k services =
  sv_event_new :: "'k \<Rightarrow> (fd_t, string) outcome \<times> 'k"
  sv_event_read :: "fd_t \<Rightarrow> 'k \<Rightarrow> (unit, string) outcome \<times> 'k"
  sv_event_write :: "fd_t \<Rightarrow> 'k \<Rightarrow> (unit, string) outcome \<times> 'k"
  sv_env :: "(string \<times> string) list"
  sv_uuid :: "'k \<Rightarrow> string"
  sv_io_fmt :: "io_error \<Rightarrow> string"
  sv_dbg :: "incoming_message \<Rightarrow> string"
  sv_restricted :: "string option"

definition err_text :: "'k services \<Rightarrow> error \<Rightarrow> string" where
  "err_text V = error_fmt (sv_io_fmt V) (sv_dbg V)"

datatype process_end = ExitCode int | Execed string "string list" "string list"

section \<open>The parts of a start\<close>

text \<open>\<open>argv[0]\<close> is evaluated whether or not there is an explicit executable.\<close>

fun get_exe :: "string option \<Rightarrow> string list \<Rightarrow> (string, 'e) outcome" where
  "get_exe oe [] = Panic"
| "get_exe oe (arg # args) = Ok (case oe of Some e \<Rightarrow> e | None \<Rightarrow> arg)"

definition as_systemd :: "(('a, zbus_error) outcome, 'w) SystemdApi.task \<Rightarrow> (('a, error) outcome, 'w) SystemdApi.task" where
  "as_systemd m = and_await m (\<lambda>r. finish (map_err ErrSystemd r))"

definition set_up_slice ::
  "'k systemd option \<Rightarrow> ('k \<Rightarrow> string) \<Rightarrow> 32 word \<Rightarrow> systemd_properties \<Rightarrow>
     ((string option \<times> string option, error) outcome, ('k, 'z) world_scheme) SystemdApi.task" where
  "set_up_slice systemd uuid pid props dl w =
     (case systemd of
        None \<Rightarrow> finish (Ok (None, None)) dl w
      | Some S \<Rightarrow>
          try_await (as_systemd (start_transient_unit S (uuid (w_bus w)) SliceUnit (slice_properties (sp_slice props))))
            (\<lambda>slice_name dl w.
              try_await (as_systemd (start_transient_unit S (uuid (w_bus w)) ScopeUnit
                  (scope_properties (sp_scope props)
                   @ [unit_property_from ''PIDs'' (ValU32s [pid]), unit_property_from ''Slice'' (ValStr slice_name)])))
                (\<lambda>scope. finish (Ok (Some slice_name, Some scope))) dl w) dl w)"

section \<open>The child\<close>

text \<open>A step that may fail: its failure is written to the error pipe, and there will be no \<open>execve\<close>.\<close>

definition attempt ::
  "('k, 'z) kernel_scheme \<Rightarrow> fd_t \<Rightarrow> ('e \<Rightarrow> string) \<Rightarrow> ('k \<Rightarrow> ('a, 'e) outcome \<times> 'k) \<Rightarrow> bool \<Rightarrow>
     'k \<Rightarrow> (bool, error) outcome \<times> 'k" where
  "attempt K efd msg m ok k =
     (case m k of
        (Ok _, k') \<Rightarrow> (Ok ok, k')
      | (Err e, k') \<Rightarrow> bind (error_try_write K efd (msg e)) (\<lambda>_. ret False) k'
      | (Panic, k') \<Rightarrow> (Panic, k'))"

fun attach_all ::
  "('k, 'z) kernel_scheme \<Rightarrow> fd_t \<Rightarrow> (error \<Rightarrow> string) \<Rightarrow> fd_handlers \<Rightarrow> bool \<Rightarrow> 'k \<Rightarrow> (bool, error) outcome \<times> 'k" where
  "attach_all K efd fmt [] ok = ret ok"
| "attach_all K efd fmt ((fd, h) # rest) ok =
     bind (attempt K efd (\<lambda>e. ''failed to set up fd '' @ show_int fd @ '': '' @ fmt e) (in_child K h) ok)
       (\<lambda>ok. attach_all K efd fmt rest ok)"

text \<open>
  \<open>execve\<close> with valid strings whose C call does not give -1 does not return: the program is replaced.
\<close>

definition child_exec ::
  "('k, 'z) kernel_scheme \<Rightarrow> fd_t \<Rightarrow> (io_error \<Rightarrow> string) \<Rightarrow> string \<Rightarrow> string list \<Rightarrow> env_map \<Rightarrow> 'k \<Rightarrow>
     (process_end, error) outcome \<times> 'k" where
  "child_exec K efd io_fmt exe_path args env_vars k =
     (let env' = map (\<lambda>(n, v). n @ ''='' @ v) env_vars in
      if all_cstrings (exe_path # args @ env') \<and> fst (libc_execve K exe_path args env' k) \<noteq> -1
      then (Ok (Execed exe_path args env'), k)
      else bind (attempt K efd (\<lambda>e. ''execve failed: '' @ exe_path @ '': '' @ io_fmt e) (execve K exe_path args env_vars) True)
             (\<lambda>_. ret (ExitCode 63)) k)"

definition restricted_check :: "string option \<Rightarrow> string \<Rightarrow> 'k \<Rightarrow> (unit, string) outcome \<times> 'k" where
  "restricted_check restricted exe_path =
     (case restricted of
        Some r \<Rightarrow> if exe_path \<noteq> r then fail (''restricted executable: '' @ r) else ret ()
      | None \<Rightarrow> ret ())"

definition child_main ::
  "'k services \<Rightarrow> ('k, 'z) kernel_scheme \<Rightarrow> error_pipe \<Rightarrow> fd_t \<Rightarrow> fd_handlers \<Rightarrow> pipes \<Rightarrow> string \<Rightarrow> string list \<Rightarrow>
     env_map \<Rightarrow> 'k \<Rightarrow> (process_end, error) outcome \<times> 'k" where
  "child_main V K ep ev handlers pipes exe_path args env_vars =
     bind (unwrapped (close K (read_fd ep))) (\<lambda>_.
     bind (attempt K (write_fd ep) id (restricted_check (sv_restricted V) exe_path) True) (\<lambda>ok.
     bind (attach_all K (write_fd ep) (err_text V) handlers ok) (\<lambda>ok.
     bind (unwrapped (pipes_close K pipes 0)) (\<lambda>_.
     bind (attempt K (write_fd ep) (\<lambda>e. ''setsid failed: '' @ sv_io_fmt V e) (setsid K) ok) (\<lambda>ok.
     bind (attempt K (write_fd ep) (\<lambda>e. ''read eventfd failed: '' @ e) (sv_event_read V ev) ok) (\<lambda>ok.
       if ok then child_exec K (write_fd ep) (sv_io_fmt V) exe_path args env_vars else ret (ExitCode 63)))))))"

section \<open>The parent\<close>

record 'k start_state =
  ss_pipes :: pipes
  ss_sys :: sys
  ss_now :: nat
  ss_k :: 'k
  ss_end :: "process_end option"

definition in_k :: "('k \<Rightarrow> ('a, 'e) outcome \<times> 'k) \<Rightarrow> 'k start_state \<Rightarrow> ('a, 'e) outcome \<times> 'k start_state" where
  "in_k m s = (case m (ss_k s) of (r, k) \<Rightarrow> (r, s\<lparr>ss_k := k\<rparr>))"

definition with_pipes ::
  "(pipes \<times> 'k \<Rightarrow> ('a, 'e) outcome \<times> pipes \<times> 'k) \<Rightarrow> 'k start_state \<Rightarrow> ('a, 'e) outcome \<times> 'k start_state" where
  "with_pipes m s = (case m (ss_pipes s, ss_k s) of (r, p, k) \<Rightarrow> (r, s\<lparr>ss_pipes := p, ss_k := k\<rparr>))"

definition end_process :: "process_end \<Rightarrow> 'k start_state \<Rightarrow> ('a, 'e) outcome \<times> 'k start_state" where
  "end_process e s = (Panic, s\<lparr>ss_end := Some e\<rparr>)"

text \<open>\<open>unwrap_or_else\<close> with \<open>exit(1)\<close>.\<close>

definition or_exit :: "('k \<Rightarrow> ('a, 'e) outcome \<times> 'k) \<Rightarrow> 'k start_state \<Rightarrow> ('a, 'f) outcome \<times> 'k start_state" where
  "or_exit m s =
     (case in_k m s of
        (Ok x, s') \<Rightarrow> (Ok x, s')
      | (Err _, s') \<Rightarrow> end_process (ExitCode 1) s'
      | (Panic, s') \<Rightarrow> (Panic, s'))"

fun parent_fds :: "('k, 'z) kernel_scheme \<Rightarrow> (error \<Rightarrow> string) \<Rightarrow> fd_handlers \<Rightarrow> 'k \<Rightarrow> (string list, error) outcome \<times> 'k" where
  "parent_fds K fmt [] = ret []"
| "parent_fds K fmt ((fd, h) # rest) =
     bind (\<lambda>k. case in_parent K h k of
         (Ok _, k') \<Rightarrow> (Ok [], k')
       | (Err e, k') \<Rightarrow> (Ok [''failed to set up fd '' @ show_int fd @ '': '' @ fmt e], k')
       | (Panic, k') \<Rightarrow> (Panic, k')) (\<lambda>e.
     bind (parent_fds K fmt rest) (\<lambda>es. ret (e @ es)))"

text \<open>The await on systemd: the world of the bus is the kernel's, with the clock.\<close>

definition await_units ::
  "'k systemd option \<Rightarrow> 'k services \<Rightarrow> pid_t \<Rightarrow> systemd_properties \<Rightarrow>
     (string option \<times> string option, error, 'k start_state) run" where
  "await_units S V child_pid props s =
     (case set_up_slice S (sv_uuid V) (word_of_int child_pid) props \<infinity> \<lparr>w_now = ss_now s, w_bus = ss_k s\<rparr> of
        (Some r, w) \<Rightarrow> Some (r, s\<lparr>ss_now := w_now w, ss_k := w_bus w\<rparr>)
      | (None, w) \<Rightarrow> None)"

text \<open>When the await returns early with an error, the handlers are dropped.\<close>

definition drop_handlers :: "('k, 'z) kernel_scheme \<Rightarrow> fd_handlers \<Rightarrow> 'k \<Rightarrow> 'k" where
  "drop_handlers K handlers k = foldl (\<lambda>k (_, h). fd_handler_drop K h k) k handlers"

definition dropping ::
  "('k, 'z) kernel_scheme \<Rightarrow> fd_handlers \<Rightarrow> ('a, error, 'k start_state) run \<Rightarrow> ('a, error, 'k start_state) run" where
  "dropping K handlers m s =
     (case m s of
        Some (Err e, s') \<Rightarrow> Some (Err e, s'\<lparr>ss_k := drop_handlers K handlers (ss_k s')\<rparr>)
      | r \<Rightarrow> r)"

definition register_proc :: "proc_id \<Rightarrow> proc \<Rightarrow> 'k start_state \<Rightarrow> (unit, 'e) outcome \<times> 'k start_state" where
  "register_proc i p s = (Ok (), s\<lparr>ss_sys := spawn i p (ss_sys s)\<rparr>)"

definition start_parent ::
  "'k host \<Rightarrow> 'k systemd option \<Rightarrow> 'k services \<Rightarrow> proc_id \<Rightarrow> pid_t \<Rightarrow> systemd_properties \<Rightarrow> fd_t \<Rightarrow> fd_handlers \<Rightarrow>
     (unit, error, 'k start_state) run" where
  "start_parent H S V i child_pid props ev handlers s =
     (let start_time = h_utc H (ss_k s); start_instant = h_instant H (ss_k s) in
      run_then (dropping (h_kernel H) handlers (await_units S V child_pid props)) (\<lambda>(slice_name, scope).
      run_then (at_once (in_k (unwrapped (sv_event_write V ev)))) (\<lambda>_.
      run_then (at_once (in_k (parent_fds (h_kernel H) (err_text V) handlers))) (\<lambda>fd_errs.
        let p = proc_new child_pid slice_name scope (\<not> Option.is_none S) start_time start_instant handlers in
        at_once (register_proc i (p\<lparr>p_errors := fd_errs\<rparr>))))) s)"

text \<open>One process: everything up to the fork, then the side of it this process is on.\<close>

definition start_one ::
  "'k host \<Rightarrow> 'k systemd option \<Rightarrow> 'k services \<Rightarrow> proc_id \<Rightarrow> proc_spec \<Rightarrow> (unit, error, 'k start_state) run" where
  "start_one H S V i spec =
     (let K = h_kernel H; env_vars = build (sv_env V) (proc_spec.env spec) in
      run_then (at_once (\<lambda>s. (get_exe (proc_spec.exe spec) (argv spec), s))) (\<lambda>exe_path.
      run_then (at_once (or_exit (error_pipe_new K))) (\<lambda>ep.
      run_then (at_once (or_exit (sv_event_new V))) (\<lambda>ev.
      run_then (at_once (with_pipes (make_fd_handlers K i (fds spec)))) (\<lambda>handlers.
      run_then (at_once (in_k (unwrapped (fork K)))) (\<lambda>child_pid s.
        if child_pid = 0
        then run_then (at_once (in_k (child_main V K ep ev handlers (ss_pipes s) exe_path (argv spec) env_vars)))
               (\<lambda>e. at_once (end_process e)) s
        else start_parent H S V i child_pid (systemd_props spec) ev handlers s))))))"

fun start_each ::
  "'k host \<Rightarrow> 'k systemd option \<Rightarrow> 'k services \<Rightarrow> (proc_id \<times> proc_spec) list \<Rightarrow> (unit, error, 'k start_state) run" where
  "start_each H S V [] = at_once (ret ())"
| "start_each H S V ((i, spec) # rest) = run_then (start_one H S V i spec) (\<lambda>_. start_each H S V rest)"

text \<open>The checks before anything is started.\<close>

definition start_checks :: "nat \<Rightarrow> proc_specs \<Rightarrow> registry \<Rightarrow> (unit, error) outcome" where
  "start_checks seed procs r =
     (case find (\<lambda>i. i \<in> set (get_proc_ids r)) (bt_keys procs) of
        Some i \<Rightarrow> Err (ErrSpec (DuplicateProcId i))
      | None \<Rightarrow>
          and_then (map_err ErrSpec (validate_procs_fds seed procs)) (\<lambda>_.
            if get_shutdown r \<noteq> Active then Err (ShuttingDown (get_shutdown r)) else Ok ()))"

text \<open>What is around the loop over the processes: the checks, and at the end the pipes.\<close>

definition start_around ::
  "'k host \<Rightarrow> nat \<Rightarrow> proc_specs \<Rightarrow> (unit, error, 'k start_state) run \<Rightarrow> (unit, error, 'k start_state) run" where
  "start_around H seed procs each =
     run_then (at_once (\<lambda>s. (start_checks seed procs (s_reg (ss_sys s)), s\<lparr>ss_pipes := []\<rparr>))) (\<lambda>_.
     run_then each (\<lambda>_.
     run_then (at_once (with_pipes (\<lambda>(p, k). case unwrapped (pipes_close (h_kernel H) p 0) k of (r, k') \<Rightarrow> (r, p, k')))) (\<lambda>n.
       at_once (if n = 0 then ret () else panic))))"

definition start_procs ::
  "'k host \<Rightarrow> 'k systemd option \<Rightarrow> 'k services \<Rightarrow> nat \<Rightarrow> proc_specs \<Rightarrow> (unit, error, 'k start_state) run" where
  "start_procs H S V seed procs = start_around H seed procs (start_each H S V procs)"

text \<open>
  While a start awaits systemd, the tasks of the processes that it has registered before run.  The function
  \<open>polls\<close> stands for what they do at the await for the \<open>n\<close>-th process; since the part before the await neither
  reads nor changes the task system, they do it before that part here.  Without systemd there is no await.
\<close>

fun start_each_polled ::
  "(nat \<Rightarrow> 'k start_state \<Rightarrow> 'k start_state) \<Rightarrow> 'k host \<Rightarrow> 'k systemd option \<Rightarrow> 'k services \<Rightarrow> nat \<Rightarrow> (proc_id \<times> proc_spec) list \<Rightarrow>
     (unit, error, 'k start_state) run" where
  "start_each_polled polls H S V n [] = at_once (ret ())"
| "start_each_polled polls H S V n ((i, spec) # rest) =
     run_then (at_once (\<lambda>s. (Ok (), if S = None then s else polls n s))) (\<lambda>_.
     run_then (start_one H S V i spec) (\<lambda>_. start_each_polled polls H S V (Suc n) rest))"

definition start_procs_polled ::
  "(nat \<Rightarrow> 'k start_state \<Rightarrow> 'k start_state) \<Rightarrow> 'k host \<Rightarrow> 'k systemd option \<Rightarrow> 'k services \<Rightarrow> nat \<Rightarrow> proc_specs \<Rightarrow>
     (unit, error, 'k start_state) run" where
  "start_procs_polled polls H S V seed procs = start_around H seed procs (start_each_polled polls H S V 0 procs)"

text \<open>Where nothing is polled, it is \<open>start_procs\<close>.\<close>

lemma start_each_unpolled: "S = None \<or> polls = (\<lambda>_ s. s) \<Longrightarrow> start_each_polled polls H S V n procs = start_each H S V procs"
proof (induction procs arbitrary: n)
  case (Cons x procs)
  have "run_then (at_once (\<lambda>s. (Ok (), s))) f = f ()" for f :: "unit \<Rightarrow> (unit, error, 'a start_state) run"
    by (simp add: fun_eq_iff run_then_def)
  with Cons show ?case by (cases x) auto
qed simp

lemma start_procs_unpolled: "S = None \<or> polls = (\<lambda>_ s. s) \<Longrightarrow> start_procs_polled polls H S V seed procs = start_procs H S V seed procs"
  by (simp add: start_procs_polled_def start_procs_def start_each_unpolled)

section \<open>The ends of a valid batch\<close>

lemma fst_write_ends: "x \<in> set (fds_write_ends i xs) \<Longrightarrow> fst x = i"
  by (auto simp: fds_write_ends_def)

lemma distinct_fds_write_ends: "fds_distinct xs \<Longrightarrow> distinct (fds_write_ends i xs)"
  by (induction xs) (auto simp: fds_distinct_def fds_write_ends_def)

lemma fds_write_ends_named: "fds_distinct xs \<Longrightarrow> None \<notin> snd ` set (fds_write_ends i xs)"
  by (fastforce simp: fds_distinct_def fds_write_ends_def)

lemma write_ends_Cons: "write_ends ((i, spec) # procs) = fds_write_ends i (fds spec) @ write_ends procs"
  by (simp add: write_ends_def)

lemma read_ends_Cons: "read_ends ((i, spec) # procs) = fds_read_ends (fds spec) @ read_ends procs"
  by (simp add: read_ends_def)

lemma fst_batch_ends: "x \<in> set (write_ends procs) \<Longrightarrow> fst x \<in> fst ` set procs"
  by (auto simp: write_ends_def dest!: fst_write_ends intro!: rev_image_eqI)

lemma write_ends_distinct:
  assumes "distinct (map fst procs)" "list_all (\<lambda>(_, p). fds_distinct (fds p)) procs"
  shows "distinct (write_ends procs) \<and> None \<notin> snd ` set (write_ends procs)"
  using assms
proof (induction procs)
  case Nil
  then show ?case by (simp add: write_ends_def)
next
  case (Cons e procs)
  obtain i spec where e: "e = (i, spec)" by (cases e)
  have "set (fds_write_ends i (fds spec)) \<inter> set (write_ends procs) = {}"
    using Cons.prems(1) e by (auto dest!: fst_write_ends fst_batch_ends)
  with Cons e show ?case
    by (auto simp: write_ends_Cons distinct_fds_write_ends dest: fds_write_ends_named [of _ i])
qed

text \<open>The batch conditions that the loop goes through one process at a time.\<close>

definition batch_ok :: "end_set \<Rightarrow> end_set \<Rightarrow> proc_specs \<Rightarrow> bool" where
  "batch_ok W R procs \<longleftrightarrow> list_all (\<lambda>(_, p). fds_distinct (fds p) \<and> argv p \<noteq> []) procs \<and>
     distinct (write_ends procs) \<and> set (write_ends procs) \<inter> W = {} \<and>
     distinct (read_ends procs) \<and> set (read_ends procs) \<inter> R = {} \<and> None \<notin> snd ` set (read_ends procs)"

lemma batch_ok_valid:
  assumes "bt_wf procs" "pipes_matched procs" "list_all (\<lambda>(_, p). argv p \<noteq> []) procs"
  shows "batch_ok {} {} procs" "set (write_ends procs) = set (read_ends procs)"
proof -
  have d: "list_all (\<lambda>(_, p). fds_distinct (fds p)) procs" and m: "mset (write_ends procs) = mset (read_ends procs)"
    using assms(2) by (auto simp: pipes_matched_def)
  show sets: "set (write_ends procs) = set (read_ends procs)" using m by (rule mset_eq_setD)
  have "distinct (write_ends procs)" "None \<notin> snd ` set (write_ends procs)"
    using write_ends_distinct [OF bt_wf_distinct [OF assms(1)] d] by auto
  moreover from this m have "distinct (read_ends procs)" by (metis mset_eq_imp_distinct_iff)
  ultimately show "batch_ok {} {} procs"
    using assms(3) d sets by (auto simp: batch_ok_def list_all_iff)
qed

section \<open>A batch that is accepted\<close>

text \<open>
  What the start of a batch needs of the host: pipes, descriptors, events and forks can be made, the
  process is the parent, and systemd, if there is one, sets up the units.
\<close>

definition host_ready :: "'k host \<Rightarrow> 'k systemd option \<Rightarrow> 'k services \<Rightarrow> bool" where
  "host_ready H S V \<longleftrightarrow> pipes_made (h_kernel H) \<and>
     (\<forall>fd k. fst (libc_fcntl_getfd (h_kernel H) fd k) \<noteq> -1) \<and>
     (\<forall>fd fl k. fst (libc_fcntl_setfd (h_kernel H) fd fl k) \<noteq> -1) \<and>
     (\<forall>fd k. fst (libc_close (h_kernel H) fd k) \<in> {0, -1}) \<and>
     (\<forall>k. 0 < fst (libc_fork (h_kernel H) k)) \<and>
     (\<forall>k. \<exists>ev k'. sv_event_new V k = (Ok ev, k')) \<and> (\<forall>ev k. \<exists>k'. sv_event_write V ev k = (Ok (), k')) \<and>
     (\<forall>pid props w. \<exists>x w'. set_up_slice S (sv_uuid V) pid props \<infinity> (w :: 'k world) = (Some (Ok x), w'))"

lemma set_cloexec_ready:
  assumes "\<forall>fd k. fst (libc_fcntl_getfd K fd k) \<noteq> -1" "\<forall>fd fl k. fst (libc_fcntl_setfd K fd fl k) \<noteq> -1"
  shows "\<exists>k'. set_cloexec K fd k = (Ok (), k')"
proof -
  obtain fl e k1 where g: "libc_fcntl_getfd K fd k = (fl, e, k1)" by (metis prod_cases3)
  have "fl \<noteq> -1" using assms(1) g by (metis fst_conv)
  moreover have "\<exists>k'. fcntl_setfd K fd fl' k1 = (Ok (), k')" for fl'
  proof -
    obtain r e' k2 where s: "libc_fcntl_setfd K fd fl' k1 = (r, e', k2)" by (metis prod_cases3)
    have "r \<noteq> -1" using assms(2) s by (metis fst_conv)
    with s show ?thesis by (simp add: fcntl_setfd_def check_ret_def)
  qed
  ultimately show ?thesis using g by (simp add: set_cloexec_def bind_def fcntl_getfd_def check_ret_def)
qed

lemma error_pipe_ready:
  assumes "host_ready H S V"
  shows "\<exists>ep k'. error_pipe_new (h_kernel H) k = (Ok ep, k')"
proof -
  let ?K = "h_kernel H"
  obtain res e f k1 where p: "libc_pipe ?K k = (res, e, f, k1)" by (metis prod_cases4)
  have "res = 0" using assms p unfolding host_ready_def pipes_made_def by (metis fst_conv)
  obtain k2 where k2: "set_cloexec ?K (fst f) k1 = (Ok (), k2)"
    using set_cloexec_ready [of ?K "fst f" k1] assms by (auto simp: host_ready_def)
  obtain k3 where "set_cloexec ?K (snd f) k2 = (Ok (), k3)"
    using set_cloexec_ready [of ?K "snd f" k2] assms by (auto simp: host_ready_def)
  with p \<open>res = 0\<close> k2 show ?thesis
    by (simp add: error_pipe_new_def bind_def lift_err_def pipe_def check_ret_def)
qed

lemma close_ready:
  assumes "host_ready H S V"
  shows "\<exists>r k'. close (h_kernel H) fd k = (r, k') \<and> r \<noteq> Panic"
proof -
  obtain res e k' where c: "libc_close (h_kernel H) fd k = (res, e, k')" by (metis prod_cases3)
  have "res \<in> {0, -1}" using assms c unfolding host_ready_def by (metis fst_conv)
  with c show ?thesis by (auto simp: close_def check_ret_def)
qed

lemma in_parent_ready:
  assumes "host_ready H S V"
  shows "\<exists>r k'. in_parent (h_kernel H) h k = (r, k') \<and> r \<noteq> Panic"
proof -
  have "\<exists>r k'. bind (lift_err ErrIo (close (h_kernel H) fd)) (\<lambda>_. ret b) k = (r, k') \<and> r \<noteq> Panic" for fd b
  proof -
    obtain r k' where "close (h_kernel H) fd k = (r, k')" "r \<noteq> Panic" using close_ready [OF assms] by blast
    then show ?thesis by (cases r) (simp_all add: bind_def lift_err_def)
  qed
  then show ?thesis by (cases h) auto
qed

lemma parent_fds_ready:
  assumes "host_ready H S V"
  shows "\<exists>es k'. parent_fds (h_kernel H) fmt handlers k = (Ok es, k')"
proof (induction handlers arbitrary: k)
  case (Cons x handlers)
  obtain fd h where x: "x = (fd, h)" by (cases x)
  obtain r k1 where r: "in_parent (h_kernel H) h k = (r, k1)" "r \<noteq> Panic"
    using in_parent_ready [OF assms] by blast
  obtain es k2 where "parent_fds (h_kernel H) fmt handlers k1 = (Ok es, k2)" using Cons.IH by blast
  with r x show ?case by (cases r) (simp_all add: bind_def)
qed simp


text \<open>A process as \<open>start_procs\<close> registers it, with its pipe ends connected.\<close>

definition started :: "(pipe_key \<Rightarrow> raw_fd \<times> raw_fd) \<Rightarrow> proc_id \<times> proc_spec \<Rightarrow> proc \<Rightarrow> bool" where
  "started po x p \<longleftrightarrow> proc_fresh p \<and> 0 < p_pid p \<and>
     list_all2 (\<lambda>f h. handler_connected po (fst x) f h \<and> parse_fd (fst f) = Ok (fst h)) (fds (snd x)) (p_fd_handlers p)"

definition batch_writes :: "proc_specs \<Rightarrow> end_set" where
  "batch_writes procs = set (write_ends procs)"

definition batch_reads :: "proc_specs \<Rightarrow> end_set" where
  "batch_reads procs = set (read_ends procs)"

lemma batch_simps:
  "batch_writes [] = {}" "batch_reads [] = {}"
  "batch_writes ((i, spec) # procs) = write_set i (fds spec) \<union> batch_writes procs"
  "batch_reads ((i, spec) # procs) = read_set (fds spec) \<union> batch_reads procs"
  by (auto simp: batch_writes_def batch_reads_def write_ends_Cons read_ends_Cons write_set_def read_set_def
      write_ends_def read_ends_def)

lemma event_ready:
  assumes "host_ready H S V"
  shows "\<exists>ev k'. sv_event_new V k = (Ok ev, k')" "\<exists>k'. sv_event_write V ev k = (Ok (), k')"
  using assms unfolding host_ready_def by blast+

lemma start_parent_ready:
  assumes "host_ready H S V" "0 < pid"
  shows "\<exists>p s'. start_parent H S V i pid props ev handlers s = Some (Ok (), s') \<and>
    ss_sys s' = spawn i p (ss_sys s) \<and> ss_pipes s' = ss_pipes s \<and> ss_end s' = ss_end s \<and>
    proc_fresh p \<and> p_pid p = pid \<and> p_fd_handlers p = handlers"
proof -
  obtain sl sc w where u: "set_up_slice S (sv_uuid V) (word_of_int pid) props \<infinity> \<lparr>w_now = ss_now s, w_bus = ss_k s\<rparr>
      = (Some (Ok (sl, sc)), w)"
    using assms(1) unfolding host_ready_def by (metis surj_pair)
  obtain k1 where e: "sv_event_write V ev (w_bus w) = (Ok (), k1)"
    using event_ready(2) [OF assms(1)] by blast
  obtain es k2 where f: "parent_fds (h_kernel H) (err_text V) handlers k1 = (Ok es, k2)"
    using parent_fds_ready [OF assms(1)] by blast
  let ?p = "proc_new pid sl sc (\<not> Option.is_none S) (h_utc H (ss_k s)) (h_instant H (ss_k s)) handlers\<lparr>p_errors := es\<rparr>"
  have "start_parent H S V i pid props ev handlers s =
      Some (Ok (), s\<lparr>ss_now := w_now w, ss_k := k2, ss_sys := spawn i ?p (ss_sys s)\<rparr>)"
    using u e f by (simp add: start_parent_def Let_def run_then_def dropping_def await_units_def in_k_def
        unwrapped_def register_proc_def)
  then show ?thesis by (intro exI [of _ ?p]) (simp, simp add: proc_new_def)
qed

lemma start_one_ready:
  assumes "host_ready H S V" "pipes_ok po W R (ss_pipes s)" "fds_distinct (fds spec)" "argv spec \<noteq> []"
    and "write_set i (fds spec) \<inter> W = {}" "distinct (fds_read_ends (fds spec))" "read_set (fds spec) \<inter> R = {}"
    and "None \<notin> snd ` read_set (fds spec)"
  shows "\<exists>p po' s'. start_one H S V i spec s = Some (Ok (), s') \<and> ss_sys s' = spawn i p (ss_sys s) \<and>
    ss_end s' = ss_end s \<and>
    pipes_ok po' (write_set i (fds spec) \<union> W) (read_set (fds spec) \<union> R) (ss_pipes s') \<and>
    same_pipes (W \<union> R) po po' \<and> started po' (i, spec) p"
proof -
  let ?K = "h_kernel H"
  obtain ep k1 where ep: "error_pipe_new ?K (ss_k s) = (Ok ep, k1)" using error_pipe_ready [OF assms(1)] by blast
  obtain ev k2 where ev: "sv_event_new V k1 = (Ok ev, k2)" using event_ready(1) [OF assms(1)] by blast
  have "pipes_made ?K" using assms(1) by (simp add: host_ready_def)
  then obtain hs po' p' k3 where hs: "make_fd_handlers ?K i (fds spec) (ss_pipes s, k2) = (Ok hs, p', k3)"
      "pipes_ok po' (write_set i (fds spec) \<union> W) (read_set (fds spec) \<union> R) p'" "same_pipes (W \<union> R) po po'"
      "list_all2 (\<lambda>f h. handler_connected po' i f h \<and> parse_fd (fst f) = Ok (fst h)) (fds spec) hs"
    using make_fd_handlers_ok [OF _ assms(2,3,5-8), of ?K k2] by blast
  obtain pid errno k4 where pid: "libc_fork ?K k3 = (pid, errno, k4)" by (metis prod_cases3)
  have pos: "0 < pid" using assms(1) pid unfolding host_ready_def by (metis fst_conv)
  have "fork ?K k3 = (Ok pid, k4)" using pid pos by (simp add: fork_def check_ret_def)
  let ?s = "s\<lparr>ss_pipes := p', ss_k := k4\<rparr>"
  obtain p s' where p: "start_parent H S V i pid (systemd_props spec) ev hs ?s = Some (Ok (), s')"
      "ss_sys s' = spawn i p (ss_sys ?s)" "ss_pipes s' = ss_pipes ?s" "ss_end s' = ss_end ?s"
      "proc_fresh p \<and> p_pid p = pid \<and> p_fd_handlers p = hs"
    using start_parent_ready [OF assms(1) pos] by blast
  obtain exe_path where "get_exe (proc_spec.exe spec) (argv spec) = (Ok exe_path :: (string, error) outcome)"
    using assms(4) by (cases "argv spec") auto
  with ep ev hs(1) \<open>fork ?K k3 = (Ok pid, k4)\<close> pos p(1)
  have "start_one H S V i spec s = Some (Ok (), s')"
    by (simp add: start_one_def Let_def run_then_def or_exit_def in_k_def with_pipes_def unwrapped_def)
  with p hs pos show ?thesis
    by (intro exI [of _ p] exI [of _ po'] exI [of _ s']) (simp add: started_def)
qed

text \<open>The registrations of a batch, in order.\<close>

definition spawn_all :: "(proc_id \<times> proc) list \<Rightarrow> sys \<Rightarrow> sys" where
  "spawn_all xs s = foldl (\<lambda>s (i, p). spawn i p s) s xs"

lemma started_same:
  assumes "started po x p" "same_pipes E po po'" "write_set (fst x) (fds (snd x)) \<union> read_set (fds (snd x)) \<subseteq> E"
  shows "started po' x p"
proof -
  have ends: "spec_writes (fst x) f \<union> set (read_end (snd f)) \<subseteq> E" if "f \<in> set (fds (snd x))" for f
    using assms(3) that
    by (auto simp: write_set_def fds_write_ends_def spec_writes_def read_set_def fds_read_ends_def
        split: if_splits intro!: rev_image_eqI)
  show ?thesis
    using assms(1) unfolding started_def
    by (auto elim!: list.rel_mono_strong intro: handler_connected_same [OF _ assms(2)] dest: ends)
qed


lemma batch_ok_Cons:
  assumes "batch_ok W R ((i, spec) # procs)"
  shows "fds_distinct (fds spec)" "argv spec \<noteq> []" "write_set i (fds spec) \<inter> W = {}"
    "distinct (fds_read_ends (fds spec))" "read_set (fds spec) \<inter> R = {}" "None \<notin> snd ` read_set (fds spec)"
    "batch_ok (write_set i (fds spec) \<union> W) (read_set (fds spec) \<union> R) procs"
  using assms by (auto simp: batch_ok_def write_ends_Cons read_ends_Cons write_set_def read_set_def)

lemma start_each_ready:
  assumes "host_ready H S V" "pipes_ok po W R (ss_pipes s)" "batch_ok W R procs"
  shows "\<exists>ps po' s'. start_each H S V procs s = Some (Ok (), s') \<and>
    ss_sys s' = spawn_all (zip (map fst procs) ps) (ss_sys s) \<and> ss_end s' = ss_end s \<and>
    pipes_ok po' (batch_writes procs \<union> W) (batch_reads procs \<union> R) (ss_pipes s') \<and>
    same_pipes (W \<union> R) po po' \<and> list_all2 (started po') procs ps"
  using assms(2,3)
proof (induction procs arbitrary: po W R s)
  case Nil
  then show ?case
    by (intro exI [of _ "[]"] exI [of _ po] exI [of _ s]) (simp add: spawn_all_def batch_simps)
next
  case (Cons x procs)
  obtain i spec where x: "x = (i, spec)" by (cases x)
  note b = batch_ok_Cons [OF Cons.prems(2) [unfolded x]]
  obtain p po1 s1 where 1: "start_one H S V i spec s = Some (Ok (), s1)" "ss_sys s1 = spawn i p (ss_sys s)"
      "ss_end s1 = ss_end s" "pipes_ok po1 (write_set i (fds spec) \<union> W) (read_set (fds spec) \<union> R) (ss_pipes s1)"
      "same_pipes (W \<union> R) po po1" "started po1 (i, spec) p"
    using start_one_ready [OF assms(1) Cons.prems(1) b(1-6)] by blast
  from Cons.IH [OF 1(4) b(7)] obtain ps po' s' where 2: "start_each H S V procs s1 = Some (Ok (), s')"
      "ss_sys s' = spawn_all (zip (map fst procs) ps) (ss_sys s1)" "ss_end s' = ss_end s1"
      "pipes_ok po' (batch_writes procs \<union> (write_set i (fds spec) \<union> W)) (batch_reads procs \<union> (read_set (fds spec) \<union> R)) (ss_pipes s')"
      "same_pipes ((write_set i (fds spec) \<union> W) \<union> (read_set (fds spec) \<union> R)) po1 po'" "list_all2 (started po') procs ps"
    by blast
  have "started po' (i, spec) p" using 1(6) 2(5) by (rule started_same) auto
  moreover have "same_pipes (W \<union> R) po po'" using 1(5) 2(5) by (rule same_pipes_trans) auto
  moreover have "batch_writes procs \<union> (write_set i (fds spec) \<union> W) = batch_writes (x # procs) \<union> W"
    "batch_reads procs \<union> (read_set (fds spec) \<union> R) = batch_reads (x # procs) \<union> R"
    by (auto simp: x batch_simps)
  ultimately show ?case
    using 1 2 by (intro exI [of _ "p # ps"] exI [of _ po'] exI [of _ s']) (simp add: x spawn_all_def)
qed

text \<open>Registering a batch is a run of the system of tasks.\<close>

lemma spawn_all_steps:
  "list_all (\<lambda>(_, p). proc_fresh p) xs \<Longrightarrow> (sys_step H S)\<^sup>*\<^sup>* s (spawn_all xs s)"
proof (induction xs arbitrary: s)
  case (Cons x xs)
  obtain i p where x: "x = (i, p)" by (cases x)
  with Cons.prems have "sys_step H S s (spawn i p s)" by (simp add: sys_step.Spawn)
  moreover from Cons x have "(sys_step H S)\<^sup>*\<^sup>* (spawn i p s) (spawn_all xs (spawn i p s))" by simp
  ultimately show ?case by (simp add: spawn_all_def x converse_rtranclp_into_rtranclp)
qed (simp add: spawn_all_def)

lemma started_fresh: "list_all2 (started po) procs ps \<Longrightarrow> list_all (\<lambda>(_, p). proc_fresh p) (zip is ps)"
  by (auto simp: list_all_iff list_all2_conv_all_nth set_zip started_def)

lemma start_checks_Ok:
  assumes "bt_wf procs"
  shows "start_checks seed procs r = Ok () \<longleftrightarrow>
    (\<forall>i \<in> set (bt_keys procs). procs_get r i = None) \<and> pipes_matched procs \<and> reg_shutdown r = Active"
proof -
  have v: "validate_procs_fds seed procs \<noteq> Panic" "validate_procs_fds seed procs = Ok () \<longleftrightarrow> pipes_matched procs"
    using validate_decides [OF assms] by blast+
  have g: "procs_get r i = None \<longleftrightarrow> i \<notin> set (get_proc_ids r)" for i
    by (simp add: procs_get_def bt_get_in_keys get_proc_ids_def)
  let ?dup = "find (\<lambda>i. i \<in> set (get_proc_ids r)) (bt_keys procs)"
  show ?thesis
  proof (cases ?dup)
    case None
    then have "start_checks seed procs r = and_then (map_err ErrSpec (validate_procs_fds seed procs)) (\<lambda>_.
        if get_shutdown r \<noteq> Active then Err (ShuttingDown (get_shutdown r)) else Ok ())"
      by (simp add: start_checks_def)
    moreover have "\<forall>i \<in> set (bt_keys procs). procs_get r i = None" using None by (auto simp: g find_None_iff)
    ultimately show ?thesis
      using v by (cases "validate_procs_fds seed procs") (auto simp: get_shutdown_def)
  next
    case (Some i)
    then have "i \<in> set (bt_keys procs)" "i \<in> set (get_proc_ids r)" by (auto simp: find_Some_iff)
    with Some show ?thesis by (auto simp: start_checks_def g)
  qed
qed

text \<open>
  C1 A batch that passes the checks is started as a whole, on a host that can: one forked process per
  spec, registered in key order with its task; every pipe end a spec names is held by its process and
  belongs to the same pipe as the other end; both ends of all pipes have been used, so that the final
  assertion does not fail; and the registrations are steps of the system of tasks.
\<close>

theorem start_procs_accepted:
  assumes "host_ready H S V" "bt_wf procs" "start_checks seed procs (s_reg (ss_sys s)) = Ok ()"
    and "list_all (\<lambda>(_, p). argv p \<noteq> []) procs"
  shows "\<exists>ps po s'. start_procs H S V seed procs s = Some (Ok (), s') \<and>
    ss_sys s' = spawn_all (zip (bt_keys procs) ps) (ss_sys s) \<and> ss_end s' = ss_end s \<and>
    list_all2 (started po) procs ps \<and> (sys_step H S)\<^sup>*\<^sup>* (ss_sys s) (ss_sys s')"
proof -
  have valid: "pipes_matched procs" using start_checks_Ok [OF assms(2)] assms(3) by blast
  note b = batch_ok_valid [OF assms(2) valid assms(4)]
  have "pipes_ok undefined {} {} (ss_pipes (s\<lparr>ss_pipes := []\<rparr>))" by (simp add: pipes_ok_def bt_wf_def bt_get_None)
  from start_each_ready [OF assms(1) this b(1)] obtain ps po s' where r:
      "start_each H S V procs (s\<lparr>ss_pipes := []\<rparr>) = Some (Ok (), s')"
      "ss_sys s' = spawn_all (zip (map fst procs) ps) (ss_sys s)" "ss_end s' = ss_end s"
      "pipes_ok po (batch_writes procs) (batch_reads procs) (ss_pipes s')" "list_all2 (started po) procs ps"
    by auto
  have "batch_writes procs = batch_reads procs" using b(2) by (simp add: batch_writes_def batch_reads_def)
  with r(4) have "pipes_close (h_kernel H) (ss_pipes s') 0 k = (Ok 0, k)" for k
    using pipes_close_used [of po "batch_reads procs" "ss_pipes s'"] by simp
  then have "start_procs H S V seed procs s = Some (Ok (), s')"
    using assms(3) r(1) by (simp add: start_procs_def start_around_def run_then_def with_pipes_def unwrapped_def)
  moreover have "(sys_step H S)\<^sup>*\<^sup>* (ss_sys s) (ss_sys s')"
    unfolding r(2) by (rule spawn_all_steps) (rule started_fresh [OF r(5)])
  ultimately show ?thesis
    using r by (intro exI [of _ ps] exI [of _ po] exI [of _ s']) (simp add: bt_keys_def)
qed

text \<open>
  C7 A batch is refused as a whole: the checks pass exactly when no ID is in use, the fds and pipes of
  the specs are valid and the agent is not shutting down; otherwise the result is an error, and
  nothing has been forked, opened or registered.
\<close>

theorem start_procs_refused:
  assumes "bt_wf procs"
  shows "if (\<forall>i \<in> set (bt_keys procs). procs_get (s_reg (ss_sys s)) i = None) \<and> pipes_matched procs \<and>
        reg_shutdown (s_reg (ss_sys s)) = Active
    then start_checks seed procs (s_reg (ss_sys s)) = Ok ()
    else \<exists>e. start_procs H S V seed procs s = Some (Err e, s\<lparr>ss_pipes := []\<rparr>)"
proof (cases "start_checks seed procs (s_reg (ss_sys s))")
  case (Ok u)
  with start_checks_Ok [OF assms, of seed "s_reg (ss_sys s)"] show ?thesis by simp
next
  case (Err e)
  with start_checks_Ok [OF assms, of seed "s_reg (ss_sys s)"] show ?thesis
    by (auto simp: start_procs_def start_around_def run_then_def)
next
  case Panic
  with validate_decides [OF assms, of seed] have False
    by (cases "validate_procs_fds seed procs") (auto simp: start_checks_def split: option.splits if_splits)
  then show ?thesis ..
qed

section \<open>The child\<close>

text \<open>All handlers attached without an error.\<close>

fun attached :: "('k, 'z) kernel_scheme \<Rightarrow> fd_handlers \<Rightarrow> 'k \<Rightarrow> 'k \<Rightarrow> bool" where
  "attached K [] k k' \<longleftrightarrow> k' = k"
| "attached K ((_, h) # rest) k k' \<longleftrightarrow> (\<exists>k1. in_child K h k = (Ok (), k1) \<and> attached K rest k1 k')"

lemma attempt_True: "attempt K efd msg m ok k = (Ok True, k') \<Longrightarrow> ok \<and> (\<exists>x. m k = (Ok x, k'))"
  by (auto simp: attempt_def bind_def split: prod.splits outcome.splits)

lemma bind_Ok: "bind m f k = (Ok y, k') \<longleftrightarrow> (\<exists>x k1. m k = (Ok x, k1) \<and> f x k1 = (Ok y, k'))"
  by (auto simp: bind_def split: prod.splits outcome.splits)

lemma attach_all_True: "attach_all K efd fmt hs ok k = (Ok True, k') \<Longrightarrow> ok \<and> attached K hs k k'"
proof (induction hs arbitrary: ok k)
  case (Cons x hs)
  obtain fd h where x: "x = (fd, h)" by (cases x)
  from Cons.prems x obtain b k1 where
      a: "attempt K efd (\<lambda>e. ''failed to set up fd '' @ show_int fd @ '': '' @ fmt e) (in_child K h) ok k = (Ok b, k1)"
      and r: "attach_all K efd fmt hs b k1 = (Ok True, k')"
    by (auto simp: bind_Ok)
  from Cons.IH [OF r] a have "ok \<and> (\<exists>u. in_child K h k = (Ok u, k1))" by (auto dest: attempt_True)
  with Cons.IH [OF r] x show ?case by auto
qed simp

lemma unwrapped_Ok: "unwrapped m k = (Ok x, k') \<longleftrightarrow> m k = (Ok x, k')"
  by (cases "m k"; cases "fst (m k)") (auto simp: unwrapped_def)

text \<open>
  C2 The forked child never runs a program that was not set up as asked: if it does not panic, it either
  exits with status 63, or executes exactly the program, arguments and environment of the spec, and
  then the executable is the restricted one if there is a restriction, every fd has been set up, the
  pipes of other processes are closed, and it has its own session and the parent's go-ahead, with all
  of this done in this order.
\<close>

theorem child_execs_as_asked:
  assumes "child_main V K ep ev handlers pipes exe_path args env_vars k = (Ok e, k')"
  shows "e = ExitCode 63 \<or>
    e = Execed exe_path args (map (\<lambda>(n, v). n @ ''='' @ v) env_vars) \<and> sv_restricted V \<in> {None, Some exe_path} \<and>
    (\<exists>k1 k2 k3 k4 n pg. close K (read_fd ep) k = (Ok (), k1) \<and> attached K handlers k1 k2 \<and>
       pipes_close K pipes 0 k2 = (Ok n, k3) \<and> setsid K k3 = (Ok pg, k4) \<and> sv_event_read V ev k4 = (Ok (), k'))"
proof -
  from assms [unfolded child_main_def bind_Ok unwrapped_Ok] obtain u k1 ok0 ka ok1 k2 n k3 ok2 k4 ok3 k5 where
      c: "close K (read_fd ep) k = (Ok u, k1)"
      and r: "attempt K (write_fd ep) id (restricted_check (sv_restricted V) exe_path) True k1 = (Ok ok0, ka)"
      and a: "attach_all K (write_fd ep) (err_text V) handlers ok0 ka = (Ok ok1, k2)"
      and p: "pipes_close K pipes 0 k2 = (Ok n, k3)"
      and s: "attempt K (write_fd ep) (\<lambda>e. ''setsid failed: '' @ sv_io_fmt V e) (setsid K) ok1 k3 = (Ok ok2, k4)"
      and v: "attempt K (write_fd ep) (\<lambda>e. ''read eventfd failed: '' @ e) (sv_event_read V ev) ok2 k4 = (Ok ok3, k5)"
      and x: "(if ok3 then child_exec K (write_fd ep) (sv_io_fmt V) exe_path args env_vars else ret (ExitCode 63)) k5 = (Ok e, k')"
    by blast
  show ?thesis
  proof (cases "e = ExitCode 63")
    case False
    with x have ok3: ok3 and e: "child_exec K (write_fd ep) (sv_io_fmt V) exe_path args env_vars k5 = (Ok e, k')"
      by (auto split: if_splits)
    from e False have ex: "e = Execed exe_path args (map (\<lambda>(n, v). n @ ''='' @ v) env_vars)" "k' = k5"
      by (auto simp: child_exec_def Let_def bind_Ok split: if_splits)
    from v ok3 have ok2: ok2 and v': "sv_event_read V ev k4 = (Ok (), k5)" by (auto dest: attempt_True)
    from s ok2 have ok1: ok1 and s': "\<exists>pg. setsid K k3 = (Ok pg, k4)" by (auto dest: attempt_True)
    from a ok1 have ok0: ok0 and a': "attached K handlers ka k2" by (auto dest: attach_all_True)
    from r ok0 have r': "restricted_check (sv_restricted V) exe_path k1 = (Ok (), ka)" by (auto dest: attempt_True)
    then have "ka = k1" "sv_restricted V \<in> {None, Some exe_path}"
      by (auto simp: restricted_check_def split: option.splits if_splits)
    have "close K (read_fd ep) k = (Ok (), k1)" using c by simp
    with a' p s' v' ex \<open>ka = k1\<close> \<open>sv_restricted V \<in> {None, Some exe_path}\<close> show ?thesis by blast
  qed simp
qed

text \<open>
  C38 When systemd refuses the units of a process that has been forked, the start fails with its error and
  the process is lost: it is not registered and has no task, and no event has told it to go on, so
  that it waits for ever.
\<close>

theorem unit_error_strands:
  assumes "set_up_slice S (sv_uuid V) (word_of_int pid) props \<infinity> \<lparr>w_now = ss_now s, w_bus = ss_k s\<rparr> = (Some (Err e), w)"
  shows "\<exists>s'. start_parent H S V i pid props ev handlers s = Some (Err e, s') \<and> ss_sys s' = ss_sys s \<and>
    ss_k s' = drop_handlers (h_kernel H) handlers (w_bus w)"
  using assms by (simp add: start_parent_def Let_def run_then_def dropping_def await_units_def)


section \<open>The properties at a concrete host\<close>

text \<open>A kernel that counts: the next descriptor and pid is the state.\<close>

definition counting_kernel :: "int kernel" where
  "counting_kernel = null_kernel
     \<lparr>libc_pipe := (\<lambda>k. (0, 0, (k, k + 1), k + 2)), libc_close := (\<lambda>_ k. (0, 0, k)),
      libc_fcntl_getfd := (\<lambda>_ k. (0, 0, k)), libc_fcntl_setfd := (\<lambda>_ _ k. (0, 0, k)),
      libc_fork := (\<lambda>k. (max 1 k, 0, k + 1)), libc_setsid := (\<lambda>k. (5, 0, k)), libc_execve := (\<lambda>_ _ _ k. (0, 0, k))\<rparr>"

definition sample_services :: "int services" where
  "sample_services = \<lparr>sv_event_new = (\<lambda>k. (Ok k, k + 1)), sv_event_read = (\<lambda>_ k. (Ok (), k)),
     sv_event_write = (\<lambda>_ k. (Ok (), k)), sv_env = [], sv_uuid = (\<lambda>_. ''u''), sv_io_fmt = (\<lambda>_. ''error''),
     sv_dbg = (\<lambda>_. ''''), sv_restricted = None\<rparr>"

lemma counting_ready: "host_ready (plain_host counting_kernel) None sample_services"
  by (auto simp: host_ready_def plain_host_def counting_kernel_def null_kernel_def pipes_made_def
      sample_services_def set_up_slice_def finish_def)

definition sample_batch :: proc_specs where
  "sample_batch = [(''a'', default_proc\<lparr>argv := [''/bin/echo''], fds := [(''stdout'', FdPipeWrite)]\<rparr>),
     (''b'', default_proc\<lparr>argv := [''/bin/cat''], fds := [(''stdin'', FdPipeRead ''a'' ''1'')]\<rparr>)]"

definition sample_start :: "int start_state" where
  "sample_start = \<lparr>ss_pipes = [], ss_sys = sys_init, ss_now = 0, ss_k = 10, ss_end = None\<rparr>"

lemma sample_batch_ok: "bt_wf sample_batch" "pipes_matched sample_batch"
  by (simp add: bt_wf_def sample_batch_def) code_simp

theorem start_procs_refused_witness:
  "start_checks 0 sample_batch (s_reg (ss_sys sample_start)) = Ok ()"
  using start_procs_refused [OF sample_batch_ok(1), of sample_start 0] sample_batch_ok(2)
  by (simp add: sample_start_def sys_init_def procs_new_def procs_get_def bt_get_None)

theorem start_procs_accepted_witness:
  "\<exists>p q po s'. start_procs (plain_host counting_kernel) None sample_services 0 sample_batch sample_start = Some (Ok (), s') \<and>
     ss_sys s' = spawn ''b'' q (spawn ''a'' p sys_init) \<and>
     snd (hd (p_fd_handlers p)) = HPipeWrite 1 (snd (po (''a'', 1 :: raw_fd))) \<and>
     snd (hd (p_fd_handlers q)) = HPipeRead 0 (fst (po (''a'', 1)))"
proof -
  have "list_all (\<lambda>(_, p). argv p \<noteq> []) sample_batch" by (simp add: sample_batch_def)
  moreover have "start_checks 0 sample_batch (s_reg (ss_sys sample_start)) = Ok ()"
    using start_checks_Ok [OF sample_batch_ok(1)] sample_batch_ok(2)
    by (simp add: sample_start_def sys_init_def procs_new_def procs_get_def bt_get_None)
  ultimately obtain ps po s' where s': "start_procs (plain_host counting_kernel) None sample_services 0 sample_batch sample_start = Some (Ok (), s')"
      "ss_sys s' = spawn_all (zip (bt_keys sample_batch) ps) (ss_sys sample_start)" "list_all2 (started po) sample_batch ps"
    using start_procs_accepted [OF counting_ready sample_batch_ok(1), of 0 sample_start] by blast
  have fds1: "parse_fd ''stdout'' = Ok 1" "parse_fd ''stdin'' = Ok 0" "parse_fd ''1'' = Ok 1" by code_simp+
  from s'(3) obtain p q where ps: "ps = [p, q]"
    by (auto simp: sample_batch_def list_all2_Cons1)
  with s'(3) fds1 have "snd (hd (p_fd_handlers p)) = HPipeWrite 1 (snd (po (''a'', 1)))"
     "snd (hd (p_fd_handlers q)) = HPipeRead 0 (fst (po (''a'', 1)))"
    by (auto simp: sample_batch_def started_def list_all2_Cons1)
  moreover have "ss_sys s' = spawn ''b'' q (spawn ''a'' p sys_init)"
    using s'(2) ps by (simp add: sample_batch_def bt_keys_def spawn_all_def sample_start_def)
  ultimately show ?thesis
    using s'(1) by blast
qed

theorem child_execs_as_asked_witness:
  "\<exists>k'. child_main sample_services counting_kernel \<lparr>read_fd = 3, write_fd = 4\<rparr> 5 [(1, HClose 1)] [] ''/bin/echo'' [''echo''] [(''A'', ''1'')] 10
     = (Ok (Execed ''/bin/echo'' [''echo''] [''A=1'']), k') \<and> attached counting_kernel [(1, HClose 1)] 10 10"
proof -
  have c: "child_main sample_services counting_kernel \<lparr>read_fd = 3, write_fd = 4\<rparr> 5 [(1, HClose 1)] [] ''/bin/echo'' [''echo''] [(''A'', ''1'')] 10
     = (Ok (Execed ''/bin/echo'' [''echo''] [''A=1'']), 10)"
    by (simp add: child_main_def counting_kernel_def null_kernel_def sample_services_def bind_def unwrapped_def
        close_def check_ret_def attempt_def restricted_check_def in_child_def lift_err_def setsid_def child_exec_def)
  from child_execs_as_asked [OF this] obtain k1 k2 where k: "close counting_kernel 3 10 = (Ok (), k1)"
      "attached counting_kernel [(1, HClose 1)] k1 k2" "pipes_close counting_kernel [] 0 k2 = (Ok 0, 10)"
    by (auto simp: setsid_def counting_kernel_def check_ret_def sample_services_def)
  then have "k1 = 10" "k2 = 10" by (simp_all add: close_def counting_kernel_def check_ret_def)
  with c k show ?thesis by blast
qed

text \<open>A systemd that refuses every transient unit.\<close>

definition refusing_bus :: "int systemd" where
  "refusing_bus = \<lparr>sd_receive_job_removed = (\<lambda>b. (Ok 0, 1, b)), sd_removed = (\<lambda>_ _. ([], False)),
     sd_start_transient_unit = (\<lambda>_ _ _ b. (Err (OtherZbus ''refused''), 1, b)), sd_stop_unit = (\<lambda>_ _ b. (Ok ''job'', 1, b)),
     sd_reset_failed_unit = (\<lambda>_ b. (Ok (), 1, b)), sd_get_unit = (\<lambda>_ b. (Ok ''unit'', 1, b)),
     sd_slice_proxy = (\<lambda>_ b. (Ok ''p'', 1, b)), sd_unit_proxy = (\<lambda>_ b. (Ok ''u'', 1, b)),
     sd_scope_proxy = (\<lambda>_ b. (Ok ''s'', 1, b)), sd_control_group = (\<lambda>_ b. (Ok ''/x'', 1, b)),
     sd_active_state = (\<lambda>_ b. (Ok ''failed'', 1, b)), sd_result = (\<lambda>_ b. (Ok ''oom-kill'', 1, b))\<rparr>"

theorem unit_error_strands_witness:
  "\<exists>s'. start_parent (plain_host counting_kernel) (Some refusing_bus) sample_services ''a'' 100
      (systemd_props default_proc) 5 [] sample_start = Some (Err (ErrSystemd (OtherZbus ''refused'')), s') \<and>
     ss_sys s' = sys_init"
proof -
  have "set_up_slice (Some refusing_bus) (sv_uuid sample_services) (word_of_int 100) (systemd_props default_proc) \<infinity>
      \<lparr>w_now = ss_now sample_start, w_bus = ss_k sample_start\<rparr> =
    (Some (Err (ErrSystemd (OtherZbus ''refused''))), \<lparr>w_now = 2, w_bus = 10\<rparr>)"
    by (simp add: set_up_slice_def try_await_def as_systemd_def and_await_def start_transient_unit_def request_def
        refusing_bus_def finish_def sample_start_def)
  from unit_error_strands [OF this, of "plain_host counting_kernel" "''a''" 5 "[]"] show ?thesis
    by (auto simp: sample_start_def)
qed

end
