(* ===== verification/Registry.thy ===== *)
theory Registry
  imports StartProcs
begin

text \<open>
  The registry as its clients see it, the agent protocol and the HTTP service: the IDs, look-up, and
  removal of what is not running.  The interface is a locale with the laws the clients rely on; it is
  interpreted on \<open>SharedProcs\<close> of \<open>Procs\<close>.
\<close>

locale proc_store =
  fixes ok :: "'r \<Rightarrow> bool"
    and ids :: "'r \<Rightarrow> proc_id set"
    and look :: "'r \<Rightarrow> proc_id \<Rightarrow> 'a option"
    and busy :: "'r \<Rightarrow> 'a \<Rightarrow> bool"
    and remove :: "proc_id \<Rightarrow> 'r \<Rightarrow> ('a, error) outcome \<times> 'r"
  assumes look_ids: "ok r \<Longrightarrow> look r i \<noteq> None \<longleftrightarrow> i \<in> ids r"
    and remove_none: "ok r \<Longrightarrow> look r i = None \<Longrightarrow> remove i r = (Err (NoProcId i), r)"
    and remove_busy: "ok r \<Longrightarrow> look r i = Some a \<Longrightarrow> busy r a \<Longrightarrow> remove i r = (Err (ProcRunning i), r)"
    and remove_idle: "ok r \<Longrightarrow> look r i = Some a \<Longrightarrow> \<not> busy r a \<Longrightarrow>
      \<exists>r'. remove i r = (Ok a, r') \<and> ok r' \<and> look r' = (look r)(i := None)"
begin

lemma remove_cases:
  assumes "ok r"
  obtains (none) "look r i = None" "remove i r = (Err (NoProcId i), r)"
    | (busy) a where "look r i = Some a" "busy r a" "remove i r = (Err (ProcRunning i), r)"
    | (idle) a r' where "look r i = Some a" "\<not> busy r a" "remove i r = (Ok a, r')" "ok r'" "look r' = (look r)(i := None)"
  using remove_none [OF assms] remove_busy [OF assms] remove_idle [OF assms] by (metis option.exhaust)

lemma remove_twice:
  assumes "ok r" "remove i r = (Ok a, r')"
  shows "remove i r' = (Err (NoProcId i), r')" "ids r' = ids r - {i}"
proof -
  from assms obtain "ok r'" "look r' = (look r)(i := None)"
    by (cases rule: remove_cases [OF assms(1), of i]) auto
  then show "remove i r' = (Err (NoProcId i), r')" by (simp add: remove_none)
  show "ids r' = ids r - {i}"
  proof (rule set_eqI)
    fix j
    show "j \<in> ids r' \<longleftrightarrow> j \<in> ids r - {i}"
      using look_ids [OF assms(1), of j] look_ids [OF \<open>ok r'\<close>, of j] \<open>look r' = (look r)(i := None)\<close>
      by (auto split: if_splits)
  qed
qed

end

lemma procs_get_ids: "procs_get r i \<noteq> None \<longleftrightarrow> i \<in> reg_ids r"
  by (simp add: procs_get_def reg_ids_def get_proc_ids_def bt_get_in_keys)

lemma remove_stopped:
  assumes "reg_ok r" "procs_get r i = Some a" "get_state (proc_at r a) \<noteq> Running"
  shows "\<exists>r'. remove_if_not_running i r = (Ok a, r') \<and> reg_ok r' \<and> procs_get r' = (procs_get r)(i := None)"
proof -
  let ?r' = "notify (NotiDelete i) (check_idling (r\<lparr>reg_procs := bt_remove i (reg_procs r)\<rparr>))"
  have r: "remove_if_not_running i r = (Ok a, ?r')" using assms(2,3) by (simp add: remove_if_not_running_def)
  moreover have "bt_wf (reg_procs r)" using assms(1) by (simp add: reg_ok_def)
  then have "procs_get ?r' = (procs_get r)(i := None)" by (auto simp: procs_get_def bt_get_remove)
  ultimately show ?thesis using reg_ok_remove [OF assms(1) r] by blast
qed

interpretation store: proc_store reg_ok reg_ids procs_get "\<lambda>r a. get_state (proc_at r a) = Running" remove_if_not_running
proof
  show "procs_get r i \<noteq> None \<longleftrightarrow> i \<in> reg_ids r" for r i by (rule procs_get_ids)
  show "procs_get r i = None \<Longrightarrow> remove_if_not_running i r = (Err (NoProcId i), r)" for r i
    by (simp add: remove_if_not_running_def)
  show "procs_get r i = Some a \<Longrightarrow> get_state (proc_at r a) = Running \<Longrightarrow>
      remove_if_not_running i r = (Err (ProcRunning i), r)" for r i a
    by (simp add: remove_if_not_running_def)
qed (rule remove_stopped)

section \<open>Every call is a run of the task system\<close>

text \<open>The steps of the system that a request can cause: registrations and deletions.\<close>

inductive serve_step :: "sys \<Rightarrow> sys \<Rightarrow> bool" where
  Register: "proc_fresh p \<Longrightarrow> serve_step s (spawn i p s)"
| Delete: "remove_if_not_running i (s_reg s) = (res, r) \<Longrightarrow> serve_step s (set_reg r s)"

lemma serve_steps: "serve_step\<^sup>*\<^sup>* s s' \<Longrightarrow> (sys_step H S)\<^sup>*\<^sup>* s s'"
proof (induction rule: rtranclp_induct)
  case (step s s')
  from step.hyps(2) have "sys_step H S s s'" by cases (auto intro: sys_step.Spawn sys_step.Removed)
  with step.IH show ?case by (rule rtranclp.rtrancl_into_rtrancl)
qed simp

text \<open>On the registry they are operations, by which the notifications follow it.\<close>

lemma serve_op:
  assumes "serve_step s s'"
  shows "\<exists>op. s_reg s' = apply_op (s_reg s) op"
  using assms
proof cases
  case (Register p i)
  then have "s_reg s' = apply_op (s_reg s) (OpStart i p)" by (simp add: spawn_def Let_def)
  then show ?thesis by blast
next
  case (Delete i res r)
  then have "s_reg s' = apply_op (s_reg s) (OpRemove i)" by simp
  then show ?thesis by blast
qed

lemma serve_followed:
  "serve_step\<^sup>*\<^sup>* s s' \<Longrightarrow> reg_ok (s_reg s) \<Longrightarrow> 0 < reg_receivers (s_reg s) \<Longrightarrow> followed (s_reg s) (s_reg s')"
proof (induction rule: rtranclp_induct)
  case base
  then show ?case by (simp add: followed_def)
next
  case (step s1 s2)
  have f: "followed (s_reg s) (s_reg s1)" by (rule step.IH [OF step.prems])
  then have "reg_ok (s_reg s1)" "0 < reg_receivers (s_reg s1)" by (auto simp: followed_def)
  then have "followed (s_reg s1) (s_reg s2)" using serve_op [OF step.hyps(2)] apply_op_followed by metis
  with f show ?case by (rule followed_trans)
qed

text \<open>A run on the state of the server that changes the task system only by such steps.\<close>

definition by_steps :: "('a, 'e, 'k start_state) run \<Rightarrow> bool" where
  "by_steps m \<longleftrightarrow> (\<forall>s r s'. m s = Some (r, s') \<longrightarrow> serve_step\<^sup>*\<^sup>* (ss_sys s) (ss_sys s'))"

lemma by_stepsD: "by_steps m \<Longrightarrow> m s = Some (r, s') \<Longrightarrow> serve_step\<^sup>*\<^sup>* (ss_sys s) (ss_sys s')"
  by (simp add: by_steps_def)

lemma by_steps_run_then:
  assumes "by_steps m" "\<And>x. by_steps (f x)"
  shows "by_steps (run_then m f)"
  unfolding by_steps_def
proof (intro allI impI)
  fix s r s' assume run: "run_then m f s = Some (r, s')"
  then obtain q s1 where m: "m s = Some (q, s1)" by (cases "m s") (auto simp: run_then_def)
  with by_stepsD [OF assms(1)] have 1: "serve_step\<^sup>*\<^sup>* (ss_sys s) (ss_sys s1)" by blast
  show "serve_step\<^sup>*\<^sup>* (ss_sys s) (ss_sys s')"
  proof (cases q)
    case (Ok x)
    with run m have "f x s1 = Some (r, s')" by simp
    with by_stepsD [OF assms(2)] have "serve_step\<^sup>*\<^sup>* (ss_sys s1) (ss_sys s')" by blast
    with 1 show ?thesis by (rule rtranclp_trans)
  qed (use run m 1 in auto)
qed

text \<open>What leaves the task system alone.\<close>

definition apart :: "('k start_state \<Rightarrow> ('a, 'e) outcome \<times> 'k start_state) \<Rightarrow> bool" where
  "apart m \<longleftrightarrow> (\<forall>s. ss_sys (snd (m s)) = ss_sys s)"

lemma by_steps_apart: "apart m \<Longrightarrow> by_steps (at_once m)"
  by (auto simp: by_steps_def apart_def) (metis rtranclp.rtrancl_refl snd_conv)

lemma apart_basic:
  "apart (in_k f)" "apart (with_pipes g)" "apart (or_exit f)" "apart (end_process e)" "apart (ret x)" "apart (fail y)"
  "apart panic" "apart (\<lambda>s. (v, s))" "apart (\<lambda>s. (v, s\<lparr>ss_pipes := p\<rparr>))"
  by (auto simp: apart_def in_k_def with_pipes_def or_exit_def end_process_def split: prod.splits outcome.splits)

lemma by_steps_await: "by_steps (dropping K hs (await_units S V pid props))"
  by (auto simp: by_steps_def dropping_def await_units_def split: prod.splits option.splits outcome.splits)

lemma by_steps_register:
  assumes "proc_fresh p"
  shows "by_steps (at_once (register_proc i p))"
  using serve_step.Register [OF assms, of _ i] by (auto simp: by_steps_def register_proc_def)

lemma by_steps_parent: "by_steps (start_parent H S V i pid props ev handlers)"
proof -
  have "by_steps (run_then (dropping (h_kernel H) handlers (await_units S V pid props)) (\<lambda>(slice_name, scope).
      run_then (at_once (in_k (unwrapped (sv_event_write V ev)))) (\<lambda>_.
      run_then (at_once (in_k (parent_fds (h_kernel H) (err_text V) handlers))) (\<lambda>fd_errs.
        at_once (register_proc i
          (proc_new pid slice_name scope (\<not> Option.is_none S) t n handlers\<lparr>p_errors := fd_errs\<rparr>))))))" for t n
    by (intro by_steps_run_then by_steps_await)
      (auto intro!: by_steps_run_then by_steps_apart [OF apart_basic(1)] by_steps_register)
  then show ?thesis unfolding by_steps_def start_parent_def Let_def by blast
qed

lemma by_steps_one: "by_steps (start_one H S V i spec)"
proof -
  have "by_steps (\<lambda>s. if child_pid = 0
      then run_then (at_once (in_k (m (ss_pipes s)))) (\<lambda>e. at_once (end_process e)) s
      else start_parent H S V i child_pid props ev hs s)" for child_pid m props ev hs
  proof -
    have 1: "by_steps (run_then (at_once (in_k (m p))) (\<lambda>e. at_once (end_process e)))" for p
      by (intro by_steps_run_then by_steps_apart apart_basic)
    show ?thesis
      unfolding by_steps_def using by_stepsD [OF 1] by_stepsD [OF by_steps_parent] by auto
  qed
  then show ?thesis
    unfolding start_one_def Let_def by (intro by_steps_run_then by_steps_apart apart_basic)
qed

lemma by_steps_each: "by_steps (start_each H S V procs)"
proof (induction procs)
  case (Cons x procs)
  then show ?case by (cases x) (auto intro!: by_steps_run_then by_steps_one)
qed (auto simp: by_steps_def)

lemma by_steps_start: "by_steps (start_procs H S V seed procs)"
proof -
  have "apart (\<lambda>s. (start_checks seed procs (s_reg (ss_sys s)), s\<lparr>ss_pipes := []\<rparr>))" by (simp add: apart_def)
  then show ?thesis
    unfolding start_procs_def start_around_def
    by (intro by_steps_run_then by_steps_each by_steps_apart) (auto intro: apart_basic)
qed

end
