(* ===== verification/Proto.thy ===== *)
theory Proto
  imports Registry
begin

text \<open>
  The agent protocol, \<open>src/proto.rs\<close>: the messages, the connection's parameters, and
  \<open>handle_incoming\<close>, which answers the requests of the server on the shared registry.  The state is that
  of \<open>StartProcs\<close>; a request that waits for ever is \<open>None\<close>.
\<close>

section \<open>Messages\<close>

record connection_info =
  ci_conn_id :: string
  ci_group_id :: string
  ci_restricted_exe :: "string option"

definition DEFAULT_PORT :: "32 word" where "DEFAULT_PORT = 59789"
definition DEFAULT_GROUP :: string where "DEFAULT_GROUP = ''default''"

definition expand_hostname :: "(string \<times> string) list \<Rightarrow> string option \<Rightarrow> string option" where
  "expand_hostname env_vars hostname =
     (case hostname of Some h \<Rightarrow> Some h | None \<Rightarrow> getenv env_vars ''PROCSTAR_AGENT_HOST'')"

text \<open>An agent port in the environment that is not a \<open>u32\<close> panics.\<close>

definition expand_port :: "(string \<times> string) list \<Rightarrow> 32 word option \<Rightarrow> (32 word option, 'e) outcome" where
  "expand_port env_vars port =
     (case port of Some p \<Rightarrow> Ok (Some p)
      | None \<Rightarrow> (case getenv env_vars ''PROCSTAR_AGENT_PORT'' of
            None \<Rightarrow> Ok None
          | Some p \<Rightarrow> (case parse_uint 32 p of Some n \<Rightarrow> Ok (Some (of_nat n)) | None \<Rightarrow> Panic)))"

datatype outgoing_message =
    RequestError incoming_message string
  | ProcUnknown proc_id
  | Register connection_info process_info "proc_id list" string shutdown_state
  | ProcidList "proc_id list"
  | ProcResult proc_id proc_res
  | ProcFdData proc_id fd_name "64 word" "64 word" "capture_encoding option" "byte list"
  | ProcDelete proc_id
  | ShutDown shutdown_state

definition incoming_error :: "incoming_message \<Rightarrow> string \<Rightarrow> outgoing_message" where
  "incoming_error msg err = RequestError msg err"

section \<open>Handling a request\<close>

definition server_reg :: "'k start_state \<Rightarrow> registry" where
  "server_reg s = s_reg (ss_sys s)"

definition put_reg :: "registry \<Rightarrow> 'k start_state \<Rightarrow> 'k start_state" where
  "put_reg r s = s\<lparr>ss_sys := set_reg r (ss_sys s)\<rparr>"

text \<open>A run of the outside world, and a call whose error is part of the answer.\<close>

definition run_k :: "('a, 'e, 'k) run \<Rightarrow> ('a, 'e, 'k start_state) run" where
  "run_k m s = (case m (ss_k s) of None \<Rightarrow> None | Some (r, k) \<Rightarrow> Some (r, s\<lparr>ss_k := k\<rparr>))"

definition answered ::
  "('a, error, 's) run \<Rightarrow> ('a \<Rightarrow> 'b) \<Rightarrow> (error \<Rightarrow> 'b) \<Rightarrow> ('b, error, 's) run" where
  "answered m f g s =
     (case m s of
        None \<Rightarrow> None
      | Some (Ok x, s') \<Rightarrow> Some (Ok (f x), s')
      | Some (Err e, s') \<Rightarrow> Some (Ok (g e), s')
      | Some (Panic, s') \<Rightarrow> Some (Panic, s'))"

text \<open>\<open>to_result\<close> has no error: one would be a panic.\<close>

definition must :: "('a, 'e, 's) run \<Rightarrow> ('a, 'f, 's) run" where
  "must m s = (case m s of None \<Rightarrow> None | Some (r, s') \<Rightarrow> Some (unwrap r, s'))"

lemma run_then_must: "run_then (must m) f s =
    (case m s of None \<Rightarrow> None | Some (Ok x, s') \<Rightarrow> f x s' | Some (Err e, s') \<Rightarrow> Some (Panic, s') | Some (Panic, s') \<Rightarrow> Some (Panic, s'))"
  by (simp add: must_def run_then_def split: option.split prod.split outcome.split)

definition fd_data_message ::
  "proc_id \<Rightarrow> fd_name \<Rightarrow> 64 word \<Rightarrow> 64 word option \<Rightarrow> fd_data \<Rightarrow> outgoing_message" where
  "fd_data_message proc_id fd_name start stop d =
     ProcFdData proc_id fd_name start
       (case stop of Some s \<Rightarrow> s | None \<Rightarrow> start + of_nat (length (fdd_data d))) (fdd_encoding d) (fdd_data d)"

fun handle_incoming ::
  "'k host \<Rightarrow> 'k systemd option \<Rightarrow> 'k services \<Rightarrow> nat \<Rightarrow> incoming_message \<Rightarrow>
     (outgoing_message option, error, 'k start_state) run" where
  "handle_incoming H S V seed Registered s = Some (Ok (Some (RequestError Registered ''unexpected'')), s)"
| "handle_incoming H S V seed (ProcStartRequest procs) s =
     answered (start_procs H S V seed procs) (\<lambda>_. None)
       (\<lambda>err. Some (RequestError (ProcStartRequest procs) (err_text V err))) s"
| "handle_incoming H S V seed ProcidListRequest s =
     Some (Ok (Some (ProcidList (get_proc_ids (server_reg s)))), s)"
| "handle_incoming H S V seed (ProcResultRequest proc_id) s =
     (case procs_get (server_reg s) proc_id of
        Some a \<Rightarrow> run_then (must (run_k (proc_to_result H (proc_at (server_reg s) a))))
                     (\<lambda>res. at_once (ret (Some (ProcResult proc_id res)))) s
      | None \<Rightarrow> Some (Ok (Some (ProcUnknown proc_id)), s))"
| "handle_incoming H S V seed (ProcSignalRequest proc_id signum) s =
     (case procs_get (server_reg s) proc_id of
        Some a \<Rightarrow> answered (at_once (in_k (send_signal (h_kernel H) (proc_at (server_reg s) a) signum))) (\<lambda>_. None)
                     (\<lambda>err. Some (incoming_error (ProcSignalRequest proc_id signum) (err_text V err))) s
      | None \<Rightarrow> Some (Ok (Some (ProcUnknown proc_id)), s))"
| "handle_incoming H S V seed (ProcFdDataRequest proc_id fd_name start stop) s =
     (let msg = ProcFdDataRequest proc_id fd_name start stop in
      case parse_fd fd_name of
        Ok fd \<Rightarrow> (case procs_get (server_reg s) proc_id of
            Some a \<Rightarrow> answered (run_k (get_fd_data H (proc_at (server_reg s) a) fd start stop))
                (\<lambda>od. Some (case od of
                     Some d \<Rightarrow> fd_data_message proc_id fd_name start stop d
                   | None \<Rightarrow> incoming_error msg ''no fd data''))
                (\<lambda>err. Some (incoming_error msg (err_text V err))) s
          | None \<Rightarrow> Some (Ok (Some (ProcUnknown proc_id)), s))
      | Err err \<Rightarrow> Some (Ok (Some (incoming_error msg (err_text V (ErrSpec err)))), s)
      | Panic \<Rightarrow> Some (Panic, s))"
| "handle_incoming H S V seed (ProcDeleteRequest proc_id) s =
     (case remove_if_not_running proc_id (server_reg s) of
        (Ok _, r) \<Rightarrow> Some (Ok None, put_reg r s)
      | (Err (NoProcId i), r) \<Rightarrow> Some (Ok (Some (ProcUnknown i)), put_reg r s)
      | (Err err, r) \<Rightarrow> Some (Ok (Some (incoming_error (ProcDeleteRequest proc_id) (err_text V err))), put_reg r s)
      | (Panic, r) \<Rightarrow> Some (Panic, put_reg r s))"


section \<open>What the answers mean\<close>

lemma put_reg_same [simp]: "put_reg (server_reg s) s = s"
  by (simp add: put_reg_def server_reg_def set_reg_def)

lemma server_reg_put [simp]: "server_reg (put_reg r s) = r"
  by (simp add: put_reg_def server_reg_def)

text \<open>
  A request about a process that is not registered is answered with \<open>ProcUnknown\<close>, and changes
  nothing: for its result, a signal, fd data (under a valid fd name) and its deletion.
\<close>

theorem unknown_proc_answered:
  assumes "reg_ok (server_reg s)" "i \<notin> reg_ids (server_reg s)"
    and "msg \<in> {ProcResultRequest i, ProcSignalRequest i n, ProcDeleteRequest i} \<or>
      (\<exists>f start stop fd. msg = ProcFdDataRequest i f start stop \<and> parse_fd f = Ok fd)"
  shows "handle_incoming H S V seed msg s = Some (Ok (Some (ProcUnknown i)), s)"
proof -
  have "procs_get (server_reg s) i = None" using assms(2) procs_get_ids by blast
  with store.remove_none [OF assms(1)] assms(3) show ?thesis by auto
qed

text \<open>
  Deletion over the protocol: the request to delete a running process is refused and changes nothing;
  a process that is not running is deleted without an answer, is then gone from the list of IDs, which
  is otherwise the same, and deleting it again is answered with \<open>ProcUnknown\<close>.
\<close>

theorem delete_request:
  assumes "reg_ok (server_reg s)" "procs_get (server_reg s) i = Some a"
  shows "if get_state (proc_at (server_reg s) a) = Running
    then handle_incoming H S V seed (ProcDeleteRequest i) s =
      Some (Ok (Some (RequestError (ProcDeleteRequest i) (''process running: '' @ i))), s)
    else \<exists>s'. handle_incoming H S V seed (ProcDeleteRequest i) s = Some (Ok None, s') \<and>
      reg_ok (server_reg s') \<and> reg_ids (server_reg s') = reg_ids (server_reg s) - {i} \<and>
      handle_incoming H S V seed (ProcDeleteRequest i) s' = Some (Ok (Some (ProcUnknown i)), s')"
proof (rule store.remove_cases [OF assms(1), of i])
  assume "procs_get (server_reg s) i = None"
  with assms(2) show ?thesis by simp
next
  fix b assume "procs_get (server_reg s) i = Some b" "get_state (proc_at (server_reg s) b) = Running"
    "remove_if_not_running i (server_reg s) = (Err (ProcRunning i), server_reg s)"
  with assms(2) show ?thesis by (simp add: incoming_error_def err_text_def)
next
  fix b r' assume r: "procs_get (server_reg s) i = Some b" "get_state (proc_at (server_reg s) b) \<noteq> Running"
    "remove_if_not_running i (server_reg s) = (Ok b, r')" "reg_ok r'"
  then show ?thesis
    using store.remove_twice [OF assms(1) r(3)] assms(2)
    by (simp add: put_reg_def server_reg_def set_reg_def)
qed

text \<open>What a request does to the task system.\<close>

lemma by_steps_k: "by_steps (run_k m)"
  by (auto simp: by_steps_def run_k_def split: option.splits)

lemma by_steps_answered: "by_steps m \<Longrightarrow> by_steps (answered m f g)"
  by (auto simp: by_steps_def answered_def split: option.splits prod.splits outcome.splits)

lemma by_steps_must: "by_steps m \<Longrightarrow> by_steps (must m)"
  by (auto simp: by_steps_def must_def split: option.splits)

lemma by_steps_same: "(\<And>s r s'. m s = Some (r, s') \<Longrightarrow> ss_sys s' = ss_sys s) \<Longrightarrow> by_steps m"
  by (simp add: by_steps_def)

lemma by_steps_remove:
  "remove_if_not_running i (server_reg s) = (res, r) \<Longrightarrow> serve_step\<^sup>*\<^sup>* (ss_sys s) (ss_sys (put_reg r s))"
  using serve_step.Delete [of i "ss_sys s" res r] by (simp add: server_reg_def put_reg_def)

lemma by_steps_look:
  assumes "\<And>a r. by_steps (m a r)" "\<And>s r s'. n s = Some (r, s') \<Longrightarrow> ss_sys s' = ss_sys s"
  shows "by_steps (\<lambda>s. case procs_get (server_reg s) i of Some a \<Rightarrow> m a (server_reg s) s | None \<Rightarrow> n s)"
  unfolding by_steps_def using by_stepsD [OF assms(1)] assms(2) by (auto split: option.split)

lemmas by_steps_requests = by_steps_look by_steps_answered by_steps_run_then by_steps_must by_steps_k by_steps_apart apart_basic

lemma by_steps_delete: "by_steps (handle_incoming H S V seed (ProcDeleteRequest i))"
  unfolding by_steps_def
proof (intro allI impI)
  fix s r s' assume run: "handle_incoming H S V seed (ProcDeleteRequest i) s = Some (r, s')"
  obtain res q where "remove_if_not_running i (server_reg s) = (res, q)" by (cases "remove_if_not_running i (server_reg s)")
  moreover from this run have "s' = put_reg q s" by (auto split: outcome.splits error.splits)
  ultimately show "serve_step\<^sup>*\<^sup>* (ss_sys s) (ss_sys s')" by (simp add: by_steps_remove)
qed

lemma by_steps_incoming: "by_steps (handle_incoming H S V seed msg)"
proof (cases msg)
  case (ProcStartRequest procs)
  have "by_steps (answered (start_procs H S V seed procs) (\<lambda>_. None)
       (\<lambda>err. Some (RequestError (ProcStartRequest procs) (err_text V err))))"
    by (intro by_steps_answered by_steps_start)
  with ProcStartRequest show ?thesis by (simp add: by_steps_def)
next
  case (ProcResultRequest i)
  have "by_steps (\<lambda>s. case procs_get (server_reg s) i of
      Some a \<Rightarrow> run_then (must (run_k (proc_to_result H (proc_at (server_reg s) a))))
         (\<lambda>res. at_once (ret (Some (ProcResult i res)))) s
    | None \<Rightarrow> Some (Ok (Some (ProcUnknown i)), s))"
    by (rule by_steps_look [where m = "\<lambda>a r. run_then (must (run_k (proc_to_result H (proc_at r a)))) _"])
      (auto intro: by_steps_requests)
  with ProcResultRequest show ?thesis by (simp add: by_steps_def)
next
  case (ProcSignalRequest i n)
  have "by_steps (\<lambda>s. case procs_get (server_reg s) i of
      Some a \<Rightarrow> answered (at_once (in_k (send_signal (h_kernel H) (proc_at (server_reg s) a) n))) (\<lambda>_. None)
         (\<lambda>err. Some (incoming_error (ProcSignalRequest i n) (err_text V err))) s
    | None \<Rightarrow> Some (Ok (Some (ProcUnknown i)), s))"
    by (rule by_steps_look [where m = "\<lambda>a r. answered (at_once (in_k (send_signal (h_kernel H) (proc_at r a) n))) _ _"])
      (auto intro: by_steps_requests)
  with ProcSignalRequest show ?thesis by (simp add: by_steps_def)
next
  case (ProcFdDataRequest i f start stop)
  show ?thesis
  proof (cases "parse_fd f")
    case (Ok fd)
    have "by_steps (\<lambda>s. case procs_get (server_reg s) i of
        Some a \<Rightarrow> answered (run_k (get_fd_data H (proc_at (server_reg s) a) fd start stop))
          (\<lambda>od. Some (case od of Some d \<Rightarrow> fd_data_message i f start stop d | None \<Rightarrow> incoming_error (ProcFdDataRequest i f start stop) ''no fd data''))
          (\<lambda>err. Some (incoming_error (ProcFdDataRequest i f start stop) (err_text V err))) s
      | None \<Rightarrow> Some (Ok (Some (ProcUnknown i)), s))"
      by (rule by_steps_look [where m = "\<lambda>a r. answered (run_k (get_fd_data H (proc_at r a) fd start stop)) _ _"])
        (auto intro: by_steps_requests)
    with ProcFdDataRequest Ok show ?thesis by (simp add: by_steps_def Let_def)
  qed (auto simp: ProcFdDataRequest by_steps_def)
next
  case (ProcDeleteRequest i)
  then show ?thesis by (simp only: by_steps_delete)
qed (auto simp: by_steps_def)

lemma sys_reach_steps: "serve_step\<^sup>*\<^sup>* s s' \<Longrightarrow> sys_reach H S s \<Longrightarrow> sys_reach H S s'"
proof (drule serve_steps [of s s' H S])
  show "(sys_step H S)\<^sup>*\<^sup>* s s' \<Longrightarrow> sys_reach H S s \<Longrightarrow> sys_reach H S s'"
    by (induction rule: rtranclp_induct) (auto intro: sys_reach.step)
qed

text \<open>
  C18 Every request is a run of the task system: whatever the request, its answer, or its failure, the
  registry and the tasks change only by steps of the system; so a reachable state stays reachable, and
  the invariant of the system holds after any number of requests.
\<close>

theorem request_keeps_invariant:
  assumes "checks_safe H" "sys_reach H S (ss_sys s)" "handle_incoming H S V seed msg s = Some (r, s')"
  shows "sys_reach H S (ss_sys s') \<and> sys_ok (ss_sys s')"
  using by_stepsD [OF by_steps_incoming assms(3)] sys_reach_steps [OF _ assms(2)] sys_reach_ok assms(1) by blast

text \<open>
  C29 Captured data over the protocol: for a fd captured in memory, a request for a range inside the
  captured bytes is answered with exactly these bytes, and the answer's positions delimit them, also
  when the request leaves the end open; any other range panics, which ends the agent.
\<close>

theorem memory_data_request:
  assumes "procs_get (server_reg s) i = Some a" "parse_fd f = Ok fd"
    and "get_fd_handler (p_fd_handlers (proc_at (server_reg s) a)) fd = Some (HCaptureMemory n r w enc buf att)"
    and "length buf < 2 ^ 63"
  shows "if unat start \<le> (case stop of Some e \<Rightarrow> unat e | None \<Rightarrow> length buf) \<and>
        (case stop of Some e \<Rightarrow> unat e | None \<Rightarrow> length buf) \<le> length buf
    then \<exists>until data. handle_incoming H S V seed (ProcFdDataRequest i f start stop) s =
        Some (Ok (Some (ProcFdData i f start until enc data)), s) \<and>
      (\<forall>e. stop = Some e \<longrightarrow> until = e) \<and> unat until = unat start + length data \<and>
      data = take (unat until - unat start) (drop (unat start) buf)
    else handle_incoming H S V seed (ProcFdDataRequest i f start stop) s = Some (Panic, s)"
proof -
  let ?e = "case stop of Some e \<Rightarrow> unat e | None \<Rightarrow> length buf"
  let ?d = "take (?e - unat start) (drop (unat start) buf)"
  have data: "get_fd_data H (proc_at (server_reg s) a) fd start stop (ss_k s) =
      Some (if unat start \<le> ?e \<and> ?e \<le> length buf then Ok (Some \<lparr>fdd_data = ?d, fdd_encoding = enc\<rparr>) else Panic, ss_k s)"
    using assms(3) by (simp add: get_fd_data_def Let_def)
  show ?thesis
  proof (cases "unat start \<le> ?e \<and> ?e \<le> length buf")
    case True
    let ?fin = "case stop of Some e \<Rightarrow> e | None \<Rightarrow> start + of_nat (length ?d)"
    have "unat ?fin = unat start + length ?d"
    proof (cases stop)
      case None
      with True have "length ?d = length buf - unat start" by simp
      moreover have "unat (of_nat (unat start + (length buf - unat start)) :: 64 word) = unat start + (length buf - unat start)"
        using True None assms(4) by (subst unat_of_nat) simp
      ultimately show ?thesis using None True by simp
    next
      case (Some e)
      with True have "unat start \<le> unat e" "unat e \<le> length buf" by simp_all
      then have "length ?d = unat e - unat start" using Some by simp
      with \<open>unat start \<le> unat e\<close> Some show ?thesis by simp
    qed
    moreover from this have "?d = take (unat ?fin - unat start) (drop (unat start) buf)" by (cases stop) auto
    moreover have "handle_incoming H S V seed (ProcFdDataRequest i f start stop) s =
        Some (Ok (Some (ProcFdData i f start ?fin enc ?d)), s)"
      using True data assms(1,2) by (cases stop) (simp_all add: answered_def run_k_def fd_data_message_def)
    moreover have "\<forall>e. stop = Some e \<longrightarrow> ?fin = e" by simp
    ultimately show ?thesis unfolding if_P [OF True] by blast
  next
    case False
    then have "handle_incoming H S V seed (ProcFdDataRequest i f start stop) s = Some (Panic, s)"
      using data assms(1,2) by (simp add: answered_def run_k_def)
    then show ?thesis unfolding if_not_P [OF False] .
  qed
qed


section \<open>The properties at a concrete state\<close>

definition sample_captured :: proc where
  "sample_captured = sample_proc\<lparr>p_fd_handlers := [(1, HCaptureMemory 1 5 6 None [104, 105, 33] True)]\<rparr>"

definition sample_server :: "unit start_state" where
  "sample_server = \<lparr>ss_pipes = [], ss_sys = spawn ''a'' sample_captured sys_init, ss_now = 0, ss_k = (), ss_end = None\<rparr>"

definition plain_services :: "unit services" where
  "plain_services = \<lparr>sv_event_new = (\<lambda>k. (Ok 3, k)), sv_event_read = (\<lambda>_ k. (Ok (), k)),
     sv_event_write = (\<lambda>_ k. (Ok (), k)), sv_env = [], sv_uuid = (\<lambda>_. ''u''), sv_io_fmt = (\<lambda>_. ''error''),
     sv_dbg = (\<lambda>_. ''''), sv_restricted = None\<rparr>"

lemma sample_server_reach: "sys_reach H S (ss_sys sample_server)"
  unfolding sample_server_def
  by (simp, rule sys_reach.step [OF sys_reach.init sys_step.Spawn])
    (simp add: sample_captured_def sample_proc_def proc_fresh_def proc_new_def)

lemma sample_server_simps [simp]:
  "procs_get (server_reg sample_server) ''a'' = Some 0" "proc_at (server_reg sample_server) 0 = sample_captured"
  "reg_ids (server_reg sample_server) = {''a''}"
  by (simp_all add: server_reg_def sample_server_def spawn_def sys_init_def procs_new_def procs_insert_def
      proc_at_def procs_get_def bt_get_def reg_ids_def get_proc_ids_def bt_keys_def)

lemma sample_server_ok: "reg_ok (server_reg sample_server)"
  using sys_ok_reg [OF sys_reach_ok [OF sample_server_reach reaping_safe]] by (simp add: server_reg_def)

theorem unknown_proc_answered_witness:
  "handle_incoming (plain_host null_kernel) None plain_services 0 (ProcDeleteRequest ''b'') sample_server =
     Some (Ok (Some (ProcUnknown ''b'')), sample_server)"
  using unknown_proc_answered [OF sample_server_ok, of "''b''" "ProcDeleteRequest ''b''" 9] by simp

theorem delete_request_witness:
  "handle_incoming (plain_host null_kernel) None plain_services 0 (ProcDeleteRequest ''a'') sample_server =
     Some (Ok (Some (RequestError (ProcDeleteRequest ''a'') ''process running: a'')), sample_server)"
  using delete_request [OF sample_server_ok, of "''a''" 0]
  by (simp add: sample_captured_def sample_proc_def proc_new_def get_state_def)

theorem request_keeps_invariant_witness:
  "\<exists>r s'. handle_incoming (plain_host reaping_kernel) None plain_services 0 (ProcSignalRequest ''a'' 9) sample_server = Some (r, s') \<and>
     sys_ok (ss_sys s')"
proof -
  have "handle_incoming (plain_host reaping_kernel) None plain_services 0 (ProcSignalRequest ''a'' 9) sample_server =
      Some (Ok None, sample_server)"
    by (simp add: answered_def in_k_def send_signal_def sample_captured_def sample_proc_def proc_new_def kill_def
        plain_host_def reaping_kernel_def)
  with request_keeps_invariant [OF reaping_safe sample_server_reach this] show ?thesis by blast
qed

theorem memory_data_request_witness:
  "handle_incoming (plain_host null_kernel) None plain_services 0 (ProcFdDataRequest ''a'' ''stdout'' 1 (Some 3)) sample_server =
     Some (Ok (Some (ProcFdData ''a'' ''stdout'' 1 3 None [105, 33])), sample_server) \<and>
   handle_incoming (plain_host null_kernel) None plain_services 0 (ProcFdDataRequest ''a'' ''stdout'' 1 (Some 4)) sample_server =
     Some (Panic, sample_server)"
proof -
  have p: "parse_fd ''stdout'' = Ok 1" by code_simp
  have h: "get_fd_handler (p_fd_handlers (proc_at (server_reg sample_server) 0)) 1 =
      Some (HCaptureMemory 1 5 6 None [104, 105, 33] True)"
    by (simp add: sample_captured_def)
  have app: "if unat (1 :: 64 word) \<le> unat e \<and> unat e \<le> 3
    then \<exists>until data. handle_incoming (plain_host null_kernel) None plain_services 0
        (ProcFdDataRequest ''a'' ''stdout'' 1 (Some e)) sample_server =
        Some (Ok (Some (ProcFdData ''a'' ''stdout'' 1 until None data)), sample_server) \<and>
      until = e \<and> data = take (unat until - 1) (drop 1 [104, 105, 33])
    else handle_incoming (plain_host null_kernel) None plain_services 0
        (ProcFdDataRequest ''a'' ''stdout'' 1 (Some e)) sample_server = Some (Panic, sample_server)" for e
    using memory_data_request [OF sample_server_simps(1) p h, of 1 "Some e" "plain_host null_kernel" None plain_services 0]
    by (auto simp del: handle_incoming.simps split: if_splits)
  show ?thesis using app [of 3] app [of 4] by auto
qed

end
