(* ===== verification/Http.thy ===== *)
theory Http
  imports Proto Utf8
begin

text \<open>
  The HTTP service, \<open>src/http.rs\<close>: the handlers of its four routes on the shared registry, and the
  dispatch on route and method.  The HTTP and JSON libraries are parameters, the record \<open>http_env\<close>:
  the router, which gives for a path the number of its route and the parameters, the reading of a
  body, and the texts of JSON values and status codes.
\<close>

section \<open>Requests and responses\<close>

datatype http_method = MGet | MPost | MDelete | MOther

record http_request =
  rq_method :: http_method
  rq_path :: string
  rq_content_type :: "string option"
  rq_body :: "(byte list, string) outcome"

datatype http_body = TextBody string | BytesBody "byte list"

record http_response =
  rsp_status :: nat
  rsp_content_type :: string
  rsp_body :: http_body

record http_env =
  he_route :: "string \<Rightarrow> (nat \<times> (string \<times> string) list) option"
  he_status_text :: "nat \<Rightarrow> string"
  he_to_string :: "json \<Rightarrow> (string, string) outcome"
  he_input :: "byte list \<Rightarrow> (input, string) outcome"
  he_res_json :: "proc_res \<Rightarrow> json"

definition OK_200 :: nat where "OK_200 = 200"
definition BAD_REQUEST :: nat where "BAD_REQUEST = 400"
definition NOT_FOUND :: nat where "NOT_FOUND = 404"
definition METHOD_NOT_ALLOWED :: nat where "METHOD_NOT_ALLOWED = 405"
definition INTERNAL_SERVER_ERROR :: nat where "INTERNAL_SERVER_ERROR = 500"

lemmas status_defs = OK_200_def BAD_REQUEST_def NOT_FOUND_def METHOD_NOT_ALLOWED_def INTERNAL_SERVER_ERROR_def

datatype rsp_error = RspError nat "string option"

definition bad_request :: "string \<Rightarrow> rsp_error" where
  "bad_request msg = RspError BAD_REQUEST (Some msg)"

definition wrap_error :: "http_env \<Rightarrow> nat \<Rightarrow> string option \<Rightarrow> json" where
  "wrap_error E status msg =
     JObj [(''errors'', JObj [(''detail'', case msg of Some m \<Rightarrow> JStr m | None \<Rightarrow> JNull),
                              (''status'', JStr (he_status_text E status))])]"

text \<open>The response of a handler; when its JSON cannot be written the error is an internal one.\<close>

fun json_parts :: "http_env \<Rightarrow> (json, rsp_error) outcome \<Rightarrow> (nat \<times> json) option" where
  "json_parts E (Ok data) = Some (OK_200, JObj [(''data'', data)])"
| "json_parts E (Err (RspError status msg)) = Some (status, wrap_error E status msg)"
| "json_parts E Panic = None"

definition json_response :: "http_env \<Rightarrow> (json, rsp_error) outcome \<Rightarrow> (http_response, error) outcome" where
  "json_response E rsp =
     (case json_parts E rsp of
        None \<Rightarrow> Panic
      | Some (status, data) \<Rightarrow> (case he_to_string E data of
            Ok body \<Rightarrow> Ok \<lparr>rsp_status = status, rsp_content_type = ''application/json'', rsp_body = TextBody body\<rparr>
          | Err err \<Rightarrow> (case he_to_string E (wrap_error E status (Some err)) of
                Ok body \<Rightarrow> Ok \<lparr>rsp_status = INTERNAL_SERVER_ERROR, rsp_content_type = ''application/json'',
                                rsp_body = TextBody body\<rparr>
              | _ \<Rightarrow> Panic)
          | Panic \<Rightarrow> Panic))"

section \<open>The handlers\<close>

type_synonym 'k json_run = "(json, rsp_error, 'k start_state) run"

text \<open>A call whose error becomes the error of the response.\<close>

definition or_rsp :: "('a, error, 's) run \<Rightarrow> (error \<Rightarrow> rsp_error) \<Rightarrow> ('a, rsp_error, 's) run" where
  "or_rsp m f s =
     (case m s of
        None \<Rightarrow> None
      | Some (Ok x, s') \<Rightarrow> Some (Ok x, s')
      | Some (Err e, s') \<Rightarrow> Some (Err (f e), s')
      | Some (Panic, s') \<Rightarrow> Some (Panic, s'))"

definition bad :: "'k services \<Rightarrow> error \<Rightarrow> rsp_error" where
  "bad V err = bad_request (err_text V err)"

definition http_procs_get :: "http_env \<Rightarrow> 'k host \<Rightarrow> 'k json_run" where
  "http_procs_get E H s =
     run_then (must (run_k (procs_to_result H (server_reg s))))
       (\<lambda>x. at_once (ret (JObj [(''procs'', JObj (map (\<lambda>(i, p). (i, he_res_json E p)) x))]))) s"

definition http_procs_id_get :: "http_env \<Rightarrow> 'k host \<Rightarrow> proc_id \<Rightarrow> 'k json_run" where
  "http_procs_id_get E H proc_id s =
     (case procs_get (server_reg s) proc_id of
        Some a \<Rightarrow> run_then (must (run_k (proc_to_result H (proc_at (server_reg s) a))))
                     (\<lambda>x. at_once (ret (JObj [(''procs'', JObj [(proc_id, he_res_json E x)])]))) s
      | None \<Rightarrow> Some (Err (RspError NOT_FOUND None), s))"

definition http_procs_id_delete :: "'k services \<Rightarrow> proc_id \<Rightarrow> 'k json_run" where
  "http_procs_id_delete V proc_id s =
     (case remove_if_not_running proc_id (server_reg s) of
        (Ok _, r) \<Rightarrow> Some (Ok (JObj []), put_reg r s)
      | (Err (NoProcId _), r) \<Rightarrow> Some (Err (RspError NOT_FOUND None), put_reg r s)
      | (Err err, r) \<Rightarrow> Some (Err (bad V err), put_reg r s)
      | (Panic, r) \<Rightarrow> Some (Panic, put_reg r s))"

definition http_procs_post :: "'k host \<Rightarrow> 'k systemd option \<Rightarrow> 'k services \<Rightarrow> nat \<Rightarrow> input \<Rightarrow> 'k json_run" where
  "http_procs_post H S V seed inp =
     run_then (or_rsp (start_procs H S V seed (specs inp)) (bad V)) (\<lambda>_. at_once (ret (JObj [])))"

definition http_signal_post :: "'k host \<Rightarrow> 'k services \<Rightarrow> proc_id \<Rightarrow> string \<Rightarrow> 'k json_run" where
  "http_signal_post H V proc_id signum s =
     (case parse_signum signum of
        None \<Rightarrow> Some (Err (bad_request ''unknwon signum''), s)
      | Some n \<Rightarrow> (case procs_get (server_reg s) proc_id of
            None \<Rightarrow> Some (Err (RspError NOT_FOUND None), s)
          | Some a \<Rightarrow> run_then (or_rsp (at_once (in_k (send_signal (h_kernel H) (proc_at (server_reg s) a) n))) (bad V))
                         (\<lambda>_. at_once (ret (JObj []))) s))"

text \<open>The raw data of a fd; an encoding decides the content type.\<close>

definition data_response :: "fd_data \<Rightarrow> http_response" where
  "data_response d =
     \<lparr>rsp_status = 200,
      rsp_content_type = (case fdd_encoding d of
          None \<Rightarrow> ''application/octet-stream''
        | Some Utf8 \<Rightarrow> ''text/plain; charset=utf-8''),
      rsp_body = BytesBody (fdd_data d)\<rparr>"

type_synonym 'k rsp_run = "(http_response, error, 'k start_state) run"

definition respond :: "http_env \<Rightarrow> 'k json_run \<Rightarrow> 'k rsp_run" where
  "respond E m s = (case m s of None \<Rightarrow> None | Some (r, s') \<Rightarrow> Some (json_response E r, s'))"

definition http_output_data_get :: "http_env \<Rightarrow> 'k host \<Rightarrow> 'k services \<Rightarrow> proc_id \<Rightarrow> fd_name \<Rightarrow> 'k rsp_run" where
  "http_output_data_get E H V proc_id fd_str s =
     (case parse_fd fd_str of
        Err err \<Rightarrow> Some (json_response E (Err (bad V (ErrSpec err))), s)
      | Panic \<Rightarrow> Some (Panic, s)
      | Ok fd \<Rightarrow> (case procs_get (server_reg s) proc_id of
            None \<Rightarrow> Some (json_response E (Err (RspError NOT_FOUND None)), s)
          | Some a \<Rightarrow> (case run_k (get_fd_data H (proc_at (server_reg s) a) fd 0 None) s of
                None \<Rightarrow> None
              | Some (Ok od, s') \<Rightarrow> Some (Ok (data_response (case od of Some d \<Rightarrow> d | None \<Rightarrow> fd_data_empty)), s')
              | Some (Err err, s') \<Rightarrow> Some (json_response E (Err (bad V err)), s')
              | Some (Panic, s') \<Rightarrow> Some (Panic, s'))))"

section \<open>Dispatch\<close>

definition get_body_json :: "http_env \<Rightarrow> http_request \<Rightarrow> (input, rsp_error) outcome" where
  "get_body_json E req =
     (case rq_body req of
        Err err \<Rightarrow> Err (bad_request (''reading body: '' @ err))
      | Panic \<Rightarrow> Panic
      | Ok bytes \<Rightarrow>
          if rq_content_type req \<noteq> Some ''application/json'' then Err (bad_request ''body not JSON'')
          else if bytes = [] then Err (bad_request ''no body'')
          else map_err (\<lambda>err. bad_request (''parsing body: '' @ err)) (he_input E bytes))"

text \<open>A route's parameter, which the source unwraps.\<close>

definition with_param ::
  "(string \<times> string) list \<Rightarrow> string \<Rightarrow> (string \<Rightarrow> 'k rsp_run) \<Rightarrow> 'k rsp_run" where
  "with_param params p f s = (case map_of params p of Some v \<Rightarrow> f v s | None \<Rightarrow> Some (Panic, s))"

definition dispatch ::
  "http_env \<Rightarrow> 'k host \<Rightarrow> 'k systemd option \<Rightarrow> 'k services \<Rightarrow> nat \<Rightarrow> http_request \<Rightarrow> 'k rsp_run" where
  "dispatch E H S V seed req =
     (case he_route E (rq_path req) of
        None \<Rightarrow> respond E (at_once (fail (RspError NOT_FOUND None)))
      | Some (route, params) \<Rightarrow>
          if route = 0 \<and> rq_method req = MGet then respond E (http_procs_get E H)
          else if route = 0 \<and> rq_method req = MPost then
            (case get_body_json E req of
               Ok inp \<Rightarrow> respond E (http_procs_post H S V seed inp)
             | Err err \<Rightarrow> respond E (at_once (fail err))
             | Panic \<Rightarrow> at_once panic)
          else if route = 1 \<and> rq_method req = MGet then
            with_param params ''id'' (\<lambda>i. respond E (http_procs_id_get E H i))
          else if route = 1 \<and> rq_method req = MDelete then
            with_param params ''id'' (\<lambda>i. respond E (http_procs_id_delete V i))
          else if route = 2 \<and> rq_method req = MPost then
            with_param params ''id'' (\<lambda>i. with_param params ''signum'' (\<lambda>n. respond E (http_signal_post H V i n)))
          else if route = 3 \<and> rq_method req = MGet then
            with_param params ''id'' (\<lambda>i. with_param params ''fd'' (\<lambda>fd. http_output_data_get E H V i fd))
          else respond E (at_once (fail (RspError METHOD_NOT_ALLOWED None))))"


section \<open>The service and the agent protocol agree\<close>

text \<open>What the service says for an answer of the agent protocol.\<close>

fun rsp_of :: "http_env \<Rightarrow> outgoing_message option \<Rightarrow> (json, rsp_error) outcome" where
  "rsp_of E None = Ok (JObj [])"
| "rsp_of E (Some (ProcUnknown _)) = Err (RspError NOT_FOUND None)"
| "rsp_of E (Some (RequestError _ err)) = Err (bad_request err)"
| "rsp_of E (Some (ProcResult i res)) = Ok (JObj [(''procs'', JObj [(i, he_res_json E res)])])"
| "rsp_of E _ = Panic"

definition as_rsp ::
  "http_env \<Rightarrow> (outgoing_message option, error, 'k start_state) run \<Rightarrow> 'k json_run" where
  "as_rsp E m s = map_option (\<lambda>(r, s'). (case r of Ok x \<Rightarrow> rsp_of E x | _ \<Rightarrow> Panic, s')) (m s)"

lemma handlers_agree:
  assumes "parse_signum sig_str = Some n"
  shows "http_procs_post H S V seed inp = as_rsp E (handle_incoming H S V seed (ProcStartRequest (specs inp))) \<and>
    http_procs_id_delete V i = as_rsp E (handle_incoming H S V seed (ProcDeleteRequest i)) \<and>
    http_signal_post H V i sig_str = as_rsp E (handle_incoming H S V seed (ProcSignalRequest i n)) \<and>
    http_procs_id_get E H i = as_rsp E (handle_incoming H S V seed (ProcResultRequest i))"
proof (intro conjI ext)
  fix s
  show "http_procs_post H S V seed inp s = as_rsp E (handle_incoming H S V seed (ProcStartRequest (specs inp))) s"
    by (auto simp: http_procs_post_def as_rsp_def or_rsp_def answered_def run_then_def bad_def
        split: option.split prod.split outcome.split)
  show "http_procs_id_delete V i s = as_rsp E (handle_incoming H S V seed (ProcDeleteRequest i)) s"
    by (auto simp: http_procs_id_delete_def as_rsp_def incoming_error_def bad_def
        split: prod.split outcome.split error.split)
  show "http_signal_post H V i sig_str s = as_rsp E (handle_incoming H S V seed (ProcSignalRequest i n)) s"
    using assms by (auto simp: http_signal_post_def as_rsp_def or_rsp_def answered_def run_then_def incoming_error_def bad_def
        split: option.split prod.split outcome.split)
  show "http_procs_id_get E H i s = as_rsp E (handle_incoming H S V seed (ProcResultRequest i)) s"
    by (auto simp: http_procs_id_get_def as_rsp_def run_then_must
        split: option.split prod.split outcome.split)
qed

text \<open>
  C19 The two services are equivalent: starting, deleting, signalling and getting the result of a process
  over HTTP have exactly the effect, and the outcome, of the corresponding request of the agent
  protocol, errors and panics included.
\<close>

theorem http_agent_agree:
  assumes "parse_signum sig_str = Some n"
  shows "http_procs_post H S V seed inp = as_rsp E (handle_incoming H S V seed (ProcStartRequest (specs inp))) \<and>
    http_procs_id_delete V i = as_rsp E (handle_incoming H S V seed (ProcDeleteRequest i)) \<and>
    http_signal_post H V i sig_str = as_rsp E (handle_incoming H S V seed (ProcSignalRequest i n)) \<and>
    http_procs_id_get E H i = as_rsp E (handle_incoming H S V seed (ProcResultRequest i))"
  using assms by (rule handlers_agree)

section \<open>Status codes\<close>

text \<open>The JSON values of responses can be written.\<close>

definition writes_json :: "http_env \<Rightarrow> bool" where
  "writes_json E \<longleftrightarrow> (\<forall>j. \<exists>t. he_to_string E j = Ok t)"

text \<open>The methods of the routes.\<close>

definition allowed :: "nat \<Rightarrow> http_method \<Rightarrow> bool" where
  "allowed route meth \<longleftrightarrow>
     (route, meth) \<in> {(0, MGet), (0, MPost), (1, MGet), (1, MDelete), (2, MPost), (3, MGet)}"

lemma json_response_status:
  assumes "writes_json E" "json_response E r = Ok rsp"
  shows "(\<exists>data. r = Ok data \<and> rsp_status rsp = 200) \<or> (\<exists>st msg. r = Err (RspError st msg) \<and> rsp_status rsp = st)"
proof (cases "json_parts E r")
  case (Some p)
  obtain t where "he_to_string E (snd p) = Ok t" using assms(1) unfolding writes_json_def by blast
  with Some assms(2) have "rsp_status rsp = fst p" by (cases p) (auto simp: json_response_def)
  with Some show ?thesis by (cases "(E, r)" rule: json_parts.cases) (auto simp: OK_200_def)
next
  case None
  with assms(2) show ?thesis by (simp add: json_response_def)
qed

text \<open>A handler that fails has a code 400 or 404 and, unless it starts processes, changes no process.\<close>

definition fails_clean :: "'k json_run \<Rightarrow> bool" where
  "fails_clean m \<longleftrightarrow> (\<forall>s st msg s'. m s = Some (Err (RspError st msg), s') \<longrightarrow> st \<in> {400, 404} \<and> ss_sys s' = ss_sys s)"

definition reply_clean :: "'k rsp_run \<Rightarrow> bool" where
  "reply_clean m \<longleftrightarrow> (\<forall>s rsp s'. m s = Some (Ok rsp, s') \<longrightarrow>
     rsp_status rsp = 200 \<or> rsp_status rsp \<in> {400, 404} \<and> ss_sys s' = ss_sys s)"

lemma fails_clean_delete: "fails_clean (http_procs_id_delete V i)"
proof -
  have "put_reg r s = s" if "remove_if_not_running i (server_reg s) = (Err e, r)" for s :: "'a start_state" and r e
  proof -
    have "r = server_reg s" using that by (auto simp: remove_if_not_running_def split: option.splits if_splits)
    then show ?thesis by simp
  qed
  then show ?thesis
    by (auto simp: fails_clean_def http_procs_id_delete_def bad_def bad_request_def status_defs
        split: prod.splits outcome.splits error.splits)
qed

lemma fails_clean_get: "fails_clean (http_procs_get E H)" "fails_clean (http_procs_id_get E H i)"
  by (auto simp: fails_clean_def http_procs_get_def http_procs_id_get_def run_then_must status_defs
      split: option.splits prod.splits outcome.splits)

lemma fails_clean_signal: "fails_clean (http_signal_post H V i n)"
  by (auto simp: fails_clean_def http_signal_post_def or_rsp_def run_then_def in_k_def bad_def bad_request_def status_defs
      split: option.splits prod.splits outcome.splits)

lemma reply_clean_respond: "writes_json E \<Longrightarrow> fails_clean m \<Longrightarrow> reply_clean (respond E m)"
  by (auto simp: reply_clean_def fails_clean_def respond_def split: option.splits dest!: json_response_status)

lemma reply_clean_param: "(\<And>v. reply_clean (f v)) \<Longrightarrow> reply_clean (with_param params p f)"
  by (auto simp: reply_clean_def with_param_def split: option.splits)

lemma reply_clean_data:
  assumes "writes_json E"
  shows "reply_clean (http_output_data_get E H V i fd)"
  using json_response_status [OF assms]
  by (fastforce simp: reply_clean_def http_output_data_get_def run_k_def data_response_def bad_def bad_request_def status_defs
      split: option.splits prod.splits outcome.splits)

lemma reply_clean_error: "writes_json E \<Longrightarrow> st \<in> {400, 404} \<Longrightarrow> reply_clean (respond E (at_once (fail (RspError st msg))))"
  by (intro reply_clean_respond) (auto simp: fails_clean_def)

lemma map_err_Err: "map_err f r = Err e \<longleftrightarrow> (\<exists>e'. r = Err e' \<and> e = f e')"
  by (cases r) auto

lemma body_error: "get_body_json E req = Err e \<Longrightarrow> \<exists>msg. e = RspError 400 (Some msg)"
  by (auto simp: get_body_json_def bad_request_def status_defs map_err_Err split: outcome.splits if_splits)

lemma post_status:
  assumes "writes_json E" "respond E (http_procs_post H S V seed inp) s = Some (Ok rsp, s')"
  shows "rsp_status rsp \<in> {200, 400}"
proof -
  have "st = 400" if "http_procs_post H S V seed inp s = Some (Err (RspError st msg), s2)" for st msg s2
    using that by (auto simp: http_procs_post_def or_rsp_def run_then_def bad_def bad_request_def status_defs
        split: option.splits prod.splits outcome.splits)
  with assms(2) show ?thesis
    by (auto simp: respond_def split: option.splits dest!: json_response_status [OF assms(1)])
qed

lemma dispatch_reply:
  assumes "writes_json E" "he_route E (rq_path req) = Some (route, params)" "allowed route (rq_method req)"
    and "\<not> (route = 0 \<and> rq_method req = MPost)"
  shows "reply_clean (dispatch E H S V seed req)"
proof -
  note m = reply_clean_respond [OF assms(1)]
  have "reply_clean (with_param params ''id'' (\<lambda>i. respond E (http_procs_id_get E H i)))"
    "reply_clean (with_param params ''id'' (\<lambda>i. respond E (http_procs_id_delete V i)))"
    "reply_clean (with_param params ''id'' (\<lambda>i. with_param params ''signum'' (\<lambda>n. respond E (http_signal_post H V i n))))"
    "reply_clean (with_param params ''id'' (\<lambda>i. with_param params ''fd'' (\<lambda>fd. http_output_data_get E H V i fd)))"
    "reply_clean (respond E (http_procs_get E H))"
    by (intro reply_clean_param m fails_clean_get fails_clean_delete fails_clean_signal reply_clean_data [OF assms(1)])+
  with assms(2-4) show ?thesis by (auto simp: dispatch_def allowed_def reply_clean_def)
qed

text \<open>A response that is not a success has the error object of its status as its body.\<close>

definition error_body :: "http_env \<Rightarrow> http_response \<Rightarrow> bool" where
  "error_body E rsp \<longleftrightarrow> rsp_content_type rsp = ''application/json'' \<and>
     (\<exists>msg t. he_to_string E (wrap_error E (rsp_status rsp) msg) = Ok t \<and> rsp_body rsp = TextBody t)"

definition errors_told :: "http_env \<Rightarrow> 'k rsp_run \<Rightarrow> bool" where
  "errors_told E m \<longleftrightarrow> (\<forall>s rsp s'. m s = Some (Ok rsp, s') \<longrightarrow> rsp_status rsp \<noteq> 200 \<longrightarrow> error_body E rsp)"

lemma json_response_error:
  assumes "writes_json E" "json_response E r = Ok rsp" "rsp_status rsp \<noteq> 200"
  shows "error_body E rsp"
proof (cases "(E, r)" rule: json_parts.cases)
  case (2 E' st msg)
  obtain t where "he_to_string E (wrap_error E st msg) = Ok t" using assms(1) unfolding writes_json_def by blast
  with 2 assms(2) show ?thesis by (auto simp: json_response_def error_body_def)
next
  case (1 E' data)
  obtain t where "he_to_string E (JObj [(''data'', data)]) = Ok t" using assms(1) unfolding writes_json_def by blast
  with 1 assms(2,3) show ?thesis by (auto simp: json_response_def OK_200_def)
next
  case (3 E')
  with assms(2) show ?thesis by (simp add: json_response_def)
qed

lemma errors_told_respond: "writes_json E \<Longrightarrow> errors_told E (respond E m)"
  by (auto simp: errors_told_def respond_def split: option.splits dest: json_response_error)

lemma errors_told_param: "(\<And>v. errors_told E (f v)) \<Longrightarrow> errors_told E (with_param params p f)"
  by (auto simp: errors_told_def with_param_def split: option.splits)

lemma errors_told_data: "writes_json E \<Longrightarrow> errors_told E (http_output_data_get E H V i fd)"
  using json_response_error [of E]
  by (auto simp: errors_told_def http_output_data_get_def data_response_def split: option.splits prod.splits outcome.splits)

lemma errors_told_dispatch:
  assumes "writes_json E"
  shows "errors_told E (dispatch E H S V seed req)"
proof -
  have "errors_told E (at_once panic)" by (simp add: errors_told_def panic_def)
  moreover have r: "errors_told E (respond E m)" for m by (rule errors_told_respond [OF assms])
  moreover have "errors_told E (with_param params ''id'' (\<lambda>i. respond E (m i)))" for m params
    by (rule errors_told_param) (rule r)
  moreover have "errors_told E (with_param params ''id'' (\<lambda>i. with_param params ''signum'' (\<lambda>n. respond E (http_signal_post H V i n))))" for params
    by (rule errors_told_param, rule errors_told_param, rule r)
  moreover have "errors_told E (with_param params ''id'' (\<lambda>i. with_param params ''fd'' (\<lambda>fd. http_output_data_get E H V i fd)))" for params
    by (rule errors_told_param, rule errors_told_param, rule errors_told_data [OF assms])
  ultimately show ?thesis
    by (auto simp: dispatch_def split: option.split outcome.split)
qed


section \<open>The service and the task system\<close>

lemma by_steps_as_rsp: "by_steps m \<Longrightarrow> by_steps (as_rsp E m)"
  by (auto simp: by_steps_def as_rsp_def)

lemma by_steps_respond: "by_steps m \<Longrightarrow> by_steps (respond E m)"
  by (auto simp: by_steps_def respond_def split: option.splits)

lemma by_steps_param: "(\<And>v. by_steps (f v)) \<Longrightarrow> by_steps (with_param params p f)"
  by (auto simp: by_steps_def with_param_def split: option.splits)

lemma by_steps_handlers:
  "by_steps (http_procs_post H S V seed inp)" "by_steps (http_procs_id_delete V i)"
  "by_steps (http_procs_id_get E H i)" "by_steps (http_signal_post H V i n)" "by_steps (http_procs_get E H)"
proof -
  have p: "parse_signum ''SIGINT'' = Some SIGINT" by code_simp
  note agree = handlers_agree [OF p, where S = S and H = H and V = V and seed = seed]
  show "by_steps (http_procs_post H S V seed inp)"
    using agree [where inp = inp] by (metis by_steps_as_rsp by_steps_incoming)
  show "by_steps (http_procs_id_delete V i)"
    using agree [where i = i] by (metis by_steps_as_rsp by_steps_incoming)
  show "by_steps (http_procs_id_get E H i)"
    using agree [where i = i and E = E] by (metis by_steps_as_rsp by_steps_incoming)
  show "by_steps (http_signal_post H V i n)"
    by (auto simp: by_steps_def http_signal_post_def or_rsp_def run_then_def in_k_def split: option.splits prod.splits outcome.splits)
  show "by_steps (http_procs_get E H)"
    by (auto simp: by_steps_def http_procs_get_def run_then_must run_k_def split: option.splits prod.splits outcome.splits)
qed

lemma by_steps_data: "by_steps (http_output_data_get E H V i fd)"
  by (auto simp: by_steps_def http_output_data_get_def run_k_def split: option.splits prod.splits outcome.splits)

lemma by_steps_dispatch: "by_steps (dispatch E H S V seed req)"
proof -
  have e: "by_steps (respond E (at_once (fail e)))" "by_steps (at_once panic)" for e
    by (intro by_steps_respond by_steps_apart apart_basic)+
  show ?thesis
    unfolding dispatch_def
    by (auto split: option.split outcome.split intro!: e by_steps_param by_steps_respond by_steps_handlers by_steps_data)
qed

text \<open>
  Any HTTP request keeps the invariant of the system of tasks, whatever it asks and however it fails.
\<close>

theorem http_keeps_invariant:
  assumes "checks_safe H" "sys_reach H S (ss_sys s)" "dispatch E H S V seed req s = Some (r, s')"
  shows "sys_reach H S (ss_sys s') \<and> sys_ok (ss_sys s')"
  using by_stepsD [OF by_steps_dispatch assms(3)] sys_reach_steps [OF _ assms(2)] sys_reach_ok assms(1) by blast


section \<open>The properties at a concrete state\<close>

definition sample_http :: http_env where
  "sample_http = \<lparr>he_route = (\<lambda>p. if p = ''/procs'' then Some (0, []) else if p = ''/procs/b'' then Some (1, [(''id'', ''b'')]) else None),
     he_status_text = (\<lambda>_. ''status''), he_to_string = (\<lambda>_. Ok ''{}''), he_input = (\<lambda>_. Err ''syntax''),
     he_res_json = (\<lambda>_. JNull)\<rparr>"

definition sample_delete :: http_request where
  "sample_delete = \<lparr>rq_method = MDelete, rq_path = ''/procs/b'', rq_content_type = None, rq_body = Ok []\<rparr>"

lemma sample_writes: "writes_json sample_http"
  by (simp add: writes_json_def sample_http_def)

lemma sample_dispatch: "\<exists>rsp. dispatch sample_http (plain_host reaping_kernel) None plain_services 0 sample_delete sample_server = Some (Ok rsp, sample_server)"
  by (simp add: dispatch_def sample_http_def sample_delete_def with_param_def respond_def http_procs_id_delete_def
      remove_if_not_running_def json_response_def procs_get_def server_reg_def sample_server_def spawn_def sys_init_def
      procs_new_def procs_insert_def bt_get_def) (simp add: put_reg_def set_reg_def)

theorem http_agent_agree_witness:
  "http_signal_post (plain_host reaping_kernel) plain_services ''a'' ''SIGTERM'' =
     as_rsp sample_http (handle_incoming (plain_host reaping_kernel) None plain_services 0 (ProcSignalRequest ''a'' 15))"
proof -
  have "parse_signum ''SIGTERM'' = Some 15" by code_simp
  from http_agent_agree [OF this, where S = None and seed = 0 and E = sample_http] show ?thesis by blast
qed


theorem http_keeps_invariant_witness:
  "\<exists>r s'. dispatch sample_http (plain_host reaping_kernel) None plain_services 0 sample_delete sample_server = Some (r, s') \<and> sys_ok (ss_sys s')"
  using sample_dispatch http_keeps_invariant [OF reaping_safe sample_server_reach] by blast

end
