(* ===== verification/Routes.thy ===== *)
theory Routes
  imports Http
begin

text \<open>
  The routes of \<open>src/http.rs\<close>.  The router library is a parameter of \<open>Http\<close>; here what it is documented to
  do with the program's own table of routes is a hypothesis, under which each documented path is
  served by its handler and no parameter that \<open>dispatch\<close> unwraps is missing.
\<close>

definition router_new :: "(string \<times> nat) list" where
  "router_new =
     [(''/procs'', 0), (''/procs/:id'', 1), (''/procs/:id/signals/:signum'', 2), (''/procs/:id/output/:fd/data'', 3)]"

text \<open>
  The documented matching: a path is matched by segments; a named parameter takes one segment that is not
  empty, any other segment must be the same.
\<close>

definition param_name :: "string \<Rightarrow> string option" where
  "param_name p = (case p of c # name \<Rightarrow> if c = CHR '':'' then Some name else None | [] \<Rightarrow> None)"

fun seg_match :: "string list \<Rightarrow> string list \<Rightarrow> (string \<times> string) list option" where
  "seg_match [] [] = Some []"
| "seg_match (p # ps) (v # vs) =
     (case param_name p of
        Some name \<Rightarrow> if v = [] then None else map_option (Cons (name, v)) (seg_match ps vs)
      | None \<Rightarrow> if p = v then seg_match ps vs else None)"
| "seg_match _ _ = None"

fun route_at :: "(string \<times> nat) list \<Rightarrow> string \<Rightarrow> (nat \<times> (string \<times> string) list) option" where
  "route_at [] path = None"
| "route_at ((pat, n) # rs) path =
     (case seg_match (split_char CHR ''/'' pat) (split_char CHR ''/'' path) of
        Some params \<Rightarrow> Some (n, params)
      | None \<Rightarrow> route_at rs path)"

definition routes_as_documented :: "http_env \<Rightarrow> bool" where
  "routes_as_documented E \<longleftrightarrow> (\<forall>path. he_route E path = route_at router_new path)"

text \<open>A segment: what a path parameter can hold.\<close>

definition segment :: "string \<Rightarrow> bool" where
  "segment x \<longleftrightarrow> x \<noteq> [] \<and> CHR ''/'' \<notin> set x"

lemma split_char_not_Nil [simp]: "split_char d s \<noteq> []"
  by (induction d s rule: split_char.induct) (auto split: list.split)

lemma split_char_segments: "x \<in> set (split_char d s) \<Longrightarrow> d \<notin> set x"
  by (induction d s arbitrary: x rule: split_char.induct) (auto split: list.splits if_splits)

lemma seg_match_params:
  "seg_match ps vs = Some params \<Longrightarrow>
     map fst params = map the (filter (\<lambda>n. n \<noteq> None) (map param_name ps)) \<and> (\<forall>v \<in> set (map snd params). v \<in> set vs \<and> v \<noteq> [])"
  by (induction ps vs arbitrary: params rule: seg_match.induct) (fastforce split: option.splits if_splits)+

lemma seg_match_path:
  assumes "seg_match ps (split_char CHR ''/'' path) = Some params"
  shows "map fst params = map the (filter (\<lambda>n. n \<noteq> None) (map param_name ps))" "\<forall>v \<in> set (map snd params). segment v"
  using seg_match_params [OF assms] split_char_segments by (auto simp: segment_def)

lemma route_patterns:
  "split_char CHR ''/'' ''/procs'' = [[], ''procs'']"
  "split_char CHR ''/'' ''/procs/:id'' = [[], ''procs'', '':id'']"
  "split_char CHR ''/'' ''/procs/:id/signals/:signum'' = [[], ''procs'', '':id'', ''signals'', '':signum'']"
  "split_char CHR ''/'' ''/procs/:id/output/:fd/data'' = [[], ''procs'', '':id'', ''output'', '':fd'', ''data'']"
  by simp_all

lemma split_segment: "segment x \<Longrightarrow> split_char CHR ''/'' x = [x]"
  "segment x \<Longrightarrow> split_char CHR ''/'' (x @ CHR ''/'' # rest) = x # split_char CHR ''/'' rest"
  by (simp_all add: segment_def split_char_no split_char_append)

lemma routes_known:
  "route_at router_new ''/procs'' = Some (0, [])"
  "segment i \<Longrightarrow> route_at router_new (''/procs/'' @ i) = Some (1, [(''id'', i)])"
  "segment i \<Longrightarrow> segment n \<Longrightarrow>
     route_at router_new (''/procs/'' @ i @ ''/signals/'' @ n) = Some (2, [(''id'', i), (''signum'', n)])"
  "segment i \<Longrightarrow> segment fd \<Longrightarrow>
     route_at router_new (''/procs/'' @ i @ ''/output/'' @ fd @ ''/data'') = Some (3, [(''id'', i), (''fd'', fd)])"
  "segment i \<Longrightarrow> segment fd \<Longrightarrow> route_at router_new (''/procs/'' @ i @ ''/fds/'' @ fd) = None"
  by (simp_all add: router_new_def split_segment param_name_def) (simp_all add: segment_def)

lemma route_at_entry:
  assumes "route_at rs path = Some (n, params)"
  obtains pat where "(pat, n) \<in> set rs" "seg_match (split_char CHR ''/'' pat) (split_char CHR ''/'' path) = Some params"
  using assms by (induction rs path rule: route_at.induct) (auto split: option.splits)

text \<open>
  Each path of the table is served by its handler, with the segments of the path as its arguments; the
  paths \<open>/procs/:id/fds/:fd\<close>, which the documentation of the API lists for captured output, are not
  found.
\<close>

theorem paths_served:
  assumes "routes_as_documented E" "segment i" "segment n"
  shows "dispatch E H S V seed (req\<lparr>rq_method := MGet, rq_path := ''/procs''\<rparr>) = respond E (http_procs_get E H)"
    "dispatch E H S V seed (req\<lparr>rq_method := MGet, rq_path := ''/procs/'' @ i\<rparr>) = respond E (http_procs_id_get E H i)"
    "dispatch E H S V seed (req\<lparr>rq_method := MDelete, rq_path := ''/procs/'' @ i\<rparr>) = respond E (http_procs_id_delete V i)"
    "dispatch E H S V seed (req\<lparr>rq_method := MPost, rq_path := ''/procs/'' @ i @ ''/signals/'' @ n\<rparr>) =
       respond E (http_signal_post H V i n)"
    "dispatch E H S V seed (req\<lparr>rq_method := MGet, rq_path := ''/procs/'' @ i @ ''/output/'' @ n @ ''/data''\<rparr>) =
       http_output_data_get E H V i n"
    "dispatch E H S V seed (req\<lparr>rq_method := meth, rq_path := ''/procs/'' @ i @ ''/fds/'' @ n\<rparr>) =
       respond E (at_once (fail (RspError NOT_FOUND None)))"
  using assms routes_known
  by (simp_all add: dispatch_def routes_as_documented_def with_param_def fun_eq_iff del: append_Cons)

text \<open>The parameters that \<open>dispatch\<close> unwraps for a route.\<close>

definition route_params :: "nat \<Rightarrow> string list" where
  "route_params route =
     (if route = 0 then [] else if route = 1 then [''id''] else if route = 2 then [''id'', ''signum''] else [''id'', ''fd''])"

text \<open>
  No parameter is missing: whatever the path, the parameters that \<open>dispatch\<close> unwraps for its route are
  there, so that only a handler can panic; and each is one segment, so that a process whose ID contains
  a slash or is empty has no path of its own.
\<close>

theorem params_there:
  assumes "routes_as_documented E" "he_route E path = Some (route, params)"
  shows "route < 4 \<and>
    map fst params = route_params route \<and>
    (\<forall>v \<in> set (map snd params). segment v)"
proof -
  from assms have "route_at router_new path = Some (route, params)" by (simp add: routes_as_documented_def)
  then obtain pat where pat: "(pat, route) \<in> set router_new"
      "seg_match (split_char CHR ''/'' pat) (split_char CHR ''/'' path) = Some params"
    by (rule route_at_entry)
  note m = seg_match_path [OF pat(2)]
  have "list_all (\<lambda>(pat, route). route < 4 \<and>
      map the (filter (\<lambda>n. n \<noteq> None) (map param_name (split_char CHR ''/'' pat))) = route_params route) router_new"
    by code_simp
  with pat(1) m show ?thesis by (auto simp: list_all_iff)
qed


text \<open>The hypothesis at a concrete router.\<close>

lemma params_there_witness:
  "he_route (sample_http\<lparr>he_route := route_at router_new\<rparr>) ''/procs/b/output/stdout/data'' = Some (3, [(''id'', ''b''), (''fd'', ''stdout'')])"
  "map fst [(''id'', ''b''), (''fd'', ''stdout'')] = route_params 3"
proof -
  have "segment ''b''" "segment ''stdout''" by (simp_all add: segment_def)
  from routes_known(4) [OF this]
  show at: "he_route (sample_http\<lparr>he_route := route_at router_new\<rparr>) ''/procs/b/output/stdout/data'' = Some (3, [(''id'', ''b''), (''fd'', ''stdout'')])"
    by simp
  from params_there [OF _ at] show "map fst [(''id'', ''b''), (''fd'', ''stdout'')] = route_params 3"
    by (simp add: routes_as_documented_def)
qed

end
