(* ===== verification/Agent.thy ===== *)
theory Agent
  imports Proto
begin

text \<open>
  The agent's connection to its server, \<open>src/agent.rs\<close> with \<open>src/net.rs\<close>: registration, the handling of
  websocket messages, the messages sent for notifications, and the loop that reconnects with
  exponential backoff.  The websocket, TLS and MessagePack libraries are parameters; what they report
  arrives as events.
\<close>

section \<open>Messages on the websocket\<close>

datatype ws_message = WsBinary "byte list" | WsPing "byte list" | WsPong "byte list" | WsClose | WsOther string

record codec =
  decode_incoming :: "byte list \<Rightarrow> (incoming_message, string) outcome"
  encode_outgoing :: "outgoing_message \<Rightarrow> (byte list, string) outcome"

fun ws_debug :: "ws_message \<Rightarrow> string" where
  "ws_debug (WsOther text) = text"
| "ws_debug _ = ''''"

definition deserialize :: "codec \<Rightarrow> byte list \<Rightarrow> (incoming_message, error) outcome" where
  "deserialize C data = map_err RMPDecode (decode_incoming C data)"

definition serialize :: "codec \<Rightarrow> outgoing_message \<Rightarrow> (byte list, error) outcome" where
  "serialize C msg = map_err RMPEncode (encode_outgoing C msg)"

text \<open>A message that cannot be decoded is logged and dropped.\<close>

fun ws_handle ::
  "codec \<Rightarrow> 'k host \<Rightarrow> 'k systemd option \<Rightarrow> 'k services \<Rightarrow> nat \<Rightarrow> ws_message \<Rightarrow> (ws_message option, error, 'k start_state) run" where
  "ws_handle C H S V seed (WsBinary data) s =
     (case deserialize C data of
        Ok msg \<Rightarrow> run_then (handle_incoming H S V seed msg) (\<lambda>rsp.
            case rsp of
              Some r \<Rightarrow> at_once (\<lambda>s. (map_ok (\<lambda>b. Some (WsBinary b)) (serialize C r), s))
            | None \<Rightarrow> at_once (ret None)) s
      | Err err \<Rightarrow> Some (Ok None, s)
      | Panic \<Rightarrow> Some (Panic, s))"
| "ws_handle C H S V seed (WsPing payload) s = Some (Ok (Some (WsPong payload)), s)"
| "ws_handle C H S V seed (WsPong payload) s = Some (Ok None, s)"
| "ws_handle C H S V seed WsClose s = Some (Err (ErrProto ProtoClose), s)"
| "ws_handle C H S V seed (WsOther text) s =
     Some (Err (ErrProto (WrongMessageType (''unexpected ws msg: '' @ text))), s)"

text \<open>What the next item of the stream is: its end, an error, or a message.\<close>

fun ws_receive :: "codec \<Rightarrow> (ws_message, string) outcome option \<Rightarrow> (incoming_message, error) outcome" where
  "ws_receive C None = Err (ErrProto ProtoClose)"
| "ws_receive C (Some (Err e)) = Err (ErrWebsocket e)"
| "ws_receive C (Some Panic) = Panic"
| "ws_receive C (Some (Ok (WsBinary data))) = deserialize C data"
| "ws_receive C (Some (Ok WsClose)) = Err (ErrProto (WrongMessageType ''websocket closed''))"
| "ws_receive C (Some (Ok msg)) = Err (ErrProto (WrongMessageType (''unexpected ws msg: '' @ ws_debug msg)))"

section \<open>Registration\<close>

record connection =
  cn_url :: string
  cn_conn :: connection_info
  cn_proc :: process_info

definition connection_new ::
  "string \<Rightarrow> string option \<Rightarrow> string option \<Rightarrow> string \<Rightarrow> string option \<Rightarrow> process_info \<Rightarrow> connection" where
  "connection_new url conn_id group_id uuid restricted proc =
     \<lparr>cn_url = url,
      cn_conn = \<lparr>ci_conn_id = (case conn_id of Some n \<Rightarrow> n | None \<Rightarrow> uuid),
                 ci_group_id = (case group_id of Some n \<Rightarrow> n | None \<Rightarrow> DEFAULT_GROUP),
                 ci_restricted_exe = restricted\<rparr>,
      cn_proc = proc\<rparr>"

definition get_access_token :: "(string \<times> string) list \<Rightarrow> string" where
  "get_access_token env_vars =
     (case find (\<lambda>(n, _). n = ''PROCSTAR_AGENT_TOKEN'') env_vars of Some (_, token) \<Rightarrow> token | None \<Rightarrow> '''')"

text \<open>The certificate of the server, if one is configured; the last step is the library's builder.\<close>

definition get_tls_connector ::
  "(string \<times> string) list \<Rightarrow> reader \<Rightarrow> (string \<Rightarrow> ('c, string) outcome) \<Rightarrow> ('c option \<Rightarrow> ('t, string) outcome) \<Rightarrow>
     ('t, error) outcome" where
  "get_tls_connector env_vars read_file from_pem build_tls =
     and_then (case find (\<lambda>(n, _). n = ''PROCSTAR_AGENT_CERT'') env_vars of
         Some (_, cert_path) \<Rightarrow>
           and_then (map_err ErrIo (read_file cert_path)) (\<lambda>pem.
           map_ok Some (map_err ErrNativeTls (from_pem pem)))
       | None \<Rightarrow> Ok None) (\<lambda>cert. unwrap (build_tls cert))"

definition register_message :: "(string \<times> string) list \<Rightarrow> connection \<Rightarrow> registry \<Rightarrow> outgoing_message" where
  "register_message env_vars cn r =
     Register (cn_conn cn) (cn_proc cn) (get_proc_ids r) (get_access_token env_vars) (get_shutdown r)"

text \<open>
  The events of one attempt: the TLS connector, the connection, the sending, the first item received,
  and whether the registration timed out first.
\<close>

record attempt_events =
  at_tls :: "(unit, error) outcome"
  at_timeout :: bool
  at_connect :: "(unit, string) outcome"
  at_send :: "(unit, string) outcome"
  at_next :: "(ws_message, string) outcome option"

definition connect :: "codec \<Rightarrow> (string \<times> string) list \<Rightarrow> connection \<Rightarrow> registry \<Rightarrow> attempt_events \<Rightarrow> (unit, error) outcome" where
  "connect C env_vars cn r ev =
     and_then (at_tls ev) (\<lambda>_.
       if at_timeout ev then Err RegisterTimeout
       else and_then (map_err ErrWebsocket (at_connect ev)) (\<lambda>_.
            and_then (serialize C (register_message env_vars cn r)) (\<lambda>_.
            and_then (map_err ErrWebsocket (at_send ev)) (\<lambda>_.
            and_then (ws_receive C (at_next ev)) (\<lambda>msg.
              if msg = Registered then Ok () else Err (ErrProto (UnexpectedMessage msg)))))))"

section \<open>Messages for notifications\<close>

definition result_message :: "'k host \<Rightarrow> proc_id \<Rightarrow> (outgoing_message option, error, 'k start_state) run" where
  "result_message H proc_id s =
     (case procs_get (server_reg s) proc_id of
        Some a \<Rightarrow> run_then (must (run_k (proc_to_result H (proc_at (server_reg s) a))))
                     (\<lambda>res. at_once (ret (Some (ProcResult proc_id res)))) s
      | None \<Rightarrow> Some (Ok None, s))"

fun notification_to_message ::
  "'k host \<Rightarrow> notification \<Rightarrow> (outgoing_message option, error, 'k start_state) run" where
  "notification_to_message H (NotiStart proc_id) = result_message H proc_id"
| "notification_to_message H (NotiNotRunning proc_id) = result_message H proc_id"
| "notification_to_message H (NotiDelete proc_id) = at_once (ret (Some (ProcDelete proc_id)))"
| "notification_to_message H (NotiShutDown st) = at_once (ret (Some (ShutDown st)))"

section \<open>The connection loop\<close>

text \<open>
  A \<open>Duration\<close> is a number of nanoseconds; its product with a float, and its conversion from one, are
  taken exactly and rounded, and panic outside the range of the type.
\<close>

type_synonym duration = nat

definition SECOND :: duration where "SECOND = 10 ^ 9"

definition duration_of :: "rat \<Rightarrow> (duration, 'e) outcome" where
  "duration_of x = (if x < 0 \<or> of_nat (2 ^ 64 * SECOND) \<le> x then Panic else Ok (nat (round x)))"

definition from_secs_f64 :: "f64 \<Rightarrow> (duration, 'e) outcome" where
  "from_secs_f64 secs = duration_of (f64_value secs * of_nat SECOND)"

definition mul_f64 :: "duration \<Rightarrow> f64 \<Rightarrow> (duration, 'e) outcome" where
  "mul_f64 d m = duration_of (of_nat d * f64_value m)"

definition PING_INTERVAL :: duration where "PING_INTERVAL = 20 * SECOND"
definition READ_TIMEOUT :: duration where "READ_TIMEOUT = 60 * SECOND"
definition REGISTER_TIMEOUT :: duration where "REGISTER_TIMEOUT = 10 * SECOND"

record connect_config =
  cf_interval_start :: duration
  cf_interval_mult :: f64
  cf_interval_max :: duration
  cf_count_max :: nat
  cf_read_timeout :: duration

definition connect_config_new :: connect_config where
  "connect_config_new = \<lparr>cf_interval_start = SECOND, cf_interval_mult = Lit 2 0, cf_interval_max = 60 * SECOND,
     cf_count_max = 2 ^ 64 - 1, cf_read_timeout = READ_TIMEOUT\<rparr>"

datatype agent_phase = Looping | Online | Finished "(unit, error) outcome"

record agent =
  ag_phase :: agent_phase
  ag_interval :: duration
  ag_count :: nat
  ag_done :: bool
  ag_pos :: nat

definition agent_new :: "connect_config \<Rightarrow> agent" where
  "agent_new cfg = \<lparr>ag_phase = Looping, ag_interval = cf_interval_start cfg, ag_count = 0, ag_done = False, ag_pos = 0\<rparr>"

text \<open>The head of the loop, up to the attempt to connect: \<open>Looping\<close> if it goes on.\<close>

definition agent_head :: "registry \<Rightarrow> agent \<Rightarrow> agent" where
  "agent_head r a =
     (if ag_done a \<or> get_shutdown r = Done then a\<lparr>ag_phase := Finished (Ok ())\<rparr> else a)"

text \<open>
  A failed attempt: give up, or sleep for the interval and lengthen it after that.  The result is how long the
  agent sleeps before its next attempt, if it sleeps, and its state after the sleep.
\<close>

definition next_interval :: "connect_config \<Rightarrow> duration \<Rightarrow> (duration, error) outcome" where
  "next_interval cfg d = map_ok (\<lambda>d'. if cf_interval_max cfg < d' then cf_interval_max cfg else d') (mul_f64 d (cf_interval_mult cfg))"

definition agent_failed :: "connect_config \<Rightarrow> error \<Rightarrow> agent \<Rightarrow> duration option \<times> agent" where
  "agent_failed cfg err a =
     (let count' = ag_count a + 1 in
      if cf_count_max cfg \<le> count' then (None, a\<lparr>ag_count := count', ag_phase := Finished (Err err)\<rparr>)
      else (Some (ag_interval a),
        case next_interval cfg (ag_interval a) of
          Ok d \<Rightarrow> a\<lparr>ag_count := count', ag_interval := d\<rparr>
        | _ \<Rightarrow> a\<lparr>ag_count := count', ag_phase := Finished Panic\<rparr>))"

text \<open>A successful one: the interval and the count start again, and the notifications are subscribed.\<close>

definition agent_connected :: "connect_config \<Rightarrow> registry \<Rightarrow> agent \<Rightarrow> agent \<times> registry" where
  "agent_connected cfg r a =
     (case subscribe r of (pos, r') \<Rightarrow>
        (a\<lparr>ag_phase := Online, ag_interval := cf_interval_start cfg, ag_count := 0, ag_pos := pos\<rparr>, r'))"

text \<open>Leaving the inner loop drops the subscription.\<close>

definition agent_leave :: "registry \<Rightarrow> agent \<Rightarrow> agent \<times> registry" where
  "agent_leave r a = (a\<lparr>ag_phase := Looping\<rparr>, unsubscribe r)"

text \<open>
  The events of the inner loop: a tick with the outcome of the ping, an item of the stream with the
  outcome of sending the answer, a notification with the outcomes of sending its message.  The result
  is whether to leave.
\<close>

datatype stream_item = StreamEnd | StreamTimeout | StreamItem "(ws_message, string) outcome"

datatype online_event =
    PingTick "(unit, string) outcome"
  | Received stream_item "(unit, string) outcome"
  | Notified

definition sent :: "(unit, string) outcome \<Rightarrow> bool" where
  "sent r = (case r of Ok _ \<Rightarrow> True | _ \<Rightarrow> False)"

fun on_stream ::
  "codec \<Rightarrow> 'k host \<Rightarrow> 'k systemd option \<Rightarrow> 'k services \<Rightarrow> nat \<Rightarrow> stream_item \<Rightarrow> (unit, string) outcome \<Rightarrow>
     (bool, error, 'k start_state) run" where
  "on_stream C H S V seed StreamEnd res s = Some (Ok True, s)"
| "on_stream C H S V seed StreamTimeout res s = Some (Ok True, s)"
| "on_stream C H S V seed (StreamItem (Err e)) res s = Some (Ok True, s)"
| "on_stream C H S V seed (StreamItem Panic) res s = Some (Panic, s)"
| "on_stream C H S V seed (StreamItem (Ok msg)) res s =
     (if msg = WsClose then Some (Ok True, s)
      else case ws_handle C H S V seed msg s of
          None \<Rightarrow> None
        | Some (Ok (Some rsp), s') \<Rightarrow> Some (Ok (\<not> sent res), s')
        | Some (Ok None, s') \<Rightarrow> Some (Ok False, s')
        | Some (Err err, s') \<Rightarrow> Some (Ok True, s')
        | Some (Panic, s') \<Rightarrow> Some (Panic, s'))"

text \<open>A notification: the flag for the end, and the message to send, whose failure is only logged.\<close>

definition on_notification ::
  "'k host \<Rightarrow> agent \<Rightarrow> (agent \<times> outgoing_message option, error, 'k start_state) run" where
  "on_notification H a s =
     (case recv (ag_pos a) (server_reg s) of
        None \<Rightarrow> None
      | Some (Ok noti, pos) \<Rightarrow>
          let a' = a\<lparr>ag_pos := pos, ag_done := ag_done a \<or> noti = NotiShutDown Done\<rparr> in
          run_then (notification_to_message H noti) (\<lambda>msg. at_once (ret (a', msg))) s
      | Some (Err _, pos) \<Rightarrow> Some (Panic, s)
      | Some (Panic, pos) \<Rightarrow> Some (Panic, s))"

text \<open>One turn of the inner loop; it ends on a break, and before the next turn when the agent is done.\<close>

definition turn_end :: "bool \<Rightarrow> agent \<Rightarrow> 'k start_state \<Rightarrow> (agent, error) outcome \<times> 'k start_state" where
  "turn_end leave a s =
     (if leave \<or> ag_done a then (case agent_leave (server_reg s) a of (a', r) \<Rightarrow> (Ok a', put_reg r s)) else (Ok a, s))"

definition online_step ::
  "codec \<Rightarrow> 'k host \<Rightarrow> 'k systemd option \<Rightarrow> 'k services \<Rightarrow> nat \<Rightarrow> online_event \<Rightarrow> agent \<Rightarrow>
     (agent, error, 'k start_state) run" where
  "online_step C H S V seed ev a =
     run_then
       (case ev of
          PingTick res \<Rightarrow> at_once (ret (a, \<not> sent res))
        | Received item res \<Rightarrow> run_then (on_stream C H S V seed item res) (\<lambda>leave. at_once (ret (a, leave)))
        | Notified \<Rightarrow> run_then (on_notification H a) (\<lambda>(a', _). at_once (ret (a', False))))
       (\<lambda>(a', leave). at_once (turn_end leave a'))"


section \<open>The server's view\<close>

text \<open>
  What the server knows of the agent's processes from the messages it is sent: a result tells of a
  process, a deletion forgets it.
\<close>

fun server_sees :: "outgoing_message option \<Rightarrow> proc_id set \<Rightarrow> proc_id set" where
  "server_sees (Some (ProcResult i _)) view = insert i view"
| "server_sees (Some (ProcDelete i)) view = view - {i}"
| "server_sees _ view = view"

text \<open>The life of a connection: operations on the registry, by anyone, and notifications handled by the agent.\<close>

datatype view_event = RegOp reg_op | HandleNotification

type_synonym 'k viewed = "proc_id set \<times> agent \<times> 'k start_state"

fun view_step :: "'k host \<Rightarrow> view_event \<Rightarrow> 'k viewed \<Rightarrow> 'k viewed option" where
  "view_step H (RegOp op) (view, a, s) = Some (view, a, put_reg (apply_op (server_reg s) op) s)"
| "view_step H HandleNotification (view, a, s) =
     (case on_notification H a s of
        Some (Ok (a', msg), s') \<Rightarrow> Some (server_sees msg view, a', s')
      | _ \<Rightarrow> None)"

fun view_run :: "'k host \<Rightarrow> view_event list \<Rightarrow> 'k viewed \<Rightarrow> 'k viewed option" where
  "view_run H [] w = Some w"
| "view_run H (ev # evs) w = (case view_step H ev w of None \<Rightarrow> None | Some w' \<Rightarrow> view_run H evs w')"

text \<open>What the server knows, with the notifications still to be handled, is what is registered.\<close>

fun in_step :: "'k viewed \<Rightarrow> bool" where
  "in_step (view, a, s) \<longleftrightarrow> reg_ok (server_reg s) \<and> 0 < reg_receivers (server_reg s) \<and>
     ag_pos a \<le> length (reg_log (server_reg s)) \<and>
     foldl note_ids view (drop (ag_pos a) (reg_log (server_reg s))) = reg_ids (server_reg s)"

lemma note_ids_mono: "X \<subseteq> Y \<Longrightarrow> note_ids X n \<subseteq> note_ids Y n"
  by (cases n) auto

lemma notes_mono: "X \<subseteq> Y \<Longrightarrow> foldl note_ids X ns \<subseteq> foldl note_ids Y ns"
proof (induction ns arbitrary: X Y)
  case (Cons n ns)
  then show ?case using note_ids_mono [of X Y n] by simp
qed simp

lemma note_ids_insert: "note_ids (insert i X) n \<subseteq> insert i (note_ids X n)"
  by (cases n) auto

lemma notes_insert: "foldl note_ids (insert i X) ns \<subseteq> insert i (foldl note_ids X ns)"
proof (induction ns arbitrary: X)
  case (Cons n ns)
  have "foldl note_ids (note_ids (insert i X) n) ns \<subseteq> foldl note_ids (insert i (note_ids X n)) ns"
    by (rule notes_mono) (rule note_ids_insert)
  also have "\<dots> \<subseteq> insert i (foldl note_ids (note_ids X n) ns)" by (rule Cons.IH)
  finally show ?case by simp
qed simp

text \<open>Knowing of a process early, or not at all when it is already gone, makes no difference in the end.\<close>

lemma notes_known: "i \<in> foldl note_ids X ns \<Longrightarrow> foldl note_ids (insert i X) ns = foldl note_ids X ns"
  using notes_insert [of i X ns] notes_mono [of X "insert i X" ns] by auto

lemma notes_gone: "i \<notin> foldl note_ids (insert i X) ns \<Longrightarrow> foldl note_ids X ns = foldl note_ids (insert i X) ns"
  using notes_insert [of i X ns] notes_mono [of X "insert i X" ns] by auto

lemma result_message_effect:
  assumes "result_message H i s = Some (Ok msg, s')"
  shows "server_reg s' = server_reg s \<and>
    server_sees msg view = (if i \<in> reg_ids (server_reg s) then insert i view else view)"
proof (cases "procs_get (server_reg s) i")
  case None
  with assms have "i \<notin> reg_ids (server_reg s)" using procs_get_ids [of "server_reg s" i] by simp
  with None assms show ?thesis by (auto simp: result_message_def)
next
  case (Some a)
  then have "i \<in> reg_ids (server_reg s)" using procs_get_ids [of "server_reg s" i] by simp
  with Some assms show ?thesis
    by (auto simp: result_message_def run_then_must run_k_def server_reg_def split: option.splits prod.splits outcome.splits)
qed

lemma notification_effect:
  assumes "notification_to_message H noti s = Some (Ok msg, s')"
    and "foldl note_ids view (noti # ns) = reg_ids (server_reg s)"
  shows "server_reg s' = server_reg s \<and> foldl note_ids (server_sees msg view) ns = reg_ids (server_reg s)"
proof (cases noti)
  case (NotiStart i)
  with assms result_message_effect [of H i s msg s' view] show ?thesis
    using notes_gone [of i view ns] by (auto split: if_splits)
next
  case (NotiNotRunning i)
  with assms result_message_effect [of H i s msg s' view] show ?thesis
    using notes_known [of i view ns] by (auto split: if_splits)
next
  case (NotiDelete i)
  with assms have "msg = Some (ProcDelete i)" "s' = s" by simp_all
  with assms(2) NotiDelete show ?thesis by simp
next
  case (NotiShutDown st)
  with assms have "msg = Some (ShutDown st)" "s' = s" by simp_all
  with assms(2) NotiShutDown show ?thesis by simp
qed

lemma notification_same: "notification_to_message H noti s = Some (Ok msg, s') \<Longrightarrow> server_reg s' = server_reg s"
  by (cases noti) (auto dest: result_message_effect)

lemma in_step_op:
  assumes "in_step (view, a, s)"
  shows "in_step (view, a, put_reg (apply_op (server_reg s) op) s)"
proof -
  let ?r = "server_reg s" let ?r' = "apply_op (server_reg s) op"
  have "followed ?r ?r'" using assms by (intro apply_op_followed) auto
  then obtain ns where "reg_ok ?r'" "0 < reg_receivers ?r'" "reg_log ?r' = reg_log ?r @ ns"
      "reg_ids ?r' = foldl note_ids (reg_ids ?r) ns"
    by (auto simp: followed_def)
  with assms show ?thesis by simp
qed

lemma in_step_read:
  assumes "in_step (view, a, s)" "on_notification H a s = Some (Ok (a', msg), s')"
  shows "in_step (server_sees msg view, a', s')"
proof -
  let ?r = "server_reg s"
  from assms(2) obtain noti pos where n: "recv (ag_pos a) ?r = Some (Ok noti, pos)" "ag_pos a' = pos"
      "notification_to_message H noti s = Some (Ok msg, s')"
    by (auto simp: on_notification_def run_then_def Let_def split: option.splits prod.splits outcome.splits)
  from recv_next [OF n(1)] have d: "drop (ag_pos a) (reg_log ?r) = noti # drop pos (reg_log ?r)" "pos \<le> length (reg_log ?r)"
    by (auto simp: Cons_nth_drop_Suc)
  with assms(1) notification_effect [OF n(3), of view "drop pos (reg_log ?r)"] n(2) show ?thesis by simp
qed

text \<open>
  C12 The server is kept up to date: from a subscription at which it knows the registered processes, and
  whatever operations on the registry and handled notifications follow, in any interleaving, the
  notifications not handled yet would bring its view exactly to the registered processes; so when all
  are handled it knows them all, and no others.
\<close>

theorem server_view_follows:
  assumes "in_step (view, a, s)" "view_run H evs (view, a, s) = Some (view', a', s')"
  shows "in_step (view', a', s') \<and> (recv (ag_pos a') (server_reg s') = None \<longrightarrow> view' = reg_ids (server_reg s'))"
proof -
  have "in_step (view', a', s')"
    using assms
  proof (induction evs arbitrary: view a s)
    case (Cons ev evs)
    from Cons.prems(2) obtain view1 a1 s1 where 1: "view_step H ev (view, a, s) = Some (view1, a1, s1)"
        "view_run H evs (view1, a1, s1) = Some (view', a', s')"
      by (auto split: option.splits)
    have "in_step (view1, a1, s1)"
    proof (cases ev)
      case (RegOp op)
      with 1(1) have "view1 = view" "a1 = a" "s1 = put_reg (apply_op (server_reg s) op) s" by simp_all
      with in_step_op [OF Cons.prems(1), of op] show ?thesis by simp
    next
      case HandleNotification
      with 1(1) obtain msg where "on_notification H a s = Some (Ok (a1, msg), s1)" "view1 = server_sees msg view"
        by (auto split: option.splits prod.splits outcome.splits)
      with in_step_read [OF Cons.prems(1)] show ?thesis by blast
    qed
    then show ?case using 1(2) by (rule Cons.IH)
  qed simp
  moreover from this have "view' = reg_ids (server_reg s')" if "recv (ag_pos a') (server_reg s') = None"
    using that by (auto simp: recv_def split: if_splits)
  ultimately show ?thesis by blast
qed

text \<open>What a registration tells the server, and the notifications that are about a process.\<close>

fun registered_view :: "outgoing_message \<Rightarrow> proc_id set" where
  "registered_view (Register _ _ proc_ids _ _) = set proc_ids"
| "registered_view _ = {}"

fun about :: "proc_id \<Rightarrow> notification \<Rightarrow> bool" where
  "about i (NotiStart j) = (j = i)"
| "about i (NotiNotRunning j) = (j = i)"
| "about i (NotiDelete j) = (j = i)"
| "about i (NotiShutDown _) = False"

lemma notes_quiet: "\<forall>n \<in> set ns. \<not> about i n \<Longrightarrow> i \<in> foldl note_ids X ns \<longleftrightarrow> i \<in> X"
proof (induction ns arbitrary: X)
  case (Cons n ns)
  then show ?case by (cases n) auto
qed simp

lemma notification_quiet:
  assumes "notification_to_message H noti s = Some (Ok msg, s')" "\<not> about i noti"
  shows "i \<in> server_sees msg view \<longleftrightarrow> i \<in> view"
  using assms result_message_effect [of H _ s msg s' view] by (cases noti) auto

text \<open>What the agent does with the notifications after its subscription.\<close>

lemma view_run_quiet:
  assumes "view_run H evs (view, a, s) = Some (view', a', s')" "reg_ok (server_reg s)" "0 < reg_receivers (server_reg s)"
    and "ag_pos a \<le> length (reg_log (server_reg s))"
  shows "\<exists>ns. reg_log (server_reg s') = reg_log (server_reg s) @ ns \<and> ag_phase a' = ag_phase a \<and>
    (\<forall>i. (\<forall>n \<in> set (drop (ag_pos a) (reg_log (server_reg s'))). \<not> about i n) \<longrightarrow> (i \<in> view' \<longleftrightarrow> i \<in> view)) \<and>
    (\<forall>i. (\<forall>n \<in> set ns. \<not> about i n) \<longrightarrow> (i \<in> reg_ids (server_reg s') \<longleftrightarrow> i \<in> reg_ids (server_reg s))) \<and>
    (NotiShutDown Done \<notin> set (drop (ag_pos a) (reg_log (server_reg s'))) \<longrightarrow> ag_done a' = ag_done a)"
  using assms
proof (induction evs arbitrary: view a s)
  case (Cons ev evs)
  from Cons.prems(1) obtain view1 a1 s1 where 1: "view_step H ev (view, a, s) = Some (view1, a1, s1)"
      "view_run H evs (view1, a1, s1) = Some (view', a', s')"
    by (auto split: option.splits)
  show ?case
  proof (cases ev)
    case (RegOp op)
    let ?r1 = "apply_op (server_reg s) op"
    have e: "view1 = view" "a1 = a" "server_reg s1 = ?r1" using 1(1) RegOp by auto
    obtain ns1 where f: "reg_ok ?r1" "0 < reg_receivers ?r1" "reg_log ?r1 = reg_log (server_reg s) @ ns1"
        "reg_ids ?r1 = foldl note_ids (reg_ids (server_reg s)) ns1"
      using apply_op_followed [OF Cons.prems(2,3), of op] by (auto simp: followed_def)
    have "ag_pos a1 \<le> length (reg_log (server_reg s1))" using Cons.prems(4) e f(3) by simp
    then obtain ns2 where ns2: "reg_log (server_reg s') = reg_log ?r1 @ ns2" "ag_phase a' = ag_phase a"
        "\<forall>i. (\<forall>n \<in> set (drop (ag_pos a) (reg_log (server_reg s'))). \<not> about i n) \<longrightarrow> (i \<in> view' \<longleftrightarrow> i \<in> view)"
        "\<forall>i. (\<forall>n \<in> set ns2. \<not> about i n) \<longrightarrow> (i \<in> reg_ids (server_reg s') \<longleftrightarrow> i \<in> reg_ids ?r1)"
        "NotiShutDown Done \<notin> set (drop (ag_pos a) (reg_log (server_reg s'))) \<longrightarrow> ag_done a' = ag_done a"
      using Cons.IH [OF 1(2)] e f(1,2) by auto
    then show ?thesis using f(3,4) notes_quiet [of ns1] by (intro exI [of _ "ns1 @ ns2"]) auto
  next
    case HandleNotification
    then obtain msg where m: "on_notification H a s = Some (Ok (a1, msg), s1)" "view1 = server_sees msg view"
      using 1(1) by (auto split: option.splits prod.splits outcome.splits)
    then obtain noti pos where n: "recv (ag_pos a) (server_reg s) = Some (Ok noti, pos)"
        "a1 = a\<lparr>ag_pos := pos, ag_done := ag_done a \<or> noti = NotiShutDown Done\<rparr>"
        "notification_to_message H noti s = Some (Ok msg, s1)"
      by (auto simp: on_notification_def run_then_def Let_def split: option.splits prod.splits outcome.splits)
    note same = notification_same [OF n(3)]
    from recv_next [OF n(1)] have d: "ag_pos a < length (reg_log (server_reg s))" "noti = reg_log (server_reg s) ! ag_pos a" "pos = ag_pos a + 1"
      by auto
    have "ag_pos a1 \<le> length (reg_log (server_reg s1))" using d n(2) same by simp
    moreover have "reg_ok (server_reg s1)" "0 < reg_receivers (server_reg s1)" using Cons.prems(2,3) same by simp_all
    ultimately obtain ns where ns: "reg_log (server_reg s') = reg_log (server_reg s1) @ ns" "ag_phase a' = ag_phase a1"
        "\<forall>i. (\<forall>n \<in> set (drop (ag_pos a1) (reg_log (server_reg s'))). \<not> about i n) \<longrightarrow> (i \<in> view' \<longleftrightarrow> i \<in> view1)"
        "\<forall>i. (\<forall>n \<in> set ns. \<not> about i n) \<longrightarrow> (i \<in> reg_ids (server_reg s') \<longleftrightarrow> i \<in> reg_ids (server_reg s1))"
        "NotiShutDown Done \<notin> set (drop (ag_pos a1) (reg_log (server_reg s'))) \<longrightarrow> ag_done a' = ag_done a1"
      using Cons.IH [OF 1(2)] by blast
    have "drop (ag_pos a) (reg_log (server_reg s')) = noti # drop pos (reg_log (server_reg s'))"
      using d ns(1) unfolding same by (metis Cons_nth_drop_Suc Suc_eq_plus1 length_append nth_append trans_less_add1)
    with ns m(2) notification_quiet [OF n(3)] show ?thesis by (intro exI [of _ ns]) (auto simp: n(2) same)
  qed
qed (auto intro: exI [of _ "[]"])

text \<open>
  C37 What happens between the registration and the subscription is lost.  The server is told the processes at
  the registration; then any operations come before the agent subscribes; after that, any operations and
  handled notifications.  About each process that no later notification is about, the server still has the view
  from the registration, although the process is registered, or not, as it was at the subscription: it does
  not hear of one started in the gap, and takes one deleted in the gap for alive.  And when the final shutdown came
  in the gap, the agent is online and not done until another one is announced, although the registry is shut
  down.
\<close>

theorem registration_gap:
  assumes "reg_ok (server_reg s)" "agent_connected cfg (run_ops ops (server_reg s)) a = (a1, r1)"
    and "view_run H evs (registered_view (register_message env_vars cn (server_reg s)), a1, put_reg r1 s) = Some (view, a2, s2)"
    and "later = drop (length (reg_log r1)) (reg_log (server_reg s2))"
  shows "(\<forall>i. (\<forall>n \<in> set later. \<not> about i n) \<longrightarrow>
      (i \<in> view \<longleftrightarrow> i \<in> reg_ids (server_reg s)) \<and>
      (i \<in> reg_ids (server_reg s2) \<longleftrightarrow> i \<in> reg_ids (run_ops ops (server_reg s)))) \<and>
    (get_shutdown (run_ops ops (server_reg s)) = Done \<longrightarrow> \<not> ag_done a \<longrightarrow> NotiShutDown Done \<notin> set later \<longrightarrow>
      get_shutdown r1 = Done \<and> ag_phase a2 = Online \<and> \<not> ag_done a2)"
proof -
  let ?r = "run_ops ops (server_reg s)"
  have ok: "reg_ok ?r" using assms(1) unfolding run_ops_def by (induction ops rule: rev_induct) (simp_all add: apply_op_ok)
  have c: "a1 = a\<lparr>ag_phase := Online, ag_interval := cf_interval_start cfg, ag_count := 0, ag_pos := length (reg_log ?r)\<rparr>"
      "r1 = ?r\<lparr>reg_receivers := reg_receivers ?r + 1\<rparr>"
    using assms(2) by (auto simp: agent_connected_def subscribe_def)
  then have r1: "reg_ok (server_reg (put_reg r1 s))" "0 < reg_receivers (server_reg (put_reg r1 s))"
      "ag_pos a1 \<le> length (reg_log (server_reg (put_reg r1 s)))"
    using ok by (simp_all add: reg_ok_def)
  have ids: "reg_ids r1 = reg_ids ?r" by (simp add: c(2) reg_ids_def get_proc_ids_def)
  have "registered_view (register_message env_vars cn (server_reg s)) = reg_ids (server_reg s)"
    by (simp add: register_message_def reg_ids_def)
  with view_run_quiet [OF assms(3) r1] ids show ?thesis
    by (auto simp: assms(4) c get_shutdown_def)
qed

section \<open>Backoff\<close>

text \<open>The agent after a number of failed attempts in a row, and its pauses after each.\<close>

fun after_failures :: "connect_config \<Rightarrow> error \<Rightarrow> nat \<Rightarrow> duration option list \<times> agent" where
  "after_failures cfg err 0 = ([], agent_new cfg)"
| "after_failures cfg err (Suc n) =
     (case after_failures cfg err n of (pauses, a) \<Rightarrow>
        (case agent_failed cfg err a of (pause, a') \<Rightarrow> (pauses @ [pause], a')))"

lemma double_duration:
  assumes "d \<le> 60 * SECOND"
  shows "mul_f64 d (Lit 2 0) = (Ok (2 * d) :: (duration, 'e) outcome)"
proof -
  have "(of_nat d * 2 :: rat) = of_nat (2 * d)" by simp
  moreover have "2 * d < 2 ^ 64 * SECOND" using assms by (simp add: SECOND_def)
  then have "(of_nat (2 * d) :: rat) < of_nat (2 ^ 64 * SECOND)" by (simp only: of_nat_less_iff)
  moreover have "nat (round (of_nat (2 * d) :: rat)) = 2 * d" by (metis nat_int of_int_of_nat_eq round_of_int)
  ultimately show ?thesis by (simp add: mul_f64_def duration_of_def mult.commute [of "of_nat d" 2])
qed

text \<open>
  C32 Backoff with the default intervals: the pause after the first failure in a row is one second, each later
  one twice the one before but never more than a minute; at the maximum count the agent does not pause but gives
  up with the last error.
\<close>

theorem backoff_default:
  assumes "cfg = connect_config_new\<lparr>cf_count_max := c\<rparr>" "n \<le> c" "0 < n"
  shows "case after_failures cfg err n of (pauses, a) \<Rightarrow>
    if n < c
    then ag_phase a = Looping \<and> pauses = map (\<lambda>k. Some (min (60 * SECOND) (2 ^ k * SECOND))) [0..<n]
    else ag_phase a = Finished (Err err) \<and> pauses = map (\<lambda>k. Some (min (60 * SECOND) (2 ^ k * SECOND))) [0..<n - 1] @ [None]"
proof -
  let ?pauses = "\<lambda>n. map (\<lambda>k. Some (min (60 * SECOND) (2 ^ k * SECOND))) [0..<n]"
  have max: "cf_count_max cfg = c" by (simp add: assms(1))
  have go: "after_failures cfg err m = (?pauses m, \<lparr>ag_phase = Looping, ag_interval = min (60 * SECOND) (2 ^ m * SECOND),
      ag_count = m, ag_done = False, ag_pos = 0\<rparr>)" if "m < c" for m
    using that
  proof (induction m)
    case 0
    then show ?case by (simp add: assms(1) agent_new_def connect_config_new_def SECOND_def)
  next
    case (Suc m)
    let ?d = "min (60 * SECOND) (2 ^ m * SECOND)"
    have "next_interval cfg ?d = Ok (min (60 * SECOND) (2 * ?d))"
      using double_duration [of ?d, where 'e = error] by (auto simp: next_interval_def assms(1) connect_config_new_def)
    moreover have "min (60 * SECOND) (2 * ?d) = min (60 * SECOND) (2 ^ Suc m * SECOND)" by (simp add: min_def)
    ultimately show ?case using Suc max by (simp add: agent_failed_def)
  qed
  show ?thesis
  proof (cases "n < c")
    case False
    with assms(2,3) obtain m where m: "n = Suc m" "m < c" "c = Suc m" by (cases n) auto
    with go [OF m(2)] max show ?thesis by (simp add: agent_failed_def)
  qed (simp add: go)
qed

section \<open>Registration\<close>

text \<open>
  The agent is connected exactly when the TLS connector, the connection and the sending of the
  registration succeed in time and the first message it receives is \<open>Registered\<close>; any other first
  message is an error that names it.
\<close>

theorem connect_registered:
  assumes "at_tls ev = Ok ()" "\<not> at_timeout ev" "at_connect ev = Ok ()" "at_send ev = Ok ()"
    and "encode_outgoing C (register_message env_vars cn r) = Ok bytes"
  shows "connect C env_vars cn r ev =
    (case at_next ev of
       Some (Ok (WsBinary data)) \<Rightarrow> (case decode_incoming C data of
           Ok msg \<Rightarrow> if msg = Registered then Ok () else Err (ErrProto (UnexpectedMessage msg))
         | Err e \<Rightarrow> Err (RMPDecode e)
         | Panic \<Rightarrow> Panic)
     | _ \<Rightarrow> and_then (ws_receive C (at_next ev)) (\<lambda>_. Ok ())) \<and>
    (connect C env_vars cn r ev = Ok () \<longleftrightarrow>
       (\<exists>data. at_next ev = Some (Ok (WsBinary data)) \<and> decode_incoming C data = Ok Registered))"
proof -
  have c: "connect C env_vars cn r ev = and_then (ws_receive C (at_next ev)) (\<lambda>msg.
      if msg = Registered then Ok () else Err (ErrProto (UnexpectedMessage msg)))"
    using assms by (simp add: connect_def serialize_def)
  show ?thesis
    unfolding c by (cases "(C, at_next ev)" rule: ws_receive.cases)
      (auto simp: deserialize_def split: outcome.split)
qed

section \<open>The properties at a concrete state\<close>

definition sample_subscribed :: "unit start_state" where
  "sample_subscribed = put_reg (snd (subscribe (server_reg sample_server))) sample_server"

definition sample_agent :: agent where
  "sample_agent = fst (agent_connected connect_config_new (server_reg sample_server) (agent_new connect_config_new))"

lemma sample_in_step: "in_step ({''a''}, sample_agent, sample_subscribed)"
  using sample_server_ok sample_server_simps(3)
  by (simp add: sample_agent_def agent_connected_def sample_subscribed_def subscribe_def reg_ok_def reg_ids_def get_proc_ids_def)

theorem server_view_follows_witness:
  "\<exists>view a' s'. view_run (plain_host reaping_kernel) [RegOp OpForget, HandleNotification] ({''a''}, sample_agent, sample_subscribed) =
     Some (view, a', s') \<and> view = {}"
proof -
  let ?evs = "[RegOp OpForget, HandleNotification]"
  have procs: "reg_procs (server_reg sample_server) = [(''a'', 0)]" "reg_shutdown (server_reg sample_server) = Active"
      "reg_log (server_reg sample_server) = []" "reg_receivers (server_reg sample_server) = 0"
    by (simp_all add: server_reg_def sample_server_def spawn_def sys_init_def procs_new_def procs_insert_def notify_def)
  have "\<exists>view a' s'. view_run (plain_host reaping_kernel) ?evs ({''a''}, sample_agent, sample_subscribed) = Some (view, a', s') \<and>
      recv (ag_pos a') (server_reg s') = None \<and> reg_ids (server_reg s') = {}"
    by (simp add: sample_agent_def agent_connected_def sample_subscribed_def subscribe_def on_notification_def forget_all_def
        procs recv_def get_proc_ids_def bt_keys_def notify_def check_idling_def reg_ids_def channel_capacity_def)
  then obtain view a' s' where r: "view_run (plain_host reaping_kernel) ?evs ({''a''}, sample_agent, sample_subscribed) = Some (view, a', s')"
      "recv (ag_pos a') (server_reg s') = None" "reg_ids (server_reg s') = {}" by blast
  from server_view_follows [OF sample_in_step r(1)] r show ?thesis by blast
qed

theorem backoff_default_witness:
  "fst (after_failures connect_config_new RegisterTimeout 3) = [Some SECOND, Some (2 * SECOND), Some (4 * SECOND)]"
proof -
  have "connect_config_new = connect_config_new\<lparr>cf_count_max := 2 ^ 64 - 1\<rparr>" by (simp add: connect_config_new_def)
  from backoff_default [OF this, of 3 RegisterTimeout] show ?thesis
    by (simp add: SECOND_def numeral_3_eq_3 split: prod.splits)
qed

definition sample_codec :: codec where
  "sample_codec = \<lparr>decode_incoming = (\<lambda>data. if data = [1] then Ok Registered else Ok ProcidListRequest),
     encode_outgoing = (\<lambda>_. Ok [])\<rparr>"

definition sample_attempt :: "byte list \<Rightarrow> attempt_events" where
  "sample_attempt data = \<lparr>at_tls = Ok (), at_timeout = False, at_connect = Ok (), at_send = Ok (), at_next = Some (Ok (WsBinary data))\<rparr>"

definition sample_connection :: connection where
  "sample_connection = connection_new ''wss://host:59789'' None None ''conn'' None
     \<lparr>pi_pid = 1, pi_ppid = 0, pi_uid = 0, pi_euid = 0, pi_username = None, pi_gid = 0, pi_egid = 0,
      pi_groupname = None, pi_hostname = ''host''\<rparr>"

theorem connect_registered_witness:
  "connect sample_codec [] sample_connection procs_new (sample_attempt [1]) = Ok () \<and>
   connect sample_codec [] sample_connection procs_new (sample_attempt [2]) = Err (ErrProto (UnexpectedMessage ProcidListRequest))"
  using connect_registered [of "sample_attempt [1]" sample_codec "[]" sample_connection procs_new "[]"]
    connect_registered [of "sample_attempt [2]" sample_codec "[]" sample_connection procs_new "[]"]
  by (simp add: sample_attempt_def sample_codec_def)

text \<open>Between the registration and the subscription the process is deleted, another one started, and all shut down.\<close>

theorem registration_gap_witness:
  "\<exists>view a' s'. (case agent_connected connect_config_new (run_ops [OpForget, OpStart ''b'' sample_proc, OpShutdown Done]
        (server_reg sample_server)) (agent_new connect_config_new) of (a1, r1) \<Rightarrow>
      view_run (plain_host reaping_kernel) [RegOp OpSubscribe]
        (registered_view (register_message [] sample_connection (server_reg sample_server)), a1, put_reg r1 sample_server) =
      Some (view, a', s')) \<and> ''a'' \<in> view \<and> ''b'' \<notin> view \<and> ''b'' \<in> reg_ids (server_reg s') \<and> ag_phase a' = Online"
proof -
  let ?ops = "[OpForget, OpStart ''b'' sample_proc, OpShutdown Done]" let ?a = "agent_new connect_config_new"
  obtain a1 r1 where c: "agent_connected connect_config_new (run_ops ?ops (server_reg sample_server)) ?a = (a1, r1)" by (rule prod.exhaust)
  then have r1: "r1 = (run_ops ?ops (server_reg sample_server))\<lparr>reg_receivers := reg_receivers (run_ops ?ops (server_reg sample_server)) + 1\<rparr>"
    by (auto simp: agent_connected_def subscribe_def)
  let ?view = "registered_view (register_message [] sample_connection (server_reg sample_server))"
  let ?s = "put_reg (apply_op (server_reg (put_reg r1 sample_server)) OpSubscribe) (put_reg r1 sample_server)"
  have run: "view_run (plain_host reaping_kernel) [RegOp OpSubscribe] (?view, a1, put_reg r1 sample_server) = Some (?view, a1, ?s)"
    by simp
  have later: "[] = drop (length (reg_log r1)) (reg_log (server_reg ?s))" by (simp add: subscribe_def)
  have procs: "reg_procs (server_reg sample_server) = [(''a'', 0)]"
    by (simp add: server_reg_def sample_server_def spawn_def sys_init_def procs_new_def procs_insert_def)
  have ids: "reg_ids (server_reg sample_server) = {''a''}" "reg_ids (run_ops ?ops (server_reg sample_server)) = {''b''}"
    by (simp_all add: reg_ids_def get_proc_ids_def bt_keys_def procs run_ops_def forget_all_def procs_insert_def)
  have shut: "get_shutdown (run_ops ?ops (server_reg sample_server)) = Done" "\<not> ag_done ?a"
    by (simp_all add: run_ops_def get_shutdown_def agent_new_def)
  from registration_gap [OF sample_server_ok c run later] ids shut have "''a'' \<in> ?view" "''b'' \<notin> ?view" "''b'' \<in> reg_ids (server_reg ?s)"
      "ag_phase a1 = Online" by simp_all
  with c run show ?thesis by (intro exI [of _ ?view] exI [of _ a1] exI [of _ ?s]) simp
qed

end
