(* ===== verification/Shutdown.thy ===== *)
theory Shutdown
  imports Tasks
begin

text \<open>
  Signals that reach procstar itself: the handlers of \<open>src/shutdown.rs\<close>, which end the running processes
  and shut down.  A handler is a task, as in \<open>SystemdApi\<close>, on a world whose state is the registry and the kernel.
\<close>

section \<open>The signal handlers\<close>

datatype signal_style = ShutdownOnIdle | TermThenKill | KillAll

definition TERM_TIMEOUT :: nat where "TERM_TIMEOUT = 60000"
definition KILL_TIMEOUT :: nat where "KILL_TIMEOUT = 5000"

text \<open>
  The state of the world: the system of tasks and the kernel.  Time is in milliseconds.
\<close>

record 'k signalled =
  sg_sys :: sys
  sg_k :: 'k

type_synonym ('a, 'k) handler = "(('a, error) outcome, 'k signalled world) SystemdApi.task"

definition on_signalled :: "('k signalled \<Rightarrow> ('a, error) outcome \<times> 'k signalled) \<Rightarrow> ('a, 'k) handler" where
  "on_signalled f dl w = (case f (w_bus w) of (r, b) \<Rightarrow> (Some r, w\<lparr>w_bus := b\<rparr>))"

text \<open>A signal to all, whose error is ignored.\<close>

definition signal_everyone :: "('k, 'z) kernel_scheme \<Rightarrow> signum \<Rightarrow> (unit, 'k) handler" where
  "signal_everyone K signum = on_signalled (\<lambda>b.
     case send_signal_all K signum (s_reg (sg_sys b)) (sg_k b) of
       (Panic, k) \<Rightarrow> (Panic, b\<lparr>sg_k := k\<rparr>)
     | (_, k) \<Rightarrow> (Ok (), b\<lparr>sg_k := k\<rparr>))"

definition shut_down :: "shutdown_state \<Rightarrow> (unit, 'k) handler" where
  "shut_down st = on_signalled (\<lambda>b. (Ok (), b\<lparr>sg_sys := set_reg (set_shutdown st (s_reg (sg_sys b))) (sg_sys b)\<rparr>))"

text \<open>
  The handler from the moment its signal has arrived.  \<open>wait_running\<close> and \<open>wait_idle\<close> are the waits of
  \<open>Tasks\<close>, during which every other task goes on: here they are any tasks.
\<close>

definition run_signal_handler ::
  "('k, 'z) kernel_scheme \<Rightarrow> (unit, 'k) handler \<Rightarrow> (unit, 'k) handler \<Rightarrow> signal_style \<Rightarrow> (unit, 'k) handler" where
  "run_signal_handler K wait_running wait_idle style =
     (case style of
        ShutdownOnIdle \<Rightarrow> shut_down Idling
      | TermThenKill \<Rightarrow>
          try_await (signal_everyone K SIGTERM) (\<lambda>_.
          and_await (with_timeout TERM_TIMEOUT wait_running) (\<lambda>r.
          try_await (case r of None \<Rightarrow> signal_everyone K SIGKILL | Some q \<Rightarrow> finish q) (\<lambda>_.
          and_await (with_timeout KILL_TIMEOUT wait_idle) (\<lambda>r.
          try_await (case r of None \<Rightarrow> finish (Ok ()) | Some q \<Rightarrow> finish q) (\<lambda>_.
            shut_down Done)))))
      | KillAll \<Rightarrow>
          try_await (signal_everyone K SIGKILL) (\<lambda>_.
          and_await (with_timeout KILL_TIMEOUT wait_idle) (\<lambda>r.
          try_await (case r of None \<Rightarrow> finish (Ok ()) | Some q \<Rightarrow> finish q) (\<lambda>_.
            shut_down Done))))"

text \<open>The installation: a signal without a name cannot be handled.\<close>

definition install_signal_handler :: "(signum \<Rightarrow> bool) \<Rightarrow> signum \<Rightarrow> (string, 'e) outcome" where
  "install_signal_handler stream_ok signum =
     and_then (unwrap_opt (get_abbrev signum)) (\<lambda>name. if stream_ok signum then Ok name else Panic)"

section \<open>Who is signalled\<close>

definition signal_targets :: "registry \<Rightarrow> pid_t list" where
  "signal_targets r = map p_pid (filter (\<lambda>p. get_state p = Running \<and> \<not> p_reaped p) (map (proc_at r \<circ> snd) (reg_procs r)))"

text \<open>\<open>kill\<close> returns 0 or -1, as documented.\<close>

definition kill_posix :: "('k, 'z) kernel_scheme \<Rightarrow> bool" where
  "kill_posix K \<longleftrightarrow> (\<forall>pid n k. fst (libc_kill K pid n k) \<in> {0, -1})"

lemma kill_no_panic:
  assumes "kill_posix K"
  shows "fst (kill K pid n k) \<noteq> Panic"
proof -
  have "fst (libc_kill K pid n k) \<in> {0, -1}" using assms by (simp add: kill_posix_def)
  then show ?thesis by (cases "libc_kill K pid n k") (auto simp: kill_def)
qed

lemma signal_all_fold:
  assumes "kill_posix K"
  shows "snd (signal_all K n r es res k) = fold (\<lambda>pid k. snd (kill K pid n k))
      (map p_pid (filter (\<lambda>p. get_state p = Running \<and> \<not> p_reaped p) (map (proc_at r \<circ> snd) es))) k \<and>
    (res \<noteq> Panic \<longrightarrow> fst (signal_all K n r es res k) \<noteq> Panic)"
proof (induction es arbitrary: res k)
  case (Cons e es)
  obtain i a where e: "e = (i, a)" by (cases e)
  let ?p = "proc_at r a"
  show ?case
  proof (cases "get_state ?p = Running")
    case False
    with Cons e show ?thesis by (simp add: Let_def)
  next
    case True
    show ?thesis
    proof (cases "p_reaped ?p")
      case True
      with \<open>get_state ?p = Running\<close> Cons e show ?thesis by (simp add: Let_def send_signal_def)
    next
      case False
      obtain q k' where q: "kill K (p_pid ?p) n k = (q, k')" by (cases "kill K (p_pid ?p) n k")
      have "q \<noteq> Panic" using kill_no_panic [OF assms, of "p_pid ?p" n k] q by simp
      with q \<open>get_state ?p = Running\<close> False Cons e show ?thesis
        by (cases q) (simp_all add: Let_def send_signal_def)
    qed
  qed
qed simp

text \<open>
  A signal to all goes to exactly the processes that are running and not reaped, once each and in the
  order of their IDs, whatever error some of them give.
\<close>

theorem signal_all_targets:
  assumes "kill_posix K"
  shows "snd (send_signal_all K n r k) = fold (\<lambda>pid k. snd (kill K pid n k)) (signal_targets r) k \<and>
    fst (send_signal_all K n r k) \<noteq> Panic"
  using signal_all_fold [OF assms, of n r "reg_procs r" "Ok ()" k]
  by (simp add: send_signal_all_def signal_targets_def)

section \<open>A shutdown ends\<close>

text \<open>A wait that only lets time pass, and returns normally or not at all.\<close>

definition waits :: "(unit, 'k) handler \<Rightarrow> bool" where
  "waits m \<longleftrightarrow> obeys timely m \<and> (\<forall>dl w. fst (m dl w) \<in> {None, Some (Ok ())})"

lemma timely_on_signalled: "obeys timely (on_signalled f)"
  by (rule obeysI) (auto simp: on_signalled_def timely_def split: prod.splits)

lemma everyone_ok:
  assumes "kill_posix K"
  shows "\<exists>b. signal_everyone K n dl w = (Some (Ok ()), w\<lparr>w_bus := b\<rparr>)"
proof -
  let ?b = "w_bus w"
  obtain r k where s: "send_signal_all K n (s_reg (sg_sys ?b)) (sg_k ?b) = (r, k)"
    by (cases "send_signal_all K n (s_reg (sg_sys ?b)) (sg_k ?b)")
  have "r \<noteq> Panic"
    using signal_all_fold [OF assms, of n "s_reg (sg_sys ?b)" "reg_procs (s_reg (sg_sys ?b))" "Ok ()" "sg_k ?b"] s
    by (simp add: send_signal_all_def)
  with s show ?thesis by (cases r) (auto simp: signal_everyone_def on_signalled_def)
qed

lemma timeout_wait:
  assumes "waits m"
  obtains r w' where "with_timeout d m \<infinity> w = (Some r, w')" "r \<in> {None, Some (Ok ())}" "w_now w \<le> w_now w'" "w_now w' \<le> w_now w + d"
proof -
  obtain q w' where m: "m (enat (w_now w + d)) w = (q, w')" by (cases "m (enat (w_now w + d)) w")
  have "q \<in> {None, Some (Ok ())}" using assms m unfolding waits_def by (metis fst_conv)
  moreover have "timely (enat (w_now w + d)) w w'"
    using assms m by (auto simp: waits_def intro: obeysD)
  ultimately show thesis
    using m by (intro that [of q w']) (auto simp: with_timeout_def timely_def)
qed

lemma kill_then_done:
  assumes "waits wait_idle"
  shows "\<exists>w'. and_await (with_timeout KILL_TIMEOUT wait_idle) (\<lambda>r.
      try_await (case r of None \<Rightarrow> finish (Ok ()) | Some q \<Rightarrow> finish q) (\<lambda>_. shut_down Done)) \<infinity> w = (Some (Ok ()), w') \<and>
    reg_shutdown (s_reg (sg_sys (w_bus w'))) = Done \<and> w_now w' \<le> w_now w + KILL_TIMEOUT"
proof -
  obtain r w1 where r: "with_timeout KILL_TIMEOUT wait_idle \<infinity> w = (Some r, w1)" "r \<in> {None, Some (Ok ())}"
      "w_now w1 \<le> w_now w + KILL_TIMEOUT"
    by (rule timeout_wait [OF assms]) blast
  then show ?thesis
    by (auto simp: and_await_def try_await_def finish_def shut_down_def on_signalled_def)
qed

text \<open>
  A shutdown by signal always ends: with \<open>kill\<close> as documented, and whatever the processes do while the
  handler waits, \<open>SIGTERM\<close>, \<open>SIGINT\<close> and \<open>SIGQUIT\<close> bring the registry to its final state within 65
  seconds, or 5 for the handler that kills at once.
\<close>

theorem shutdown_bounded:
  assumes "kill_posix K" "waits wait_running" "waits wait_idle" "style \<noteq> ShutdownOnIdle"
  shows "\<exists>w'. run_signal_handler K wait_running wait_idle style \<infinity> w = (Some (Ok ()), w') \<and>
    reg_shutdown (s_reg (sg_sys (w_bus w'))) = Done \<and>
    w_now w' \<le> w_now w + (if style = TermThenKill then TERM_TIMEOUT + KILL_TIMEOUT else KILL_TIMEOUT)"
proof (cases style)
  case TermThenKill
  obtain b where b: "signal_everyone K SIGTERM \<infinity> w = (Some (Ok ()), w\<lparr>w_bus := b\<rparr>)"
    using everyone_ok [OF assms(1)] by blast
  obtain r w1 where r: "with_timeout TERM_TIMEOUT wait_running \<infinity> (w\<lparr>w_bus := b\<rparr>) = (Some r, w1)"
      "r \<in> {None, Some (Ok ())}" "w_now w1 \<le> w_now (w\<lparr>w_bus := b\<rparr>) + TERM_TIMEOUT"
    by (rule timeout_wait [OF assms(2)]) blast
  obtain w2 where k: "(case r of None \<Rightarrow> signal_everyone K SIGKILL | Some q \<Rightarrow> finish q) \<infinity> w1 = (Some (Ok ()), w2)"
      "w_now w2 = w_now w1"
    using everyone_ok [OF assms(1), of SIGKILL \<infinity> w1] r(2) by (cases r) (auto simp: finish_def)
  obtain w3 where d: "and_await (with_timeout KILL_TIMEOUT wait_idle) (\<lambda>r.
      try_await (case r of None \<Rightarrow> finish (Ok ()) | Some q \<Rightarrow> finish q) (\<lambda>_. shut_down Done)) \<infinity> w2 = (Some (Ok ()), w3)"
      "reg_shutdown (s_reg (sg_sys (w_bus w3))) = Done" "w_now w3 \<le> w_now w2 + KILL_TIMEOUT"
    using kill_then_done [OF assms(3)] by blast
  have "run_signal_handler K wait_running wait_idle style \<infinity> w = (Some (Ok ()), w3)"
    using b r(1) k(1) d(1) TermThenKill by (simp add: run_signal_handler_def try_await_def and_await_def)
  with d k r TermThenKill show ?thesis by auto
next
  case KillAll
  obtain b where b: "signal_everyone K SIGKILL \<infinity> w = (Some (Ok ()), w\<lparr>w_bus := b\<rparr>)"
    using everyone_ok [OF assms(1)] by blast
  obtain w3 where d: "and_await (with_timeout KILL_TIMEOUT wait_idle) (\<lambda>r.
      try_await (case r of None \<Rightarrow> finish (Ok ()) | Some q \<Rightarrow> finish q) (\<lambda>_. shut_down Done)) \<infinity> (w\<lparr>w_bus := b\<rparr>) = (Some (Ok ()), w3)"
      "reg_shutdown (s_reg (sg_sys (w_bus w3))) = Done" "w_now w3 \<le> w_now (w\<lparr>w_bus := b\<rparr>) + KILL_TIMEOUT"
    using kill_then_done [OF assms(3)] by blast
  have "run_signal_handler K wait_running wait_idle style \<infinity> w = (Some (Ok ()), w3)"
    using b d(1) KillAll by (simp add: run_signal_handler_def try_await_def and_await_def)
  with d KillAll show ?thesis by auto
qed (use assms(4) in simp)

section \<open>The properties at a concrete state\<close>

text \<open>A kernel whose state is the signals sent, newest first.\<close>

definition logging_kernel :: "(pid_t \<times> signum) list kernel" where
  "logging_kernel = null_kernel\<lparr>libc_kill := (\<lambda>pid n k. (0, 0, (pid, n) # k))\<rparr>"

lemma logging_posix: "kill_posix logging_kernel"
  by (simp add: kill_posix_def logging_kernel_def)

theorem signal_all_targets_witness:
  "snd (send_signal_all logging_kernel 15 (s_reg one_started) []) = [(100, 15)]"
  using signal_all_targets [OF logging_posix, of 15 "s_reg one_started" "[]"]
  by (simp add: signal_targets_def sample_proc_def proc_new_def get_state_def kill_def logging_kernel_def)

definition never_idle :: "(unit, 'k) handler" where
  "never_idle dl w = (None, expire dl w)"

lemma never_idle_waits: "waits never_idle"
proof -
  have "timely dl w (expire dl w)" if "enat (w_now w) \<le> dl" for dl and w :: "'a signalled world"
    using timely_lapse [OF that, of "w_bus w"] by simp
  then show ?thesis by (auto simp: waits_def never_idle_def intro!: obeysI)
qed

theorem shutdown_bounded_witness:
  "\<exists>w'. run_signal_handler logging_kernel never_idle never_idle TermThenKill \<infinity>
      \<lparr>w_now = 100, w_bus = \<lparr>sg_sys = one_started, sg_k = []\<rparr>\<rparr> = (Some (Ok ()), w') \<and> w_now w' \<le> 65100"
  using shutdown_bounded [OF logging_posix never_idle_waits never_idle_waits, of TermThenKill
      "\<lparr>w_now = 100, w_bus = \<lparr>sg_sys = one_started, sg_k = []\<rparr>\<rparr>"]
  by (auto simp: TERM_TIMEOUT_def KILL_TIMEOUT_def)

end
