(* ===== verification/Ident.thy ===== *)
theory Ident
  imports Procinfo Utf8
begin

text \<open>
  Who the agent is: \<open>ProcessInfo::new_self\<close> of \<open>src/procinfo.rs\<close> with the user, group and host names of
  \<open>src/sys.rs\<close>.  The C library is a record of calls; an entry of the user or group table is the bytes of
  its name, and a null pointer is \<open>None\<close>.
\<close>

record self_calls =
  sc_pid :: pid_t
  sc_ppid :: pid_t
  sc_uid :: nat
  sc_euid :: nat
  sc_gid :: nat
  sc_egid :: nat
  sc_getpwuid :: "nat \<Rightarrow> byte list option"
  sc_getgrgid :: "nat \<Rightarrow> byte list option"
  sc_gethostname :: "nat \<Rightarrow> int \<times> byte list"

text \<open>\<open>String::from_utf8\<close> and \<open>CStr::to_str\<close>, unwrapped.\<close>

definition to_str :: "byte list \<Rightarrow> (string, 'e) outcome" where
  "to_str bs = (if valid_utf8 bs then Ok (string_of_bytes bs) else Panic)"

definition entry_name :: "byte list option \<Rightarrow> (string option, 'e) outcome" where
  "entry_name entry = (case entry of None \<Rightarrow> Ok None | Some bs \<Rightarrow> map_ok Some (to_str bs))"

definition get_username :: "self_calls \<Rightarrow> (string option, 'e) outcome" where
  "get_username C = entry_name (sc_getpwuid C (sc_euid C))"

definition get_username_safe :: "self_calls \<Rightarrow> (string, 'e) outcome" where
  "get_username_safe C =
     map_ok (\<lambda>n. case n of Some name \<Rightarrow> name | None \<Rightarrow> show_nat (sc_euid C)) (get_username C)"

definition get_groupname :: "self_calls \<Rightarrow> (string option, 'e) outcome" where
  "get_groupname C = entry_name (sc_getgrgid C (sc_egid C))"

definition HOST_NAME_MAX :: nat where "HOST_NAME_MAX = 64"

fun position_nul :: "byte list \<Rightarrow> nat option" where
  "position_nul [] = None"
| "position_nul (b # bs) = (if b = 0 then Some 0 else map_option Suc (position_nul bs))"

text \<open>The buffer has no room for the terminator of a name of the maximal length.\<close>

definition get_hostname :: "self_calls \<Rightarrow> (string, 'e) outcome" where
  "get_hostname C =
     (case sc_gethostname C HOST_NAME_MAX of (res, buffer) \<Rightarrow>
        if res = 0 then and_then (unwrap_opt (position_nul buffer)) (\<lambda>len. to_str (take len buffer))
        else Panic)"

definition process_info_new_self :: "self_calls \<Rightarrow> (process_info, 'e) outcome" where
  "process_info_new_self C =
     and_then (get_username C) (\<lambda>username.
     and_then (get_groupname C) (\<lambda>groupname.
     and_then (get_hostname C) (\<lambda>hostname.
       Ok \<lparr>pi_pid = sc_pid C, pi_ppid = sc_ppid C, pi_uid = sc_uid C, pi_euid = sc_euid C, pi_username = username,
           pi_gid = sc_gid C, pi_egid = sc_egid C, pi_groupname = groupname, pi_hostname = hostname\<rparr>)))"

section \<open>The host name fits\<close>

text \<open>
  The C library's \<open>gethostname\<close>, as documented: a name that fits with its terminator is copied into the
  zeroed buffer; one that does not is an error.
\<close>

definition gives_hostname :: "byte list \<Rightarrow> (nat \<Rightarrow> int \<times> byte list) \<Rightarrow> bool" where
  "gives_hostname name f \<longleftrightarrow>
     (\<forall>n. if length name < n then f n = (0, name @ replicate (n - length name) 0) else fst (f n) = -1)"

lemma position_nul_terminated: "0 \<notin> set name \<Longrightarrow> 0 < m \<Longrightarrow> position_nul (name @ replicate m 0) = Some (length name)"
proof (induction name)
  case Nil
  then show ?case by (cases m) simp_all
qed simp

lemma to_str_Ok: "valid_utf8 bs \<Longrightarrow> to_str bs = Ok (string_of_bytes bs)"
  by (simp add: to_str_def)

text \<open>
  The agent can say who it is unless a name is not UTF-8 or the host name is too long: with host
  names of less than 64 bytes all fields are the system's, users and groups without an entry have no
  name; but a host name of 64 bytes, which Linux allows, panics.
\<close>

theorem new_self_reports:
  assumes "gives_hostname name (sc_gethostname C)" "0 \<notin> set name" "valid_utf8 name"
    and "\<forall>bs. sc_getpwuid C (sc_euid C) = Some bs \<longrightarrow> valid_utf8 bs" "\<forall>bs. sc_getgrgid C (sc_egid C) = Some bs \<longrightarrow> valid_utf8 bs"
  shows "(process_info_new_self C :: (process_info, 'e) outcome) =
    (if length name < 64
     then Ok \<lparr>pi_pid = sc_pid C, pi_ppid = sc_ppid C, pi_uid = sc_uid C, pi_euid = sc_euid C,
       pi_username = map_option string_of_bytes (sc_getpwuid C (sc_euid C)), pi_gid = sc_gid C, pi_egid = sc_egid C,
       pi_groupname = map_option string_of_bytes (sc_getgrgid C (sc_egid C)), pi_hostname = string_of_bytes name\<rparr>
     else Panic)"
proof -
  have names: "get_username C = (Ok (map_option string_of_bytes (sc_getpwuid C (sc_euid C))) :: (string option, 'e) outcome)"
      "get_groupname C = (Ok (map_option string_of_bytes (sc_getgrgid C (sc_egid C))) :: (string option, 'e) outcome)"
    using assms(4,5) by (auto simp: get_username_def get_groupname_def entry_name_def to_str_Ok split: option.split)
  have "get_hostname C = (if length name < 64 then Ok (string_of_bytes name) else Panic :: (string, 'e) outcome)"
  proof (cases "length name < 64")
    case True
    with assms(1) have "sc_gethostname C HOST_NAME_MAX = (0, name @ replicate (64 - length name) 0)"
      by (simp add: gives_hostname_def HOST_NAME_MAX_def)
    with True assms(2,3) show ?thesis by (simp add: get_hostname_def position_nul_terminated to_str_Ok)
  next
    case False
    with assms(1) have "fst (sc_gethostname C HOST_NAME_MAX) = -1" by (simp add: gives_hostname_def HOST_NAME_MAX_def)
    with False show ?thesis by (cases "sc_gethostname C HOST_NAME_MAX") (simp add: get_hostname_def)
  qed
  with names show ?thesis by (simp add: process_info_new_self_def)
qed

definition sample_calls :: "byte list \<Rightarrow> self_calls" where
  "sample_calls name = \<lparr>sc_pid = 7, sc_ppid = 1, sc_uid = 1000, sc_euid = 1000, sc_gid = 100, sc_egid = 100,
     sc_getpwuid = (\<lambda>u. if u = 1000 then Some [117] else None), sc_getgrgid = (\<lambda>_. None),
     sc_gethostname = (\<lambda>n. if length name < n then (0, name @ replicate (n - length name) 0) else (-1, replicate n 0))\<rparr>"

lemma valid_ascii: "\<forall>b \<in> set bs. b < 0x80 \<Longrightarrow> valid_utf8 bs"
  by (induction bs) (simp_all add: valid_utf8.simps [of "_ # _"] utf8_chunk.simps utf8_width_def)

theorem new_self_reports_witness:
  "map_ok pi_hostname (process_info_new_self (sample_calls [104, 97])) = (Ok ''ha'' :: (string, unit) outcome) \<and>
   process_info_new_self (sample_calls (replicate 64 104)) = (Panic :: (process_info, unit) outcome)"
proof -
  have g: "gives_hostname name (sc_gethostname (sample_calls name))" for name
    by (simp add: gives_hostname_def sample_calls_def)
  have s: "sc_getpwuid (sample_calls name) (sc_euid (sample_calls name)) = Some [117]"
      "sc_getgrgid (sample_calls name) (sc_egid (sample_calls name)) = None" for name
    by (simp_all add: sample_calls_def)
  have v: "valid_utf8 [117]" "valid_utf8 [104, 97]" "valid_utf8 (replicate 64 104)" by (simp_all add: valid_ascii)
  have "string_of_bytes [104, 97] = ''ha''" by code_simp
  with new_self_reports [OF g [of "[104, 97]"], where 'e = unit] new_self_reports [OF g [of "replicate 64 104"], where 'e = unit] s v
  show ?thesis by simp
qed

end
