(* ===== verification/App.thy ===== *)
theory App
  imports Agent Http Shutdown
begin

text \<open>
  The program: the command line of \<open>src/argv.rs\<close> after the parser library has read it, and the parts of
  \<open>src/main.rs\<close> that start the given specs and end the program.  What is printed is a list of outputs;
  \<open>exit\<close> ends the process, as in \<open>StartProcs\<close>.
\<close>

section \<open>The command line\<close>

datatype log_level = LTrace | LDebug | LInfo | LWarn | LError

definition parse_log_level :: "string \<Rightarrow> (log_level, unit) outcome" where
  "parse_log_level level =
     (if level = ''trace'' then Ok LTrace
      else if level = ''debug'' then Ok LDebug
      else if level = ''info'' then Ok LInfo
      else if level = ''warn'' then Ok LWarn
      else if level = ''error'' then Ok LError
      else Err ())"

record args =
  arg_log_level :: "string option"
  arg_restrict_exe :: "string option"
  arg_print :: bool
  arg_output :: "string option"
  arg_exit :: bool
  arg_wait :: bool
  arg_wait_timeout :: nat
  arg_serve :: bool
  arg_serve_port :: "16 word"
  arg_agent :: bool
  arg_agent_host :: "string option"
  arg_agent_port :: "32 word"
  arg_conn_id :: "string option"
  arg_group_id :: "string option"
  arg_connect_interval_start :: "f64 option"
  arg_connect_interval_mult :: "f64 option"
  arg_connect_interval_max :: "f64 option"
  arg_connect_count_max :: "nat option"
  arg_agent_read_timeout :: "f64 option"
  arg_input :: "string option"

definition EX_DATAERR :: int where "EX_DATAERR = 65"
definition EX_OSFILE :: int where "EX_OSFILE = 72"

text \<open>The checks after the parser's: the messages for the user, and the arguments or the exit code.\<close>

definition check_args :: "args \<Rightarrow> string list \<times> (int + args)" where
  "check_args given =
     (let a = (if arg_print given \<or> arg_output given \<noteq> None then given\<lparr>arg_exit := True\<rparr> else given);
          both = (if arg_exit a \<and> arg_wait a then [''Specify only one of --exit or --wait.''] else [])
      in if \<not> (arg_exit a \<or> arg_wait a \<or> arg_serve a \<or> arg_agent a)
         then (both @ [''Usage: Specify at least one of --exit, --wait, --serve, or --agent.''], Inl EX_DATAERR)
         else (both, Inr a))"

definition secs_or :: "duration \<Rightarrow> f64 option \<Rightarrow> (duration, 'e) outcome" where
  "secs_or df secs = (case secs of Some x \<Rightarrow> from_secs_f64 x | None \<Rightarrow> Ok df)"

definition get_connect_config :: "args \<Rightarrow> (connect_config, 'e) outcome" where
  "get_connect_config a =
     (let df = connect_config_new in
      and_then (secs_or (cf_interval_start df) (arg_connect_interval_start a)) (\<lambda>start.
      and_then (secs_or (cf_interval_max df) (arg_connect_interval_max a)) (\<lambda>longest.
      and_then (secs_or (cf_read_timeout df) (arg_agent_read_timeout a)) (\<lambda>read_timeout.
        Ok \<lparr>cf_interval_start = start,
            cf_interval_mult = (case arg_connect_interval_mult a of Some m \<Rightarrow> m | None \<Rightarrow> cf_interval_mult df),
            cf_interval_max = longest,
            cf_count_max = (case arg_connect_count_max a of Some n \<Rightarrow> n | None \<Rightarrow> cf_count_max df),
            cf_read_timeout = read_timeout\<rparr>))))"

section \<open>Starting\<close>

text \<open>\<open>load_file\<close> and \<open>load_stdin\<close>: reading, then the JSON library.\<close>

definition load_input ::
  "(string, io_error) outcome \<Rightarrow> (string \<Rightarrow> (input, string) outcome) \<Rightarrow> (input, error) outcome" where
  "load_input text from_json = and_then (map_err ErrIo text) (\<lambda>t. map_err ErrJson (from_json t))"

definition get_input ::
  "args \<Rightarrow> (string, io_error) outcome \<Rightarrow> (string \<Rightarrow> (string, io_error) outcome) \<Rightarrow> (string \<Rightarrow> (input, string) outcome) \<Rightarrow>
     (input, error) outcome" where
  "get_input a stdin_text read_file from_json =
     (case arg_input a of
        None \<Rightarrow> Ok input_new
      | Some p \<Rightarrow> load_input (if p = ''-'' then stdin_text else read_file p) from_json)"

definition start_input ::
  "(nat \<Rightarrow> 'k start_state \<Rightarrow> 'k start_state) \<Rightarrow> 'k host \<Rightarrow> 'k systemd option \<Rightarrow> 'k services \<Rightarrow> nat \<Rightarrow> (input, error) outcome \<Rightarrow> (unit, error, 'k start_state) run" where
  "start_input polls H S V seed inp s =
     (case inp of
        Err _ \<Rightarrow> at_once (end_process (ExitCode 2)) s
      | Panic \<Rightarrow> Some (Panic, s)
      | Ok i \<Rightarrow>
          if specs i = [] then Some (Ok (), s)
          else (case start_procs_polled polls H S V seed (specs i) s of
              Some (Err _, s') \<Rightarrow> at_once (end_process (ExitCode EX_DATAERR)) s'
            | r \<Rightarrow> r))"

section \<open>Ending\<close>

datatype main_output = Printed res | Dumped string res

record output_env =
  out_print :: "res \<Rightarrow> (unit, io_error) outcome"
  out_dump :: "string \<Rightarrow> res \<Rightarrow> (unit, io_error) outcome"

definition collect_all :: "'k host \<Rightarrow> (res, error, 'k start_state) run" where
  "collect_all H s = map_option (\<lambda>(x, r, k). (x, (put_reg r s)\<lparr>ss_k := k\<rparr>)) (collect_results H (server_reg s) (ss_k s))"

definition write_output :: "(unit, io_error) outcome \<Rightarrow> main_output \<Rightarrow> 'k start_state \<Rightarrow> (main_output list, error) outcome \<times> 'k start_state" where
  "write_output result out s =
     (case result of
        Ok _ \<Rightarrow> (Ok [out], s)
      | Err _ \<Rightarrow> end_process (ExitCode EX_OSFILE) s
      | Panic \<Rightarrow> (Panic, s))"

definition shut_registry :: "shutdown_state \<Rightarrow> 'k start_state \<Rightarrow> (unit, error) outcome \<times> 'k start_state" where
  "shut_registry st s = (Ok (), put_reg (set_shutdown st (server_reg s)) s)"

text \<open>\<open>maybe_run_until_exit\<close>, once no process is running or the shutdown is requested.\<close>

definition run_until_exit :: "args \<Rightarrow> 'k host \<Rightarrow> output_env \<Rightarrow> (main_output list, error, 'k start_state) run" where
  "run_until_exit a H W =
     (if \<not> arg_exit a then at_once (ret [])
      else run_then (must (collect_all H)) (\<lambda>result.
        run_then (at_once (if arg_print a then write_output (out_print W result) (Printed result) else ret [])) (\<lambda>o1.
        run_then (at_once (case arg_output a of
            Some path \<Rightarrow> write_output (out_dump W path result) (Dumped path result)
          | None \<Rightarrow> ret [])) (\<lambda>o2.
        run_then (at_once (shut_registry Done)) (\<lambda>_. at_once (ret (o1 @ o2)))))))"

text \<open>\<open>maybe_run_agent\<close> up to the connection: its parameters, or the exit code without a host name.\<close>

definition agent_parameters ::
  "args \<Rightarrow> (string \<times> string) list \<Rightarrow> string \<Rightarrow> string option \<Rightarrow> process_info \<Rightarrow> (int + connection \<times> connect_config, 'e) outcome" where
  "agent_parameters a env_vars uuid restricted proc =
     (case expand_hostname env_vars (arg_agent_host a) of
        None \<Rightarrow> Ok (Inl 2)
      | Some hostname \<Rightarrow>
          and_then (get_connect_config a) (\<lambda>cfg.
            Ok (Inr (connection_new (''wss://'' @ hostname @ '':'' @ show_nat (unat (arg_agent_port a)))
                (arg_conn_id a) (arg_group_id a) uuid restricted proc, cfg))))"

text \<open>The signals main handles, and how.\<close>

definition signal_handlers :: "(signum \<times> signal_style) list" where
  "signal_handlers = [(SIGTERM, TermThenKill), (SIGINT, TermThenKill), (SIGQUIT, KillAll), (SIGUSR1, ShutdownOnIdle)]"

section \<open>What the program reports\<close>

lemma run_then_Ok:
  "run_then m f s = Some (Ok y, s') \<longleftrightarrow> (\<exists>x s1. m s = Some (Ok x, s1) \<and> f x s1 = Some (Ok y, s'))"
  by (auto simp: run_then_def split: option.splits prod.splits outcome.splits)

lemma must_Ok: "must m s = Some (Ok x, s') \<longleftrightarrow> m s = Some (Ok x, s')"
proof -
  have "unwrap r = Ok x \<longleftrightarrow> r = Ok x" for r by (cases r) auto
  then show ?thesis by (auto simp: must_def split: option.splits)
qed

lemma results_of_keys:
  assumes "results_of H r es k = Some (Ok xs, k')"
  shows "map fst xs = map fst es"
  using assms
proof (induction es arbitrary: xs k)
  case (Cons e es)
  obtain i a where e: "e = (i, a)" by (cases e)
  from Cons.prems e obtain x k1 ys where "results_of H r es k1 = Some (Ok ys, k')" "xs = (i, x) # ys"
    by (auto simp: run_then_def split: option.splits prod.splits outcome.splits)
  with Cons.IH e show ?case by auto
qed simp

lemma bt_collect_keys: "set (bt_keys (bt_collect kvs)) = fst ` set kvs"
  by (auto simp: set_eq_iff bt_get_in_keys bt_get_collect map_of_eq_None_iff)

lemma collect_keys:
  assumes "collect_results H r k = Some (Ok res, r', k')"
  shows "set (bt_keys res) = reg_ids r \<and> bt_wf res \<and> r' = forget_all r"
proof -
  from assms obtain xs where xs: "results_of H r (reg_procs r) k = Some (Ok xs, k')" "res = bt_collect xs" "r' = forget_all r"
    by (auto simp: collect_results_def run_then_def Let_def split: option.splits prod.splits outcome.splits)
  have "fst ` set xs = fst ` set (reg_procs r)" using results_of_keys [OF xs(1)] by (metis set_map)
  with xs show ?thesis
    using bt_collect_keys [of xs] by (simp add: reg_ids_def get_proc_ids_def bt_keys_def bt_wf_collect)
qed

lemma run_until_exit_parts:
  assumes "arg_exit a" "run_until_exit a H W s = Some (Ok outs, s')"
  obtains res r k where "collect_results H (server_reg s) (ss_k s) = Some (Ok res, r, k)"
    "outs = (if arg_print a then [Printed res] else []) @ (case arg_output a of Some path \<Rightarrow> [Dumped path res] | None \<Rightarrow> [])"
    "s' = (put_reg (set_shutdown Done r) s)\<lparr>ss_k := k\<rparr>"
proof -
  from assms obtain res s1 o1 s2 o2 s3 where c: "must (collect_all H) s = Some (Ok res :: (res, error) outcome, s1)"
    and o1: "(if arg_print a then write_output (out_print W res) (Printed res) else ret []) s1 = (Ok o1, s2)"
    and o2: "(case arg_output a of Some path \<Rightarrow> write_output (out_dump W path res) (Dumped path res) | None \<Rightarrow> ret []) s2 = (Ok o2, s3)"
    and s': "put_reg (set_shutdown Done (server_reg s3)) s3 = s'" "o1 @ o2 = outs"
    by (simp add: run_until_exit_def run_then_Ok shut_registry_def) (elim exE conjE, rule that)
  from c obtain r k where r: "collect_results H (server_reg s) (ss_k s) = Some (Ok res, r, k)" "s1 = (put_reg r s)\<lparr>ss_k := k\<rparr>"
    by (auto simp: must_Ok collect_all_def)
  moreover have "s2 = s1" "o1 = (if arg_print a then [Printed res] else [])"
    using o1 by (auto simp: write_output_def end_process_def split: outcome.splits if_splits)
  moreover have "s3 = s2" "o2 = (case arg_output a of Some path \<Rightarrow> [Dumped path res] | None \<Rightarrow> [])"
    using o2 by (auto simp: write_output_def end_process_def split: outcome.splits option.splits)
  ultimately show thesis using that s' by (auto simp: server_reg_def put_reg_def set_reg_def)
qed

lemma run_until_exit_Ok:
  assumes "arg_exit a" "run_until_exit a H W s = Some (Ok outs, s')"
  shows "\<exists>res. set (bt_keys res) = reg_ids (server_reg s) \<and>
    outs = (if arg_print a then [Printed res] else []) @ (case arg_output a of Some path \<Rightarrow> [Dumped path res] | None \<Rightarrow> []) \<and>
    server_reg s' = set_shutdown Done (forget_all (server_reg s))"
proof (rule run_until_exit_parts [OF assms])
  fix res r k assume "collect_results H (server_reg s) (ss_k s) = Some (Ok res, r, k)"
    and "outs = (if arg_print a then [Printed res] else []) @ (case arg_output a of Some path \<Rightarrow> [Dumped path res] | None \<Rightarrow> [])"
    and "s' = (put_reg (set_shutdown Done r) s)\<lparr>ss_k := k\<rparr>"
  moreover from collect_keys [OF this(1)] have "set (bt_keys res) = reg_ids (server_reg s)" "r = forget_all (server_reg s)" by auto
  ultimately show ?thesis by (auto simp: server_reg_def put_reg_def)
qed

text \<open>
  With \<open>--exit\<close> nothing is lost: if the program ends this part normally, it has written, to the
  standard output and the file it was asked to write to, one and the same result, with an entry for
  exactly the processes that were registered; the registry is then empty and shut down.
\<close>

theorem exit_reports_all:
  assumes "arg_exit a" "run_until_exit a H W s = Some (Ok outs, s')"
  shows "\<exists>res. set (bt_keys res) = reg_ids (server_reg s) \<and>
    outs = (if arg_print a then [Printed res] else []) @ (case arg_output a of Some path \<Rightarrow> [Dumped path res] | None \<Rightarrow> []) \<and>
    reg_procs (server_reg s') = [] \<and> get_shutdown (server_reg s') = Done"
  using run_until_exit_Ok [OF assms] by (auto simp: get_shutdown_def forget_all_def)

text \<open>
  The command line: the program goes on exactly when it is given something to do, one of the four modes
  or an output, which implies \<open>--exit\<close>; otherwise it stops with the usage message and the data error
  code.  It does not refuse \<open>--exit\<close> together with \<open>--wait\<close>, but only prints that it should.
\<close>

theorem check_args_cases:
  "case check_args a of
     (msgs, Inr a') \<Rightarrow> (arg_exit a' \<or> arg_wait a' \<or> arg_serve a' \<or> arg_agent a') \<and>
       a' = a\<lparr>arg_exit := arg_exit a \<or> arg_print a \<or> arg_output a \<noteq> None\<rparr> \<and>
       (msgs = [] \<longleftrightarrow> \<not> (arg_exit a' \<and> arg_wait a'))
   | (msgs, Inl code) \<Rightarrow> code = EX_DATAERR \<and>
       \<not> (arg_exit a \<or> arg_print a \<or> arg_output a \<noteq> None \<or> arg_wait a \<or> arg_serve a \<or> arg_agent a)"
  by (cases "arg_exit a") (auto simp: check_args_def Let_def)

section \<open>The properties at a concrete state\<close>

definition sample_args :: args where
  "sample_args = \<lparr>arg_log_level = None, arg_restrict_exe = None, arg_print = True, arg_output = Some ''out.json'',
     arg_exit = True, arg_wait = False, arg_wait_timeout = 600, arg_serve = False, arg_serve_port = 3000,
     arg_agent = False, arg_agent_host = None, arg_agent_port = DEFAULT_PORT, arg_conn_id = None, arg_group_id = None,
     arg_connect_interval_start = None, arg_connect_interval_mult = None, arg_connect_interval_max = None,
     arg_connect_count_max = None, arg_agent_read_timeout = None, arg_input = None\<rparr>"

definition sample_output :: output_env where
  "sample_output = \<lparr>out_print = (\<lambda>_. Ok ()), out_dump = (\<lambda>_ _. Ok ())\<rparr>"

lemma sample_result: "\<exists>x k'. proc_to_result (plain_host reaping_kernel) sample_captured k = Some (Ok x, k')"
  by (simp add: run_then_def proc_to_result_def exit_results_def sample_captured_def sample_proc_def
      proc_new_def read_statm_def statm_load_def read_stat_def stat_load_def load_or_log_def plain_host_def
      reaping_kernel_def null_kernel_def Let_def)

lemma sample_collect:
  "\<exists>res r k. collect_results (plain_host reaping_kernel) (server_reg sample_server) () = Some (Ok res, r, k)"
proof -
  have "reg_procs (server_reg sample_server) = [(''a'', 0)]"
    by (simp add: server_reg_def sample_server_def spawn_def sys_init_def procs_new_def procs_insert_def notify_def)
  with sample_result [of "()"] show ?thesis by (auto simp: collect_results_def Let_def)
qed

theorem exit_reports_all_witness:
  "\<exists>res s'. run_until_exit sample_args (plain_host reaping_kernel) sample_output sample_server =
     Some (Ok [Printed res, Dumped ''out.json'' res], s') \<and> set (bt_keys res) = {''a''}"
proof -
  obtain res r k where c: "collect_results (plain_host reaping_kernel) (server_reg sample_server) () = Some (Ok res, r, k)"
    using sample_collect by blast
  have "ss_k sample_server = ()" by simp
  with c have "must (collect_all (plain_host reaping_kernel)) sample_server =
      Some (Ok res :: (res, error) outcome, (put_reg r sample_server)\<lparr>ss_k := k\<rparr>)"
    by (simp add: must_Ok collect_all_def)
  then have "\<exists>outs s'. run_until_exit sample_args (plain_host reaping_kernel) sample_output sample_server = Some (Ok outs, s')"
    by (simp add: run_until_exit_def sample_args_def run_then_Ok write_output_def sample_output_def shut_registry_def)
  then obtain outs s' where r: "run_until_exit sample_args (plain_host reaping_kernel) sample_output sample_server = Some (Ok outs, s')"
    by blast
  have "arg_exit sample_args" by (simp add: sample_args_def)
  from exit_reports_all [OF this r] r show ?thesis by (auto simp: sample_args_def)
qed

end
