(* ===== verification/Program.thy ===== *)
theory Program
  imports App
begin

text \<open>
  The main function of \<open>src/main.rs\<close> after the start: four parts that run until all have ended, the HTTP
  service, the agent, \<open>--exit\<close> and \<open>--wait\<close>, on the registry they share with the tasks, the requests and
  the signal handlers.  One step is what one part does between two awaits; which part goes next, and
  what the network reports to it, is the event.
\<close>

section \<open>Waiting for the shutdown\<close>

text \<open>
  The watch channel of the shutdown state: its value, and a version that every send increments.
  \<open>wait_for_shutdown\<close> is one poll of it by a receiver that has seen a version: whether it returns, and
  the version it has seen then.
\<close>

record shutdown_watch =
  sw_state :: shutdown_state
  sw_version :: nat

function wait_for_shutdown :: "shutdown_watch \<Rightarrow> nat \<Rightarrow> bool \<times> nat" where
  "wait_for_shutdown w seen =
     (if sw_state w = Done then (True, seen)
      else if seen \<noteq> sw_version w then wait_for_shutdown w (sw_version w)
      else (False, seen))"
  by pat_completeness auto
termination
  by (relation "measure (\<lambda>(w, seen). if seen = sw_version w then 0 else 1)") auto

declare wait_for_shutdown.simps [simp del]

text \<open>It returns if and only if the state is final when it is polled; otherwise it has seen all there was.\<close>

lemma wait_for_shutdown_poll:
  "wait_for_shutdown w seen = (if sw_state w = Done then (True, seen) else (False, sw_version w))"
  by (subst wait_for_shutdown.simps, subst wait_for_shutdown.simps) simp

definition shutdown_poll :: "nat \<Rightarrow> nat \<Rightarrow> registry \<Rightarrow> bool" where
  "shutdown_poll version seen r = fst (wait_for_shutdown \<lparr>sw_state = get_shutdown r, sw_version = version\<rparr> seen)"

lemma shutdown_poll_iff [simp]: "shutdown_poll version seen r \<longleftrightarrow> reg_shutdown r = Done"
  by (simp add: shutdown_poll_def wait_for_shutdown_poll get_shutdown_def)

section \<open>The state of the program\<close>

text \<open>What stays the same: the arguments, and what is outside the source.\<close>

record 'k setting =
  mc_args :: args
  mc_cfg :: connect_config
  mc_conn :: connection
  mc_env :: "(string \<times> string) list"
  mc_codec :: codec
  mc_host :: "'k host"
  mc_systemd :: "'k systemd option"
  mc_services :: "'k services"
  mc_output :: output_env

datatype exit_phase = ExitWaits waiter | ExitOver

datatype idle_phase = FirstAssignment nat | IdleWaits waiter | IdleOver

text \<open>The agent's attempt to connect is pending between the registration and the subscription.\<close>

record 'k program =
  pg_http :: bool
  pg_agent :: "agent option"
  pg_attempt :: "(unit, error) outcome option"
  pg_exit :: exit_phase
  pg_idle :: idle_phase
  pg_out :: "main_output list"
  pg_server :: "'k start_state"

abbreviation preg :: "'k program \<Rightarrow> registry" where
  "preg p \<equiv> server_reg (pg_server p)"

definition set_preg :: "registry \<Rightarrow> 'k program \<Rightarrow> 'k program" where
  "set_preg r p = p\<lparr>pg_server := put_reg r (pg_server p)\<rparr>"

definition new_waiter :: "wait_kind \<Rightarrow> registry \<Rightarrow> waiter \<times> registry" where
  "new_waiter kind r = (case subscribe r of (pos, r') \<Rightarrow> (\<lparr>wt_kind = kind, wt_pos = pos, wt_target = None\<rparr>, r'))"

definition exit_start :: "args \<Rightarrow> registry \<Rightarrow> exit_phase \<times> registry" where
  "exit_start a r =
     (if arg_exit a then (case new_waiter WaitRunning r of (w, r') \<Rightarrow> (ExitWaits w, r')) else (ExitOver, r))"

definition idle_start :: "args \<Rightarrow> registry \<Rightarrow> idle_phase \<times> registry" where
  "idle_start a r =
     (if \<not> arg_wait a then (IdleOver, r)
      else if arg_agent a \<and> procs_len r = 0 then (case subscribe r of (pos, r') \<Rightarrow> (FirstAssignment pos, r'))
      else (case new_waiter WaitIdle r of (w, r') \<Rightarrow> (IdleWaits w, r')))"

definition main_start :: "'k setting \<Rightarrow> 'k start_state \<Rightarrow> 'k program" where
  "main_start c s =
     (case exit_start (mc_args c) (server_reg s) of (ex, r1) \<Rightarrow>
      case idle_start (mc_args c) r1 of (idle, r2) \<Rightarrow>
        \<lparr>pg_http = arg_serve (mc_args c), pg_agent = (if arg_agent (mc_args c) then Some (agent_new (mc_cfg c)) else None),
         pg_attempt = None, pg_exit = ex, pg_idle = idle, pg_out = [], pg_server = put_reg r2 s\<rparr>)"

text \<open>The program is over when its four parts are.\<close>

definition main_over :: "'k program \<Rightarrow> bool" where
  "main_over p \<longleftrightarrow> \<not> pg_http p \<and> (\<forall>a. pg_agent p = Some a \<longrightarrow> ag_phase a = Finished (Ok ())) \<and>
     pg_exit p = ExitOver \<and> pg_idle p = IdleOver"

section \<open>The steps\<close>

text \<open>
  A step that is not possible is \<open>None\<close>; an error is the end of the process by \<open>exit\<close>.
\<close>

type_synonym 'k stepped = "('k program, process_end) outcome option"

definition ended :: "'k start_state \<Rightarrow> 'k stepped" where
  "ended s = Some (case ss_end s of Some e \<Rightarrow> Err e | None \<Rightarrow> Panic)"

definition http_shutdown :: "'k program \<Rightarrow> 'k stepped" where
  "http_shutdown p = (if pg_http p \<and> shutdown_poll 0 0 (preg p) then Some (Ok (p\<lparr>pg_http := False\<rparr>)) else None)"

text \<open>The service only returns by itself with an error, of binding or accepting, which is unwrapped.\<close>

definition http_fails :: "'k program \<Rightarrow> 'k stepped" where
  "http_fails p = (if pg_http p then Some Panic else None)"

text \<open>\<open>--exit\<close>: the wait is over, and its subscription is dropped before the results are collected.\<close>

definition exit_finish :: "'k setting \<Rightarrow> 'k program \<Rightarrow> 'k stepped" where
  "exit_finish c p =
     (case run_until_exit (mc_args c) (mc_host c) (mc_output c) (put_reg (unsubscribe (preg p)) (pg_server p)) of
        None \<Rightarrow> None
      | Some (Ok outs, s') \<Rightarrow> Some (Ok (p\<lparr>pg_server := s', pg_exit := ExitOver, pg_out := pg_out p @ outs\<rparr>))
      | Some (_, s') \<Rightarrow> ended s')"

definition exit_shutdown :: "'k setting \<Rightarrow> 'k program \<Rightarrow> 'k stepped" where
  "exit_shutdown c p =
     (case pg_exit p of
        ExitWaits w \<Rightarrow> if shutdown_poll 0 0 (preg p) then exit_finish c p else None
      | ExitOver \<Rightarrow> None)"

definition exit_wait :: "'k setting \<Rightarrow> 'k program \<Rightarrow> 'k stepped" where
  "exit_wait c p =
     (case pg_exit p of
        ExitWaits w \<Rightarrow> (case wait_step w (preg p) of
            WaitDone \<Rightarrow> exit_finish c p
          | WaitPending \<Rightarrow> None
          | WaitPanic \<Rightarrow> Some Panic
          | WaitNext w' \<Rightarrow> Some (Ok (p\<lparr>pg_exit := ExitWaits w'\<rparr>)))
      | ExitOver \<Rightarrow> None)"

text \<open>\<open>--wait\<close>: for an agent without processes the first assignment, then until all are deleted.\<close>

definition idle_finish :: "'k program \<Rightarrow> 'k stepped" where
  "idle_finish p = Some (Ok ((set_preg (set_shutdown Done (unsubscribe (preg p))) p)\<lparr>pg_idle := IdleOver\<rparr>))"

definition idle_shutdown :: "'k program \<Rightarrow> 'k stepped" where
  "idle_shutdown p =
     (if shutdown_poll 0 0 (preg p)
      then (case pg_idle p of
          FirstAssignment _ \<Rightarrow> Some (Ok ((set_preg (unsubscribe (preg p)) p)\<lparr>pg_idle := IdleOver\<rparr>))
        | IdleWaits _ \<Rightarrow> idle_finish p
        | IdleOver \<Rightarrow> None)
      else None)"

definition wait_for_first_assignment :: "nat \<Rightarrow> 'k program \<Rightarrow> 'k stepped" where
  "wait_for_first_assignment pos p =
     (case recv pos (preg p) of
        None \<Rightarrow> None
      | Some (Ok (NotiStart _), _) \<Rightarrow>
          (case new_waiter WaitIdle (unsubscribe (preg p)) of (w, r) \<Rightarrow>
             Some (Ok ((set_preg r p)\<lparr>pg_idle := IdleWaits w\<rparr>)))
      | Some (Ok _, pos') \<Rightarrow> Some (Ok (p\<lparr>pg_idle := FirstAssignment pos'\<rparr>))
      | Some (_, _) \<Rightarrow> Some Panic)"

definition idle_wait :: "'k program \<Rightarrow> 'k stepped" where
  "idle_wait p =
     (case pg_idle p of
        FirstAssignment pos \<Rightarrow> wait_for_first_assignment pos p
      | IdleWaits w \<Rightarrow> (case wait_step w (preg p) of
            WaitDone \<Rightarrow> idle_finish p
          | WaitPending \<Rightarrow> None
          | WaitPanic \<Rightarrow> Some Panic
          | WaitNext w' \<Rightarrow> Some (Ok (p\<lparr>pg_idle := IdleWaits w'\<rparr>)))
      | IdleOver \<Rightarrow> None)"

definition idle_timeout :: "'k program \<Rightarrow> 'k stepped" where
  "idle_timeout p = (case pg_idle p of FirstAssignment _ \<Rightarrow> idle_finish p | _ \<Rightarrow> None)"

text \<open>
  The agent: the head of its loop with the attempt to connect, then what follows from the attempt,
  and the turns of its inner loop.  A connection that fails for good ends the process.
\<close>

definition agent_try :: "'k setting \<Rightarrow> attempt_events \<Rightarrow> 'k program \<Rightarrow> 'k stepped" where
  "agent_try c ev p =
     (case (pg_agent p, pg_attempt p) of
        (Some a, None) \<Rightarrow>
          if ag_phase a \<noteq> Looping then None
          else if ag_phase (agent_head (preg p) a) \<noteq> Looping
          then Some (Ok (p\<lparr>pg_agent := Some (agent_head (preg p) a)\<rparr>))
          else Some (Ok (p\<lparr>pg_attempt := Some (connect (mc_codec c) (mc_env c) (mc_conn c) (preg p) ev)\<rparr>))
      | _ \<Rightarrow> None)"

definition agent_go :: "'k setting \<Rightarrow> 'k program \<Rightarrow> 'k stepped" where
  "agent_go c p =
     (case (pg_agent p, pg_attempt p) of
        (Some a, Some (Ok _)) \<Rightarrow> (case agent_connected (mc_cfg c) (preg p) a of (a', r) \<Rightarrow>
            Some (Ok ((set_preg r p)\<lparr>pg_agent := Some a', pg_attempt := None\<rparr>)))
      | (Some a, Some (Err e)) \<Rightarrow>
          (let a' = snd (agent_failed (mc_cfg c) e a) in
           case ag_phase a' of
             Finished (Err _) \<Rightarrow> Some (Err (ExitCode 1))
           | Finished _ \<Rightarrow> Some Panic
           | _ \<Rightarrow> Some (Ok (p\<lparr>pg_agent := Some a', pg_attempt := None\<rparr>)))
      | (Some a, Some Panic) \<Rightarrow> Some Panic
      | _ \<Rightarrow> None)"

definition agent_turn :: "'k setting \<Rightarrow> nat \<Rightarrow> online_event \<Rightarrow> 'k program \<Rightarrow> 'k stepped" where
  "agent_turn c seed ev p =
     (case pg_agent p of
        Some a \<Rightarrow>
          if ag_phase a = Online
          then (case online_step (mc_codec c) (mc_host c) (mc_systemd c) (mc_services c) seed ev a (pg_server p) of
              None \<Rightarrow> None
            | Some (Ok a', s') \<Rightarrow> Some (Ok (p\<lparr>pg_agent := Some a', pg_server := s'\<rparr>))
            | Some (_, s') \<Rightarrow> ended s')
          else None
      | None \<Rightarrow> None)"

text \<open>
  Everything else in the process, the tasks, HTTP requests and signal handlers, is an operation on the
  registry, a change of a process, or a change of the host.
\<close>

datatype 'k main_event =
    HttpShutdown
  | HttpFails
  | ExitShutdown
  | ExitWait
  | IdleShutdown
  | IdleWait
  | IdleTimeout
  | AgentTry attempt_events
  | AgentGo
  | AgentTurn nat online_event
  | World reg_op
  | ProcChanges addr proc
  | HostChanges 'k

fun main_step :: "'k setting \<Rightarrow> 'k main_event \<Rightarrow> 'k program \<Rightarrow> 'k stepped" where
  "main_step c HttpShutdown p = http_shutdown p"
| "main_step c HttpFails p = http_fails p"
| "main_step c ExitShutdown p = exit_shutdown c p"
| "main_step c ExitWait p = exit_wait c p"
| "main_step c IdleShutdown p = idle_shutdown p"
| "main_step c IdleWait p = idle_wait p"
| "main_step c IdleTimeout p = idle_timeout p"
| "main_step c (AgentTry ev) p = agent_try c ev p"
| "main_step c AgentGo p = agent_go c p"
| "main_step c (AgentTurn seed ev) p = agent_turn c seed ev p"
| "main_step c (World op) p = Some (Ok (set_preg (apply_op (preg p) op) p))"
| "main_step c (ProcChanges a q) p = Some (Ok (set_preg (update_proc a (\<lambda>_. q) (preg p)) p))"
| "main_step c (HostChanges k) p = Some (Ok (p\<lparr>pg_server := (pg_server p)\<lparr>ss_k := k\<rparr>\<rparr>))"

text \<open>The events of the parts themselves.\<close>

fun part_event :: "'k main_event \<Rightarrow> bool" where
  "part_event (World _) = False"
| "part_event (ProcChanges _ _) = False"
| "part_event _ = True"

text \<open>
  The events by which the parts react to the shutdown: each of them hears of it, the agent by reading its
  notifications and then at the head of its loop.  No ping, no message, no timer and no failure is among them.
\<close>

fun ending_event :: "'k main_event \<Rightarrow> bool" where
  "ending_event HttpShutdown = True"
| "ending_event ExitShutdown = True"
| "ending_event IdleShutdown = True"
| "ending_event (AgentTry _) = True"
| "ending_event (AgentTurn _ Notified) = True"
| "ending_event _ = False"

lemma ending_part: "ending_event ev \<Longrightarrow> part_event ev"
  by (cases ev rule: ending_event.cases) simp_all

lemma ending_parts: "list_all ending_event evs \<Longrightarrow> list_all part_event evs"
  by (auto simp: list_all_iff dest: ending_part)

fun main_run :: "'k setting \<Rightarrow> 'k main_event list \<Rightarrow> 'k program \<Rightarrow> 'k stepped" where
  "main_run c [] p = Some (Ok p)"
| "main_run c (ev # evs) p =
     (case main_step c ev p of
        Some (Ok p') \<Rightarrow> main_run c evs p'
      | r \<Rightarrow> r)"

section \<open>What the parts hear of the shutdown\<close>

text \<open>
  An agent that is online has not been told of the end; the notifications it has not read yet lead from
  what it knows to the shutdown state.
\<close>

definition hears :: "registry \<Rightarrow> agent \<Rightarrow> bool" where
  "hears r a \<longleftrightarrow> (ag_phase a = Online \<longrightarrow> \<not> ag_done a \<and> ag_pos a \<le> length (reg_log r) \<and>
     (\<exists>st. st \<noteq> Done \<and> reg_shutdown r = foldl note_shutdown st (drop (ag_pos a) (reg_log r))))"

fun exit_subs :: "exit_phase \<Rightarrow> nat" where
  "exit_subs (ExitWaits _) = 1"
| "exit_subs ExitOver = 0"

fun idle_subs :: "idle_phase \<Rightarrow> nat" where
  "idle_subs IdleOver = 0"
| "idle_subs _ = 1"

definition agent_subs :: "agent option \<Rightarrow> nat" where
  "agent_subs oa = (case oa of Some a \<Rightarrow> if ag_phase a = Online then 1 else 0 | None \<Rightarrow> 0)"

text \<open>The registry serves the subscriptions of \<open>n\<close> waits and of the agent.\<close>

definition serves :: "registry \<Rightarrow> nat \<Rightarrow> agent option \<Rightarrow> bool" where
  "serves r n oa \<longleftrightarrow> reg_ok r \<and> n + agent_subs oa \<le> reg_receivers r \<and> (\<forall>a. oa = Some a \<longrightarrow> hears r a)"

definition agent_ok :: "agent option \<Rightarrow> (unit, error) outcome option \<Rightarrow> bool" where
  "agent_ok oa att \<longleftrightarrow> (\<forall>a x. oa = Some a \<longrightarrow> ag_phase a = Finished x \<longrightarrow> x = Ok ()) \<and>
     (att \<noteq> None \<longrightarrow> (\<exists>a. oa = Some a \<and> ag_phase a = Looping \<and> \<not> ag_done a))"

text \<open>The state of \<open>main\<close> next to \<open>m\<close> subscriptions of others, which the signal handlers have.\<close>

definition main_ok :: "nat \<Rightarrow> 'k program \<Rightarrow> bool" where
  "main_ok m p \<longleftrightarrow> serves (preg p) (m + exit_subs (pg_exit p) + idle_subs (pg_idle p)) (pg_agent p) \<and>
     agent_ok (pg_agent p) (pg_attempt p)"

lemma hears_offline: "ag_phase a \<noteq> Online \<Longrightarrow> hears r a"
  by (simp add: hears_def)

lemma hears_followed:
  assumes "hears r a" "followed r r'"
  shows "hears r' a"
proof -
  from assms(2) obtain ns where "reg_log r' = reg_log r @ ns" "reg_shutdown r' = foldl note_shutdown (reg_shutdown r) ns"
    by (auto simp: followed_def)
  with assms(1) show ?thesis by (fastforce simp: hears_def)
qed

lemma receivers_op: "reg_receivers r \<le> reg_receivers (apply_op r op)"
  by (cases op) (auto simp: procs_insert_def remove_if_not_running_def procs_pop_def forget_all_def subscribe_def
      split: option.split list.split prod.split)

lemma agent_subs_le: "agent_subs oa \<le> 1"
  by (simp add: agent_subs_def split: option.split)

lemma serves_op:
  assumes "serves r n oa"
  shows "serves (apply_op r op) n oa"
proof -
  have "hears (apply_op r op) a" if "oa = Some a" for a
  proof (cases "ag_phase a = Online")
    case True
    with that assms have "reg_ok r" "0 < reg_receivers r" "hears r a" by (auto simp: serves_def agent_subs_def)
    then show ?thesis using hears_followed apply_op_followed by blast
  qed (rule hears_offline)
  with assms show ?thesis using apply_op_ok [of r op] receivers_op [of r op] by (auto simp: serves_def)
qed

lemma hears_cong:
  "reg_log r' = reg_log r \<Longrightarrow> reg_shutdown r' = reg_shutdown r \<Longrightarrow> hears r' a = hears r a"
  by (simp add: hears_def)

lemma reg_ok_cong:
  "reg_procs r' = reg_procs r \<Longrightarrow> length (reg_heap r') = length (reg_heap r) \<Longrightarrow> reg_shutdown r' = reg_shutdown r \<Longrightarrow>
     reg_ok r' = reg_ok r"
  by (simp add: reg_ok_def)

lemma serves_unsubscribe:
  assumes "serves r (Suc n) oa"
  shows "serves (unsubscribe r) n oa"
  using assms reg_ok_cong [of "unsubscribe r" r] hears_cong [of "unsubscribe r" r]
  by (auto simp: serves_def unsubscribe_def)

lemma serves_subscribe:
  assumes "serves r n oa" "subscribe r = (pos, r')"
  shows "serves r' (Suc n) oa" "pos = length (reg_log r)" "reg_log r' = reg_log r" "reg_shutdown r' = reg_shutdown r"
  using assms reg_ok_cong [of r' r] hears_cong [of r' r] by (auto simp: serves_def subscribe_def)

lemma serves_update: "serves (update_proc a f r) n oa = serves r n oa"
  using hears_cong [of "update_proc a f r" r] by (simp add: serves_def)

text \<open>A request changes the registry by registrations and deletions only.\<close>

lemma serve_receivers: "serve_step\<^sup>*\<^sup>* s s' \<Longrightarrow> reg_ok (s_reg s) \<Longrightarrow> reg_ok (s_reg s') \<and> reg_receivers (s_reg s) \<le> reg_receivers (s_reg s')"
proof (induction rule: rtranclp_induct)
  case (step s1 s2)
  from serve_op [OF step.hyps(2)] obtain op where "s_reg s2 = apply_op (s_reg s1) op" by blast
  with step.IH [OF step.prems] show ?case using apply_op_ok receivers_op by (metis order_trans)
qed simp

lemma serves_request:
  assumes "serve_step\<^sup>*\<^sup>* s s'" "serves (s_reg s) n oa"
  shows "serves (s_reg s') n oa"
proof -
  have "hears (s_reg s') a" if "oa = Some a" for a
  proof (cases "ag_phase a = Online")
    case True
    with that assms(2) have "reg_ok (s_reg s)" "0 < reg_receivers (s_reg s)" "hears (s_reg s) a"
      by (auto simp: serves_def agent_subs_def)
    then show ?thesis using hears_followed serve_followed [OF assms(1)] by blast
  qed (rule hears_offline)
  with assms(2) serve_receivers [OF assms(1)] show ?thesis by (auto simp: serves_def)
qed

text \<open>Each part keeps this.\<close>

lemma preg_set [simp]: "preg (set_preg r p) = r"
  by (simp add: set_preg_def)

lemma set_preg_simps [simp]:
  "pg_http (set_preg r p) = pg_http p" "pg_agent (set_preg r p) = pg_agent p" "pg_attempt (set_preg r p) = pg_attempt p"
  "pg_exit (set_preg r p) = pg_exit p" "pg_idle (set_preg r p) = pg_idle p" "pg_out (set_preg r p) = pg_out p"
  by (simp_all add: set_preg_def)

lemma preg_update [simp]:
  "preg (p\<lparr>pg_http := h\<rparr>) = preg p" "preg (p\<lparr>pg_agent := oa\<rparr>) = preg p" "preg (p\<lparr>pg_attempt := att\<rparr>) = preg p"
  "preg (p\<lparr>pg_exit := e\<rparr>) = preg p" "preg (p\<lparr>pg_idle := i\<rparr>) = preg p"
  by simp_all

lemma serves_waiter: "serves r n oa \<Longrightarrow> serves (snd (new_waiter kind r)) (Suc n) oa"
  by (cases "subscribe r") (simp add: new_waiter_def serves_subscribe)

lemma serves_exit: "serves r n oa \<Longrightarrow> exit_start a r = (ex, r') \<Longrightarrow> serves r' (exit_subs ex + n) oa"
  using serves_waiter [of r n oa WaitRunning]
  by (cases "new_waiter WaitRunning r") (auto simp: exit_start_def split: if_splits)

lemma serves_idle: "serves r n oa \<Longrightarrow> idle_start a r = (idle, r') \<Longrightarrow> serves r' (n + idle_subs idle) oa"
  using serves_waiter [of r n oa WaitIdle]
  by (cases "new_waiter WaitIdle r"; cases "subscribe r") (auto simp: idle_start_def serves_subscribe split: if_splits)

lemma main_ok_start:
  assumes "reg_ok (server_reg s)"
  shows "main_ok 0 (main_start c s)"
proof -
  have "serves (server_reg s) 0 None" using assms by (simp add: serves_def agent_subs_def)
  moreover obtain ex r1 where 1: "exit_start (mc_args c) (server_reg s) = (ex, r1)" by (cases "exit_start (mc_args c) (server_reg s)")
  moreover obtain idle r2 where 2: "idle_start (mc_args c) r1 = (idle, r2)" by (cases "idle_start (mc_args c) r1")
  ultimately have "serves r2 (exit_subs ex + idle_subs idle) None" using serves_exit serves_idle by fastforce
  then have "serves r2 (exit_subs ex + idle_subs idle) (if b then Some (agent_new cfg) else None)" for b cfg
    by (auto simp: serves_def agent_subs_def agent_new_def hears_offline)
  with 1 2 show ?thesis by (simp add: main_start_def main_ok_def agent_ok_def agent_new_def)
qed

lemma exit_finish_ok:
  assumes "main_ok m p" "pg_exit p = ExitWaits w" "exit_finish c p = Some (Ok p')"
  shows "main_ok m p'"
proof -
  let ?s = "put_reg (unsubscribe (preg p)) (pg_server p)" let ?n = "m + idle_subs (pg_idle p)"
  from assms(1,2) have u: "serves (unsubscribe (preg p)) ?n (pg_agent p)"
    by (auto simp: main_ok_def intro: serves_unsubscribe)
  from assms(3) obtain outs s' where r: "run_until_exit (mc_args c) (mc_host c) (mc_output c) ?s = Some (Ok outs, s')"
      "p' = p\<lparr>pg_server := s', pg_exit := ExitOver, pg_out := pg_out p @ outs\<rparr>"
    by (auto simp: exit_finish_def ended_def split: option.splits prod.splits outcome.splits)
  have "serves (server_reg s') ?n (pg_agent p)"
  proof (cases "arg_exit (mc_args c)")
    case True
    from run_until_exit_Ok [OF this r(1)] have "server_reg s' = set_shutdown Done (forget_all (unsubscribe (preg p)))" by auto
    with serves_op [OF serves_op [OF u, of OpForget], of "OpShutdown Done"] show ?thesis by simp
  next
    case False
    with r(1) u show ?thesis by (auto simp: run_until_exit_def)
  qed
  with assms(1) r(2) show ?thesis by (simp add: main_ok_def)
qed

lemma idle_finish_ok:
  assumes "main_ok m p" "pg_idle p \<noteq> IdleOver" "idle_finish p = Some (Ok p')"
  shows "main_ok m p'"
proof -
  have "idle_subs (pg_idle p) = 1" using assms(2) by (cases "pg_idle p") simp_all
  with assms(1) have "serves (unsubscribe (preg p)) (m + exit_subs (pg_exit p)) (pg_agent p)"
    by (auto simp: main_ok_def intro: serves_unsubscribe)
  from serves_op [OF this, of "OpShutdown Done"] assms show ?thesis by (auto simp: idle_finish_def main_ok_def)
qed

lemma main_ok_phases:
  "main_ok m p \<Longrightarrow> exit_subs e = exit_subs (pg_exit p) \<Longrightarrow> main_ok m (p\<lparr>pg_exit := e\<rparr>)"
  "main_ok m p \<Longrightarrow> idle_subs i = idle_subs (pg_idle p) \<Longrightarrow> main_ok m (p\<lparr>pg_idle := i\<rparr>)"
  "main_ok m p \<Longrightarrow> main_ok m (p\<lparr>pg_http := h\<rparr>)"
  by (simp_all add: main_ok_def)

lemma exit_wait_ok: "main_ok m p \<Longrightarrow> exit_wait c p = Some (Ok p') \<Longrightarrow> main_ok m p'"
  by (auto simp: exit_wait_def split: exit_phase.splits wait_progress.splits intro: exit_finish_ok main_ok_phases(1))

lemma exit_shutdown_ok: "main_ok m p \<Longrightarrow> exit_shutdown c p = Some (Ok p') \<Longrightarrow> main_ok m p'"
  by (auto simp: exit_shutdown_def split: exit_phase.splits if_splits intro: exit_finish_ok)

lemma idle_shutdown_ok:
  assumes "main_ok m p" "idle_shutdown p = Some (Ok p')"
  shows "main_ok m p'"
proof (cases "pg_idle p")
  case (FirstAssignment pos)
  with assms(1) have "serves (unsubscribe (preg p)) (m + exit_subs (pg_exit p)) (pg_agent p)"
    by (auto simp: main_ok_def intro: serves_unsubscribe)
  with assms FirstAssignment show ?thesis by (auto simp: idle_shutdown_def main_ok_def split: if_splits)
qed (use assms in \<open>auto simp: idle_shutdown_def split: if_splits intro: idle_finish_ok\<close>)

lemma first_assignment_ok:
  assumes "main_ok m p" "pg_idle p = FirstAssignment pos" "wait_for_first_assignment pos p = Some (Ok p')"
  shows "main_ok m p'"
proof -
  from assms(1,2) have u: "serves (unsubscribe (preg p)) (m + exit_subs (pg_exit p)) (pg_agent p)"
    by (auto simp: main_ok_def intro: serves_unsubscribe)
  obtain w r where w: "new_waiter WaitIdle (unsubscribe (preg p)) = (w, r)" by (cases "new_waiter WaitIdle (unsubscribe (preg p))")
  with u have "serves r (m + exit_subs (pg_exit p) + 1) (pg_agent p)"
    using serves_waiter [of "unsubscribe (preg p)" "m + exit_subs (pg_exit p)" "pg_agent p" WaitIdle] by simp
  with assms(1) have "main_ok m ((set_preg r p)\<lparr>pg_idle := IdleWaits w\<rparr>)" by (simp add: main_ok_def)
  with assms w show ?thesis
    by (auto simp: wait_for_first_assignment_def split: option.splits prod.splits outcome.splits notification.splits
        intro: main_ok_phases(2))
qed

lemma idle_wait_ok: "main_ok m p \<Longrightarrow> idle_wait p = Some (Ok p') \<Longrightarrow> main_ok m p'"
  by (auto simp: idle_wait_def split: idle_phase.splits wait_progress.splits
      intro: idle_finish_ok first_assignment_ok main_ok_phases(2))

lemma idle_timeout_ok: "main_ok m p \<Longrightarrow> idle_timeout p = Some (Ok p') \<Longrightarrow> main_ok m p'"
  by (auto simp: idle_timeout_def split: idle_phase.splits intro: idle_finish_ok)

lemma head_phase: "ag_phase a = Looping \<Longrightarrow> ag_phase (agent_head r a) \<in> {Looping, Finished (Ok ())} \<and>
    (ag_phase (agent_head r a) = Looping \<longrightarrow> \<not> ag_done a \<and> agent_head r a = a)"
  by (simp add: agent_head_def)

lemma serves_offline: "oa = Some a \<Longrightarrow> ag_phase a \<noteq> Online \<Longrightarrow> serves r n oa \<longleftrightarrow> serves r n None"
  by (auto simp: serves_def agent_subs_def hears_offline)

lemma serves_online: "serves r n (Some a) \<Longrightarrow> ag_phase a = Online \<Longrightarrow> serves r (Suc n) None"
  by (simp add: serves_def agent_subs_def)

lemma agent_try_ok:
  assumes "main_ok m p" "agent_try c ev p = Some (Ok p')"
  shows "main_ok m p'"
proof -
  from assms(2) obtain a where a: "pg_agent p = Some a" "pg_attempt p = None" "ag_phase a = Looping"
    by (auto simp: agent_try_def split: option.splits if_splits)
  let ?n = "m + exit_subs (pg_exit p) + idle_subs (pg_idle p)"
  have s: "serves (preg p) ?n None" using assms(1) a serves_offline [of "Some a" a] by (simp add: main_ok_def)
  show ?thesis
  proof (cases "ag_phase (agent_head (preg p) a) = Looping")
    case True
    with head_phase [OF a(3), of "preg p"] assms a show ?thesis by (auto simp: agent_try_def main_ok_def agent_ok_def)
  next
    case False
    with head_phase [OF a(3), of "preg p"] have f: "ag_phase (agent_head (preg p) a) = Finished (Ok ())" by auto
    with s have "serves (preg p) ?n (Some (agent_head (preg p) a))" using serves_offline [of "Some (agent_head (preg p) a)"] by simp
    with f assms(2) a show ?thesis by (auto simp: agent_try_def main_ok_def agent_ok_def)
  qed
qed

text \<open>The gap: the agent subscribes when the shutdown it has not been told of is over.\<close>

definition gap :: "'k main_event \<Rightarrow> 'k program \<Rightarrow> bool" where
  "gap ev p \<longleftrightarrow> ev = AgentGo \<and> pg_attempt p = Some (Ok ()) \<and> get_shutdown (preg p) = Done"

lemma failed_phase: "ag_phase a = Looping \<Longrightarrow> ag_phase (snd (agent_failed cfg e a)) \<in> {Looping, Finished (Err e), Finished Panic}"
  by (simp add: agent_failed_def Let_def split: outcome.split)

lemma agent_go_ok:
  assumes "main_ok m p" "\<not> gap AgentGo p" "agent_go c p = Some (Ok p')"
  shows "main_ok m p'"
proof -
  let ?n = "m + exit_subs (pg_exit p) + idle_subs (pg_idle p)"
  from assms(3) obtain a att where att: "pg_agent p = Some a" "pg_attempt p = Some att"
    by (auto simp: agent_go_def split: option.splits)
  with assms(1) have a: "ag_phase a = Looping" "\<not> ag_done a" and "serves (preg p) ?n (Some a)"
    by (auto simp: main_ok_def agent_ok_def)
  then have s: "serves (preg p) ?n None" using serves_offline [of "Some a" a] by simp
  show ?thesis
  proof (cases att)
    case (Ok u)
    obtain pos r where r: "subscribe (preg p) = (pos, r)" by (cases "subscribe (preg p)")
    note sub = serves_subscribe [OF s r]
    let ?a = "a\<lparr>ag_phase := Online, ag_interval := cf_interval_start (mc_cfg c), ag_count := 0, ag_pos := pos\<rparr>"
    have "reg_shutdown r \<noteq> Done" using assms(2) att Ok sub(4) by (simp add: gap_def get_shutdown_def)
    with sub a have "hears r ?a" by (auto simp: hears_def)
    with sub(1) have "serves r ?n (Some ?a)" by (simp add: serves_def agent_subs_def)
    with assms(3) att Ok r show ?thesis by (auto simp: agent_go_def agent_connected_def main_ok_def agent_ok_def)
  next
    case (Err e)
    let ?a = "snd (agent_failed (mc_cfg c) e a)"
    from assms(3) att Err have "ag_phase ?a \<noteq> Finished (Err e)" "ag_phase ?a \<noteq> Finished Panic"
      by (auto simp: agent_go_def Let_def)
    with failed_phase [OF a(1), of "mc_cfg c" e] have f: "ag_phase ?a = Looping" by auto
    with s have "serves (preg p) ?n (Some ?a)" using serves_offline [of "Some ?a"] by simp
    with assms(3) att Err f show ?thesis by (auto simp: agent_go_def Let_def main_ok_def agent_ok_def)
  next
    case Panic
    with assms(3) att show ?thesis by (simp add: agent_go_def)
  qed
qed

lemma by_steps_ws: "by_steps (ws_handle C H S V seed msg)"
proof (cases msg)
  case (WsBinary data)
  have "by_steps (run_then (handle_incoming H S V seed m) (\<lambda>rsp. case rsp of
      Some r \<Rightarrow> at_once (\<lambda>s. (map_ok (\<lambda>b. Some (WsBinary b)) (serialize C r), s)) | None \<Rightarrow> at_once (ret None)))" for m
    by (intro by_steps_run_then by_steps_incoming) (auto intro: by_steps_apart apart_basic split: option.split)
  with WsBinary show ?thesis by (auto simp: by_steps_def split: outcome.split)
qed (auto simp: by_steps_def)

lemma by_steps_stream: "by_steps (on_stream C H S V seed item res)"
proof (cases item)
  case (StreamItem m)
  show ?thesis
  proof (cases m)
    case (Ok msg)
    with StreamItem by_stepsD [OF by_steps_ws [of C H S V seed msg]] show ?thesis
      by (fastforce simp: by_steps_def split: if_splits option.splits prod.splits outcome.splits)
  qed (auto simp: StreamItem by_steps_def)
qed (auto simp: by_steps_def)

lemma notification_reg: "notification_to_message H noti s = Some (Ok msg, s') \<Longrightarrow> server_reg s' = server_reg s"
  by (cases noti) (auto dest: result_message_effect)

lemma told:
  assumes "serves (server_reg s) n (Some a)" "ag_phase a = Online" "on_notification H a s = Some (Ok (a', msg), s')"
  shows "serves (server_reg s') (Suc n) None \<and> ag_phase a' = Online \<and> (\<not> ag_done a' \<longrightarrow> serves (server_reg s') n (Some a'))"
proof -
  from assms(3) obtain noti pos where n: "recv (ag_pos a) (server_reg s) = Some (Ok noti, pos)"
      "notification_to_message H noti s = Some (Ok msg, s')"
      "a' = a\<lparr>ag_pos := pos, ag_done := ag_done a \<or> noti = NotiShutDown Done\<rparr>"
    by (auto simp: on_notification_def run_then_def Let_def split: option.splits prod.splits outcome.splits)
  from notification_reg [OF n(2)] have same: "server_reg s' = server_reg s" .
  let ?r = "server_reg s"
  from recv_next [OF n(1)] have d: "drop (ag_pos a) (reg_log ?r) = noti # drop pos (reg_log ?r)" "pos \<le> length (reg_log ?r)"
    by (auto simp: Cons_nth_drop_Suc)
  from assms(1,2) obtain st where st: "st \<noteq> Done" "reg_shutdown ?r = foldl note_shutdown st (drop (ag_pos a) (reg_log ?r))"
    by (auto simp: serves_def hears_def)
  have "hears ?r a'" if "\<not> ag_done a'"
  proof -
    from that n(3) have "note_shutdown st noti \<noteq> Done" using st(1) by (cases noti) auto
    moreover from st(2) d(1) have "reg_shutdown ?r = foldl note_shutdown (note_shutdown st noti) (drop pos (reg_log ?r))" by simp
    ultimately show ?thesis using that n(3) d(2) unfolding hears_def by auto
  qed
  with assms(1,2) same n(3) show ?thesis using serves_online [OF assms(1,2)] by (auto simp: serves_def agent_subs_def)
qed

text \<open>A turn of the inner loop, in two halves: what the event does, and whether the loop is left.\<close>

lemma turn_ends:
  assumes "serves (server_reg s) (Suc n) None" "ag_phase a = Online" "\<not> leave \<Longrightarrow> \<not> ag_done a \<Longrightarrow> serves (server_reg s) n (Some a)"
    and "turn_end leave a s = (Ok a', s')"
  shows "serves (server_reg s') n (Some a') \<and> ag_phase a' \<in> {Online, Looping}"
proof (cases "leave \<or> ag_done a")
  case True
  have "serves (unsubscribe (server_reg s)) n None" by (rule serves_unsubscribe [OF assms(1)])
  moreover have "a' = a\<lparr>ag_phase := Looping\<rparr>" "server_reg s' = unsubscribe (server_reg s)"
    using True assms(4) by (auto simp: turn_end_def agent_leave_def)
  ultimately show ?thesis using serves_offline [of "Some a'" a'] by simp
next
  case False
  with assms show ?thesis by (auto simp: turn_end_def)
qed

lemma turn_serves:
  assumes "serves (server_reg s) n (Some a)" "ag_phase a = Online" "online_step C H S V seed ev a s = Some (Ok a', s')"
  shows "serves (server_reg s') n (Some a') \<and> ag_phase a' \<in> {Online, Looping}"
proof (cases ev)
  case (PingTick res)
  from assms(3) PingTick show ?thesis
    by (intro turn_ends [where leave = "\<not> sent res" and s = s and a = a and n = n])
      (use assms(1,2) serves_online [OF assms(1,2)] in \<open>auto simp: online_step_def\<close>)
next
  case (Received item res)
  with assms(3) obtain leave s1 where l: "on_stream C H S V seed item res s = Some (Ok leave, s1)"
      "turn_end leave a s1 = (Ok a', s')"
    by (auto simp: online_step_def run_then_def split: option.splits prod.splits outcome.splits)
  have "serves (server_reg s1) n (Some a)"
    using by_stepsD [OF by_steps_stream l(1)] assms(1) serves_request unfolding server_reg_def by blast
  with l(2) show ?thesis by (intro turn_ends [where s = s1]) (auto intro: serves_online [OF _ assms(2)] assms(2))
next
  case Notified
  with assms(3) obtain a1 msg s1 where l: "on_notification H a s = Some (Ok (a1, msg), s1)"
      "turn_end False a1 s1 = (Ok a', s')"
    by (auto simp: online_step_def run_then_def split: option.splits prod.splits outcome.splits)
  with told [OF assms(1,2) l(1)] show ?thesis by (intro turn_ends [OF _ _ _ l(2)]) auto
qed

lemma agent_turn_ok:
  assumes "main_ok m p" "agent_turn c seed ev p = Some (Ok p')"
  shows "main_ok m p'"
proof -
  from assms(2) obtain a a' s' where a: "pg_agent p = Some a" "ag_phase a = Online"
      "online_step (mc_codec c) (mc_host c) (mc_systemd c) (mc_services c) seed ev a (pg_server p) = Some (Ok a', s')"
      "p' = p\<lparr>pg_agent := Some a', pg_server := s'\<rparr>"
    by (auto simp: agent_turn_def ended_def split: option.splits if_splits prod.splits outcome.splits)
  let ?n = "m + exit_subs (pg_exit p) + idle_subs (pg_idle p)"
  have "serves (preg p) ?n (Some a)" using assms(1) a(1) by (simp add: main_ok_def)
  from turn_serves [OF this a(2,3)] have "serves (server_reg s') ?n (Some a')" "ag_phase a' \<in> {Online, Looping}" by auto
  moreover from assms(1) a(1,2) have "pg_attempt p = None" by (auto simp: main_ok_def agent_ok_def)
  ultimately show ?thesis using a(4) by (auto simp: main_ok_def agent_ok_def)
qed

lemma main_step_ok:
  assumes "main_ok m p" "\<not> gap ev p" "main_step c ev p = Some (Ok p')"
  shows "main_ok m p'"
proof (cases ev)
  case HttpShutdown
  with assms show ?thesis by (auto simp: http_shutdown_def split: if_splits intro: main_ok_phases)
next
  case HttpFails
  with assms show ?thesis by (simp add: http_fails_def split: if_splits)
next
  case AgentGo
  with assms agent_go_ok show ?thesis by simp
next
  case (World op)
  with assms show ?thesis by (auto simp: main_ok_def serves_op)
next
  case (ProcChanges a q)
  with assms show ?thesis by (auto simp: main_ok_def serves_update)
next
  case (HostChanges k)
  with assms show ?thesis by (auto simp: main_ok_def server_reg_def)
qed (use assms in \<open>auto intro: exit_shutdown_ok exit_wait_ok idle_shutdown_ok idle_wait_ok idle_timeout_ok agent_try_ok agent_turn_ok\<close>)

text \<open>A run in which the agent never subscribes in the gap.\<close>

fun gap_free :: "'k setting \<Rightarrow> 'k main_event list \<Rightarrow> 'k program \<Rightarrow> bool" where
  "gap_free c [] p = True"
| "gap_free c (ev # evs) p =
     (\<not> gap ev p \<and> (case main_step c ev p of Some (Ok p') \<Rightarrow> gap_free c evs p' | _ \<Rightarrow> True))"

lemma main_run_ok: "main_ok m p \<Longrightarrow> gap_free c evs p \<Longrightarrow> main_run c evs p = Some (Ok p') \<Longrightarrow> main_ok m p'"
proof (induction evs arbitrary: p)
  case (Cons ev evs)
  then obtain p1 where 1: "main_step c ev p = Some (Ok p1)" "main_run c evs p1 = Some (Ok p')"
    by (auto split: option.splits outcome.splits)
  with Cons show ?case using main_step_ok [of m p ev c p1] by simp
qed simp

lemma main_run_append:
  "main_run c evs p = Some (Ok p1) \<Longrightarrow> main_run c (evs @ evs') p = main_run c evs' p1"
  by (induction evs arbitrary: p) (auto split: option.splits outcome.splits)

section \<open>The program ends\<close>

text \<open>The result of every process can be read on this host, and the outputs can be written.\<close>

definition reports :: "'k host \<Rightarrow> registry \<Rightarrow> bool" where
  "reports H r \<longleftrightarrow> (\<forall>q \<in> set (reg_heap r). \<forall>k. \<exists>x k'. proc_to_result H q k = Some (Ok x, k'))"

definition writes_outputs :: "output_env \<Rightarrow> bool" where
  "writes_outputs W \<longleftrightarrow> (\<forall>res path. out_print W res = Ok () \<and> out_dump W path res = Ok ())"

definition keeps_up :: "'k program \<Rightarrow> bool" where
  "keeps_up p \<longleftrightarrow> (\<forall>a. pg_agent p = Some a \<longrightarrow> ag_phase a = Online \<longrightarrow> length (reg_log (preg p)) - ag_pos a \<le> channel_capacity)"

text \<open>What the agent's steps on the way to its end leave alone.\<close>

definition quiet :: "'k program \<Rightarrow> 'k program \<Rightarrow> bool" where
  "quiet p p' \<longleftrightarrow> pg_http p' = pg_http p \<and> pg_attempt p' = pg_attempt p \<and> pg_exit p' = pg_exit p \<and> pg_idle p' = pg_idle p \<and>
     reg_procs (preg p') = reg_procs (preg p) \<and> reg_heap (preg p') = reg_heap (preg p) \<and> reg_shutdown (preg p') = reg_shutdown (preg p)"

lemma quiet_trans: "quiet p p1 \<Longrightarrow> quiet p1 p2 \<Longrightarrow> quiet p p2"
  by (simp add: quiet_def)

lemma result_total:
  assumes "reg_ok (server_reg s)" "reports H (server_reg s)"
  shows "\<exists>msg s'. result_message H i s = Some (Ok msg, s')"
proof (cases "procs_get (server_reg s) i")
  case (Some a)
  then have "(i, a) \<in> set (reg_procs (server_reg s))" using assms(1) by (simp add: procs_get_def reg_ok_def bt_get_in_set)
  with assms(1) have "a < length (reg_heap (server_reg s))" by (force simp: reg_ok_def)
  with assms(2) obtain x k where "proc_to_result H (proc_at (server_reg s) a) (ss_k s) = Some (Ok x, k)"
    by (metis reports_def proc_at_def nth_mem)
  with Some show ?thesis by (simp add: result_message_def run_then_must run_k_def)
qed (simp add: result_message_def)

lemma notification_total:
  "reg_ok (server_reg s) \<Longrightarrow> reports H (server_reg s) \<Longrightarrow> \<exists>msg s'. notification_to_message H noti s = Some (Ok msg, s')"
  by (cases noti) (simp_all add: result_total)

lemma unread_end:
  assumes "hears r a" "ag_phase a = Online" "reg_shutdown r = Done"
  shows "ag_pos a < length (reg_log r)"
proof (rule ccontr)
  assume "\<not> ag_pos a < length (reg_log r)"
  with assms show False by (auto simp: hears_def)
qed

text \<open>One notification more.\<close>

lemma agent_hears_one:
  assumes "main_ok m p" "pg_agent p = Some a" "ag_phase a = Online" "reg_shutdown (preg p) = Done" "reports (mc_host c) (preg p)" "keeps_up p"
  shows "\<exists>p' a'. main_step c (AgentTurn 0 Notified) p = Some (Ok p') \<and> quiet p p' \<and> pg_agent p' = Some a' \<and>
    (ag_phase a' = Looping \<or> ag_phase a' = Online \<and> ag_pos a' = ag_pos a + 1 \<and> reg_log (preg p') = reg_log (preg p))"
proof -
  let ?s = "pg_server p" let ?r = "preg p" let ?H = "mc_host c"
  from assms(1,2) have r: "reg_ok ?r" "hears ?r a" by (auto simp: main_ok_def serves_def)
  have u: "ag_pos a < length (reg_log ?r)" by (rule unread_end [OF r(2) assms(3,4)])
  moreover have "\<not> channel_capacity < length (reg_log ?r) - ag_pos a" using assms(2,3,6) by (simp add: keeps_up_def)
  ultimately obtain noti where n: "recv (ag_pos a) ?r = Some (Ok noti, ag_pos a + 1)" by (simp add: recv_def)
  obtain msg s1 where m: "notification_to_message ?H noti ?s = Some (Ok msg, s1)" using notification_total [OF r(1) assms(5)] by blast
  from notification_reg [OF m] have same: "server_reg s1 = ?r" .
  let ?a = "a\<lparr>ag_pos := ag_pos a + 1, ag_done := ag_done a \<or> noti = NotiShutDown Done\<rparr>"
  have on: "on_notification ?H a ?s = Some (Ok (?a, msg), s1)" using n m by (simp add: on_notification_def Let_def)
  obtain a' s' where e: "turn_end False ?a s1 = (Ok a', s')"
    by (cases "ag_done ?a"; cases "agent_leave (server_reg s1) ?a") (simp_all add: turn_end_def)
  have "main_step c (AgentTurn 0 Notified) p = Some (Ok (p\<lparr>pg_agent := Some a', pg_server := s'\<rparr>))"
    using on e assms(2,3) by (simp add: agent_turn_def online_step_def)
  moreover have "quiet p (p\<lparr>pg_agent := Some a', pg_server := s'\<rparr>)"
    using e same by (auto simp: quiet_def turn_end_def agent_leave_def unsubscribe_def split: if_splits)
  moreover have "ag_phase a' = Looping \<or> ag_phase a' = Online \<and> ag_pos a' = ag_pos a + 1 \<and> server_reg s' = ?r"
    using e same assms(3) by (auto simp: turn_end_def agent_leave_def split: if_splits)
  ultimately show ?thesis by auto
qed

lemma gap_free_other: "AgentGo \<notin> set evs \<Longrightarrow> gap_free c evs p"
  by (induction evs arbitrary: p) (auto simp: gap_def split: option.split outcome.split)

lemma agent_hears_all:
  assumes "main_ok m p" "pg_agent p = Some a" "ag_phase a = Online" "reg_shutdown (preg p) = Done" "reports (mc_host c) (preg p)" "keeps_up p"
  shows "\<exists>n p' a'. main_run c (replicate n (AgentTurn 0 Notified)) p = Some (Ok p') \<and> quiet p p' \<and> pg_agent p' = Some a' \<and> ag_phase a' = Looping"
  using assms
proof (induction "length (reg_log (preg p)) - ag_pos a" arbitrary: p a rule: less_induct)
  case less
  from agent_hears_one [OF less.prems] obtain p1 a1 where 1: "main_step c (AgentTurn 0 Notified) p = Some (Ok p1)" "quiet p p1"
      "pg_agent p1 = Some a1" "ag_phase a1 = Looping \<or> ag_phase a1 = Online \<and> ag_pos a1 = ag_pos a + 1 \<and> reg_log (preg p1) = reg_log (preg p)"
    by blast
  show ?case
  proof (cases "ag_phase a1 = Looping")
    case True
    with 1 show ?thesis by (intro exI [of _ 1] exI [of _ p1] exI [of _ a1]) simp
  next
    case False
    with 1(4) have on: "ag_phase a1 = Online" "ag_pos a1 = ag_pos a + 1" "reg_log (preg p1) = reg_log (preg p)" by auto
    have "hears (preg p) a" using less.prems(1,2) by (simp add: main_ok_def serves_def)
    from unread_end [OF this less.prems(3,4)] on have "length (reg_log (preg p1)) - ag_pos a1 < length (reg_log (preg p)) - ag_pos a" by simp
    moreover have "main_ok m p1" using main_step_ok [OF less.prems(1) _ 1(1)] by (simp add: gap_def)
    moreover have "reg_shutdown (preg p1) = Done" "reports (mc_host c) (preg p1)" "keeps_up p1"
      using 1(2,3) on less.prems by (auto simp: quiet_def reports_def keeps_up_def)
    ultimately obtain n p2 a2 where 2: "main_run c (replicate n (AgentTurn 0 Notified)) p1 = Some (Ok p2)" "quiet p1 p2"
        "pg_agent p2 = Some a2" "ag_phase a2 = Looping"
      using less.hyps [of p1 a1] 1(3) on(1) by blast
    with 1 quiet_trans [OF 1(2) 2(2)] show ?thesis by (intro exI [of _ "Suc n"] exI [of _ p2] exI [of _ a2]) simp
  qed
qed

lemma agent_ends:
  assumes "main_ok m p" "pg_attempt p = None" "reg_shutdown (preg p) = Done" "reports (mc_host c) (preg p)" "keeps_up p"
  shows "\<exists>evs p'. main_run c evs p = Some (Ok p') \<and> AgentGo \<notin> set evs \<and> list_all ending_event evs \<and> quiet p p' \<and>
    (\<forall>a. pg_agent p' = Some a \<longrightarrow> ag_phase a = Finished (Ok ()))"
proof -
  have last: "\<exists>p'. main_step c (AgentTry ev) q = Some (Ok p') \<and> quiet q p' \<and> (\<forall>a. pg_agent p' = Some a \<longrightarrow> ag_phase a = Finished (Ok ()))"
    if "pg_agent q = Some b" "ag_phase b = Looping" "pg_attempt q = None" "reg_shutdown (preg q) = Done" for q b ev
    using that by (auto simp: agent_try_def agent_head_def get_shutdown_def quiet_def)
  have refl: "quiet p p" by (simp add: quiet_def)
  show ?thesis
  proof (cases "pg_agent p")
    case None
    with refl show ?thesis by (intro exI [of _ "[]"] exI [of _ p]) simp
  next
    case (Some a)
    show ?thesis
    proof (cases "ag_phase a")
      case Looping
      from last [OF Some Looping assms(2,3)] obtain ev p' where "main_step c (AgentTry ev) p = Some (Ok p')" "quiet p p'"
          "\<forall>a. pg_agent p' = Some a \<longrightarrow> ag_phase a = Finished (Ok ())" by blast
      then show ?thesis by (intro exI [of _ "[AgentTry ev]"] exI [of _ p']) simp
    next
      case Online
      from agent_hears_all [OF assms(1) Some Online assms(3-5)] obtain n p1 a1
        where 1: "main_run c (replicate n (AgentTurn 0 Notified)) p = Some (Ok p1)" "quiet p p1" "pg_agent p1 = Some a1" "ag_phase a1 = Looping"
        by blast
      have "pg_attempt p1 = None" "reg_shutdown (preg p1) = Done" using 1(2) assms(2,3) by (simp_all add: quiet_def)
      from last [OF 1(3,4) this] obtain ev p' where 2: "main_step c (AgentTry ev) p1 = Some (Ok p')" "quiet p1 p'"
          "\<forall>a. pg_agent p' = Some a \<longrightarrow> ag_phase a = Finished (Ok ())" by blast
      have "main_run c (replicate n (AgentTurn 0 Notified) @ [AgentTry ev]) p = Some (Ok p')"
        using main_run_append [OF 1(1)] 2(1) by simp
      moreover have "AgentGo \<notin> set (replicate n (AgentTurn 0 Notified) @ [AgentTry ev])"
          "list_all ending_event (replicate n (AgentTurn 0 Notified) @ [AgentTry ev])"
        by (auto simp: list_all_iff)
      ultimately show ?thesis using quiet_trans [OF 1(2) 2(2)] 2(3) by blast
    next
      case (Finished x)
      with assms(1) Some have "x = Ok ()" by (auto simp: main_ok_def agent_ok_def)
      with Some Finished refl show ?thesis by (intro exI [of _ "[]"] exI [of _ p]) simp
    qed
  qed
qed

text \<open>The other parts.\<close>

lemma results_total:
  assumes "\<forall>a \<in> snd ` set es. a < length (reg_heap r)" "reports H r"
  shows "\<exists>xs k'. results_of H r es k = Some (Ok xs, k')"
  using assms(1)
proof (induction es arbitrary: k)
  case (Cons e es)
  obtain i a where e: "e = (i, a)" by (cases e)
  with Cons.prems assms(2) obtain x k1 where "proc_to_result H (proc_at r a) k = Some (Ok x, k1)"
    by (metis reports_def proc_at_def nth_mem image_eqI list.set_intros(1) snd_conv)
  moreover obtain xs k2 where "results_of H r es k1 = Some (Ok xs, k2)" using Cons.IH [of k1] Cons.prems by auto
  ultimately show ?case by (simp add: e)
qed simp

lemma exit_total:
  assumes "reg_ok (server_reg s)" "reports H (server_reg s)" "writes_outputs W"
  shows "\<exists>outs s'. run_until_exit a H W s = Some (Ok outs, s')"
proof (cases "arg_exit a")
  case True
  have "\<forall>a \<in> snd ` set (reg_procs (server_reg s)). a < length (reg_heap (server_reg s))" using assms(1) by (simp add: reg_ok_def)
  from results_total [OF this assms(2)] obtain xs k where "results_of H (server_reg s) (reg_procs (server_reg s)) (ss_k s) = Some (Ok xs, k)"
    by blast
  then have "must (collect_all H) s = Some (Ok (bt_collect xs) :: (res, error) outcome, (put_reg (forget_all (server_reg s)) s)\<lparr>ss_k := k\<rparr>)"
    by (simp add: must_Ok collect_all_def collect_results_def Let_def)
  with True assms(3) show ?thesis
    by (simp add: run_until_exit_def run_then_Ok write_output_def writes_outputs_def shut_registry_def split: option.split)
qed (simp add: run_until_exit_def)

lemma http_ends:
  assumes "reg_shutdown (preg p) = Done"
  shows "\<exists>evs. main_run c evs p = Some (Ok (p\<lparr>pg_http := False\<rparr>)) \<and> list_all ending_event evs"
proof (cases "pg_http p")
  case True
  with assms show ?thesis by (intro exI [of _ "[HttpShutdown]"]) (simp add: http_shutdown_def)
next
  case False
  then have "p\<lparr>pg_http := False\<rparr> = p" by simp
  then show ?thesis by (intro exI [of _ "[]"]) simp
qed

lemma idle_ends:
  assumes "reg_shutdown (preg p) = Done"
  shows "\<exists>evs r. main_run c evs p = Some (Ok ((set_preg r p)\<lparr>pg_idle := IdleOver\<rparr>)) \<and> list_all ending_event evs \<and>
    reg_procs r = reg_procs (preg p) \<and> reg_heap r = reg_heap (preg p) \<and> reg_shutdown r = Done"
proof (cases "pg_idle p")
  case IdleOver
  have "put_reg (preg p) (pg_server p) = pg_server p" by (rule put_reg_same)
  with IdleOver have "(set_preg (preg p) p)\<lparr>pg_idle := IdleOver\<rparr> = p" by (simp add: set_preg_def)
  with assms show ?thesis by (intro exI [of _ "[]"] exI [of _ "preg p"]) simp
next
  case (FirstAssignment pos)
  with assms show ?thesis
    by (intro exI [of _ "[IdleShutdown]"] exI [of _ "unsubscribe (preg p)"]) (simp add: idle_shutdown_def unsubscribe_def)
next
  case (IdleWaits w)
  with assms show ?thesis
    by (intro exI [of _ "[IdleShutdown]"] exI [of _ "set_shutdown Done (unsubscribe (preg p))"])
      (simp add: idle_shutdown_def idle_finish_def unsubscribe_def)
qed

text \<open>From a state that is shut down the parts can end, by their own steps.\<close>

lemma parts_end:
  assumes "main_ok m p" "reg_shutdown (preg p) = Done" "pg_attempt p = None" "keeps_up p"
    and "reports (mc_host c) (preg p)" "writes_outputs (mc_output c)"
  shows "\<exists>evs' p'. main_run c evs' p = Some (Ok p') \<and> list_all ending_event evs' \<and> main_over p'"
proof -
  from agent_ends [OF assms(1,3,2,5,4)] obtain e1 p1 where 1: "main_run c e1 p = Some (Ok p1)" "AgentGo \<notin> set e1"
      "list_all ending_event e1" "quiet p p1" "\<forall>a. pg_agent p1 = Some a \<longrightarrow> ag_phase a = Finished (Ok ())" by blast
  have ok1: "main_ok m p1" by (rule main_run_ok [OF assms(1) gap_free_other [OF 1(2)] 1(1)])
  have s1: "reg_shutdown (preg p1) = Done" "reg_heap (preg p1) = reg_heap (preg p)" using 1(4) assms(2) by (simp_all add: quiet_def)
  let ?p2 = "p1\<lparr>pg_http := False\<rparr>"
  from http_ends [OF s1(1)] obtain e2 where 2: "main_run c e2 p1 = Some (Ok ?p2)" "list_all ending_event e2" by blast
  have "reg_shutdown (preg ?p2) = Done" using s1 by simp
  from idle_ends [OF this] obtain e3 r where 3: "main_run c e3 ?p2 = Some (Ok ((set_preg r ?p2)\<lparr>pg_idle := IdleOver\<rparr>))"
      "list_all ending_event e3" "reg_procs r = reg_procs (preg ?p2)" "reg_heap r = reg_heap (preg ?p2)" "reg_shutdown r = Done" by blast
  let ?p3 = "(set_preg r ?p2)\<lparr>pg_idle := IdleOver\<rparr>"
  have run: "main_run c (e1 @ e2 @ e3) p = Some (Ok ?p3)"
    using main_run_append [OF 1(1), of "e2 @ e3"] main_run_append [OF 2(1), of e3] 3(1) by simp
  have "reg_ok (preg p1)" using ok1 by (simp add: main_ok_def serves_def)
  with 3(3-5) s1 have r: "reg_ok (unsubscribe r)" "reports (mc_host c) (unsubscribe r)"
    using reg_ok_cong [of "unsubscribe r" "preg p1"] assms(5) by (simp_all add: unsubscribe_def reports_def)
  show ?thesis
  proof (cases "pg_exit p1")
    case ExitOver
    with 1(5) have "main_over ?p3" by (simp add: main_over_def)
    with run 1(3) 2(2) 3(2) show ?thesis by (intro exI [of _ "e1 @ e2 @ e3"]) auto
  next
    case (ExitWaits w)
    let ?s = "put_reg (unsubscribe r) (pg_server ?p3)"
    obtain outs s' where "run_until_exit (mc_args c) (mc_host c) (mc_output c) ?s = Some (Ok outs, s')"
      using exit_total [of ?s "mc_host c" "mc_output c" "mc_args c"] r assms(6) by auto
    with ExitWaits 3(5) have "main_run c [ExitShutdown] ?p3 = Some (Ok (?p3\<lparr>pg_server := s', pg_exit := ExitOver, pg_out := pg_out ?p3 @ outs\<rparr>))"
      by (simp add: exit_shutdown_def exit_finish_def)
    with main_run_append [OF run, of "[ExitShutdown]"] 1(3,5) 2(2) 3(2) show ?thesis
      by (intro exI [of _ "(e1 @ e2 @ e3) @ [ExitShutdown]"] exI conjI) (assumption | simp add: main_over_def)+
  qed
qed


section \<open>What the program has written when it ends\<close>

lemma main_run_snoc:
  "main_run c (evs @ [ev]) p = Some (Ok p') \<longleftrightarrow> (\<exists>p1. main_run c evs p = Some (Ok p1) \<and> main_step c ev p1 = Some (Ok p'))"
  by (induction evs arbitrary: p) (auto split: option.splits outcome.splits)

definition same_exit :: "'k program \<Rightarrow> 'k program \<Rightarrow> bool" where
  "same_exit p p' \<longleftrightarrow> pg_out p' = pg_out p \<and>
     (pg_exit p' = pg_exit p \<or> (\<exists>w w'. pg_exit p = ExitWaits w \<and> pg_exit p' = ExitWaits w' \<and> wt_kind w' = wt_kind w))"

lemma same_exitI: "pg_out p' = pg_out p \<Longrightarrow> pg_exit p' = pg_exit p \<Longrightarrow> same_exit p p'"
  by (simp add: same_exit_def)

lemma wait_step_kind: "wait_step w r = WaitNext w' \<Longrightarrow> wt_kind w' = wt_kind w"
  by (auto simp: wait_step_def split: option.splits prod.splits outcome.splits)

lemma wait_done: "wait_step w r = WaitDone \<Longrightarrow> wait_pick (wt_kind w) r = None"
  by (auto simp: wait_step_def split: option.splits prod.splits outcome.splits)

lemma exit_step:
  assumes "main_step c ev p = Some (Ok p')"
  shows "same_exit p p' \<or> (\<exists>w. pg_exit p = ExitWaits w \<and> exit_finish c p = Some (Ok p') \<and>
    (reg_shutdown (preg p) = Done \<or> wait_pick (wt_kind w) (preg p) = None))"
proof (cases ev)
  case ExitWait
  then show ?thesis using assms
    by (auto simp: exit_wait_def same_exit_def split: exit_phase.splits wait_progress.splits dest: wait_step_kind wait_done)
next
  case ExitShutdown
  then show ?thesis using assms by (auto simp: exit_shutdown_def split: exit_phase.splits if_splits)
qed (use assms in \<open>auto intro!: same_exitI simp: http_shutdown_def http_fails_def idle_shutdown_def idle_finish_def idle_wait_def
      wait_for_first_assignment_def idle_timeout_def agent_try_def agent_go_def agent_turn_def ended_def Let_def
      split: if_splits option.splits idle_phase.splits wait_progress.splits prod.splits outcome.splits notification.splits
        agent_phase.splits\<close>)

text \<open>The state of the output: nothing before the end of \<open>--exit\<close>, then what it collected at a moment of the run.\<close>

definition exit_output :: "args \<Rightarrow> registry \<Rightarrow> main_output list \<Rightarrow> bool" where
  "exit_output a r outs \<longleftrightarrow> (reg_shutdown r = Done \<or> first_running r = None) \<and>
     (\<exists>res. set (bt_keys res) = reg_ids r \<and>
       outs = (if arg_print a then [Printed res] else []) @ (case arg_output a of Some path \<Rightarrow> [Dumped path res] | None \<Rightarrow> []))"

lemma exit_finish_output:
  assumes "arg_exit (mc_args c)" "exit_finish c p = Some (Ok p')" "pg_out p = []"
    and "reg_shutdown (preg p) = Done \<or> first_running (preg p) = None"
  shows "pg_exit p' = ExitOver \<and> exit_output (mc_args c) (preg p) (pg_out p')"
proof -
  from assms(2) obtain outs s' where r: "run_until_exit (mc_args c) (mc_host c) (mc_output c) (put_reg (unsubscribe (preg p)) (pg_server p)) =
      Some (Ok outs, s')" "p' = p\<lparr>pg_server := s', pg_exit := ExitOver, pg_out := pg_out p @ outs\<rparr>"
    by (auto simp: exit_finish_def ended_def split: option.splits prod.splits outcome.splits)
  have "reg_ids (unsubscribe (preg p)) = reg_ids (preg p)" by (simp add: reg_ids_def get_proc_ids_def unsubscribe_def)
  with run_until_exit_Ok [OF assms(1) r(1)] assms(3,4) r(2) show ?thesis by (auto simp: exit_output_def)
qed

text \<open>
  C21 The program does not end without its results: with \<open>--exit\<close>, when it has ended it has written, to
  the standard output and to the file it was asked to write, one and the same result, with an entry for
  exactly the processes that were registered at a moment of its run; at that moment no process was
  running, or the program was to shut down.
\<close>

theorem exit_reported:
  assumes "arg_exit (mc_args c)" "main_run c evs (main_start c s) = Some (Ok p)" "main_over p"
  shows "\<exists>evs1 evs2 p1. evs = evs1 @ evs2 \<and> main_run c evs1 (main_start c s) = Some (Ok p1) \<and>
    exit_output (mc_args c) (preg p1) (pg_out p)"
proof -
  have "case pg_exit p of
      ExitWaits w \<Rightarrow> wt_kind w = WaitRunning \<and> pg_out p = []
    | ExitOver \<Rightarrow> \<exists>evs1 evs2 p1. evs = evs1 @ evs2 \<and> main_run c evs1 (main_start c s) = Some (Ok p1) \<and>
        exit_output (mc_args c) (preg p1) (pg_out p)"
    using assms(2)
  proof (induction evs arbitrary: p rule: rev_induct)
    case Nil
    then have p: "p = main_start c s" by simp
    with assms(1) show ?case
      by (auto simp: main_start_def exit_start_def new_waiter_def split: prod.splits)
  next
    case (snoc ev evs)
    from snoc.prems obtain p0 where 0: "main_run c evs (main_start c s) = Some (Ok p0)" "main_step c ev p0 = Some (Ok p)"
      unfolding main_run_snoc by blast
    note IH = snoc.IH [OF 0(1)]
    from exit_step [OF 0(2)] show ?case
    proof
      assume "same_exit p0 p"
      with IH show ?thesis by (fastforce simp: same_exit_def split: exit_phase.splits)
    next
      assume "\<exists>w. pg_exit p0 = ExitWaits w \<and> exit_finish c p0 = Some (Ok p) \<and>
        (reg_shutdown (preg p0) = Done \<or> wait_pick (wt_kind w) (preg p0) = None)"
      then obtain w where w: "pg_exit p0 = ExitWaits w" "exit_finish c p0 = Some (Ok p)"
          "reg_shutdown (preg p0) = Done \<or> wait_pick (wt_kind w) (preg p0) = None" by blast
      with IH have "pg_out p0 = []" "reg_shutdown (preg p0) = Done \<or> first_running (preg p0) = None" by auto
      from exit_finish_output [OF assms(1) w(2) this] 0(1) show ?thesis by auto
    qed
  qed
  with assms(3) show ?thesis by (simp add: main_over_def)
qed

section \<open>The properties at a concrete state\<close>

definition sample_setting :: "unit setting" where
  "sample_setting = \<lparr>mc_args = sample_args\<lparr>arg_serve := True\<rparr>, mc_cfg = connect_config_new, mc_conn = sample_connection, mc_env = [],
     mc_codec = sample_codec, mc_host = plain_host reaping_kernel, mc_systemd = None, mc_services = plain_services,
     mc_output = sample_output\<rparr>"

lemma sample_heap: "reg_heap (server_reg sample_server) = [sample_captured]"
  by (simp add: server_reg_def sample_server_def spawn_def sys_init_def procs_new_def procs_insert_def)

definition sample_waits :: waiter where
  "sample_waits = \<lparr>wt_kind = WaitRunning, wt_pos = 0, wt_target = None\<rparr>"

lemma sample_start: "main_start sample_setting sample_server =
    \<lparr>pg_http = True, pg_agent = None, pg_attempt = None, pg_exit = ExitWaits sample_waits, pg_idle = IdleOver, pg_out = [],
     pg_server = put_reg (snd (subscribe (server_reg sample_server))) sample_server\<rparr>"
proof -
  have "reg_log (server_reg sample_server) = []"
    by (simp add: server_reg_def sample_server_def spawn_def sys_init_def procs_new_def procs_insert_def notify_def)
  then show ?thesis
    by (simp add: main_start_def sample_setting_def exit_start_def idle_start_def new_waiter_def sample_args_def subscribe_def
        sample_waits_def)
qed

definition sample_done :: "unit program" where
  "sample_done = set_preg (set_shutdown Done (preg (main_start sample_setting sample_server))) (main_start sample_setting sample_server)"

lemma sample_done_run: "main_run sample_setting [World (OpShutdown Done)] (main_start sample_setting sample_server) = Some (Ok sample_done)"
  by (simp add: sample_done_def)

lemma sample_done_simps:
  "pg_http sample_done" "pg_agent sample_done = None" "pg_attempt sample_done = None" "pg_exit sample_done = ExitWaits sample_waits"
  "pg_idle sample_done = IdleOver" "reg_shutdown (preg sample_done) = Done" "reg_heap (preg sample_done) = [sample_captured]"
  "reg_ok (preg sample_done)"
  using sample_server_ok by (simp_all add: sample_done_def sample_start subscribe_def sample_heap reg_ok_def)

lemma sample_setting_ok:
  "reports (mc_host sample_setting) (preg sample_done)" "writes_outputs (mc_output sample_setting)" "arg_exit (mc_args sample_setting)"
  using sample_result
  by (simp_all add: reports_def sample_done_simps writes_outputs_def) (simp_all add: sample_setting_def sample_output_def sample_args_def)


lemma sample_over:
  "\<exists>p. main_run sample_setting [World (OpShutdown Done), HttpShutdown, ExitShutdown] (main_start sample_setting sample_server) = Some (Ok p) \<and>
    main_over p"
proof -
  let ?s = "put_reg (unsubscribe (preg sample_done)) (pg_server sample_done)"
  have "reg_ok (unsubscribe (preg sample_done))" "reports (mc_host sample_setting) (unsubscribe (preg sample_done))"
    using sample_done_simps(8) sample_setting_ok(1) by (simp_all add: unsubscribe_def reg_ok_def reports_def)
  then obtain outs s' where r: "run_until_exit (mc_args sample_setting) (mc_host sample_setting) (mc_output sample_setting) ?s = Some (Ok outs, s')"
    using exit_total [of ?s "mc_host sample_setting" "mc_output sample_setting" "mc_args sample_setting"] sample_setting_ok(2) by auto
  have "main_run sample_setting [HttpShutdown, ExitShutdown] sample_done =
      Some (Ok (sample_done\<lparr>pg_http := False, pg_server := s', pg_exit := ExitOver, pg_out := pg_out sample_done @ outs\<rparr>))"
    using r by (simp add: http_shutdown_def exit_shutdown_def exit_finish_def sample_done_simps)
  with main_run_append [OF sample_done_run, of "[HttpShutdown, ExitShutdown]"] show ?thesis
    by (simp add: main_over_def sample_done_simps)
qed

theorem exit_reported_witness:
  "\<exists>p :: unit program. main_over p \<and> (\<exists>evs1 evs2 p1. [World (OpShutdown Done), HttpShutdown, ExitShutdown] = evs1 @ evs2 \<and>
     main_run sample_setting evs1 (main_start sample_setting sample_server) = Some (Ok p1) \<and>
     exit_output (mc_args sample_setting) (preg p1) (pg_out p))"
proof -
  from sample_over obtain p where p: "main_run sample_setting [World (OpShutdown Done), HttpShutdown, ExitShutdown]
      (main_start sample_setting sample_server) = Some (Ok p)" "main_over p" by blast
  from exit_reported [OF sample_setting_ok(3) p] p(2) show ?thesis by blast
qed

end
