(* ===== verification/Lifecycle.thy ===== *)
theory Lifecycle
  imports Registry
begin

text \<open>
  What the clients of the agent may rely on about one process, over the whole task system of \<open>Tasks\<close>.
  The abstract specification is the list of the lives of all processes started so far, in the order of their
  registration, and the IDs under which they are registered.  A life is alive, reaped (its wait has returned and
  its systemd units are being finalized) or over (its exit is recorded), with a mark for a process that
  has errors; it moves only along the edges of \<open>life_step\<close>, and an ID comes to name a life only at its start.
  The task system refines it.  The second part
  is about the record of a process: which fields of \<open>Proc\<close>, and so of a \<open>ProcRes\<close>, are set when, and that
  they stay.
\<close>

section \<open>Simulations\<close>

text \<open>
  A concrete and an abstract step relation, and an invariant of the concrete one under which each step
  is an abstract step or leaves the abstract state as it is.
\<close>

locale simulation =
  fixes concrete :: "'c \<Rightarrow> 'c \<Rightarrow> bool"
    and abstract :: "'a \<Rightarrow> 'a \<Rightarrow> bool"
    and view :: "'c \<Rightarrow> 'a"
    and invar :: "'c \<Rightarrow> bool"
  assumes invar_step: "invar c \<Longrightarrow> concrete c c' \<Longrightarrow> invar c'"
    and refines: "invar c \<Longrightarrow> concrete c c' \<Longrightarrow> view c' = view c \<or> abstract (view c) (view c')"
begin

lemma invar_steps: "concrete\<^sup>*\<^sup>* c c' \<Longrightarrow> invar c \<Longrightarrow> invar c'"
  by (induction rule: rtranclp_induct) (auto intro: invar_step)

lemma runs: "concrete\<^sup>*\<^sup>* c c' \<Longrightarrow> invar c \<Longrightarrow> abstract\<^sup>*\<^sup>* (view c) (view c')"
proof (induction rule: rtranclp_induct)
  case (step c1 c2)
  from invar_steps [OF step.hyps(1) step.prems] have "invar c1" .
  with refines [OF this step.hyps(2)] step show ?case by (metis rtranclp.rtrancl_into_rtrancl)
qed simp

text \<open>So what every abstract step keeps, every concrete run keeps.\<close>

lemma keeps:
  assumes "concrete\<^sup>*\<^sup>* c c'" "invar c" "P (view c)" "\<And>x y. P x \<Longrightarrow> abstract x y \<Longrightarrow> P y"
  shows "P (view c')"
  using runs [OF assms(1,2)] assms(3) by (induction rule: rtranclp_induct) (auto intro: assms(4))

end

section \<open>The lives of the processes\<close>

datatype stage = Alive | Reaped | Over

record life =
  lf_stage :: stage
  lf_failed :: bool

record lives =
  lv_runs :: "life list"
  lv_ids :: "proc_id \<Rightarrow> nat option"

text \<open>
  A process is started under an ID, which names it from then on; an error may be attached at any time; it is
  reaped, then its exit is recorded; it may be deleted when it is over or has failed.  The least ID may be
  popped, and all IDs forgotten, whatever the stages.  A life goes on when no ID names it.
\<close>

inductive life_step :: "lives \<Rightarrow> lives \<Rightarrow> bool" where
  start: "life_step m (m\<lparr>lv_runs := lv_runs m @ [\<lparr>lf_stage = Alive, lf_failed = b\<rparr>],
    lv_ids := (lv_ids m)(i \<mapsto> length (lv_runs m))\<rparr>)"
| failure: "n < length (lv_runs m) \<Longrightarrow> lv_runs m ! n = l \<Longrightarrow>
    life_step m (m\<lparr>lv_runs := (lv_runs m)[n := l\<lparr>lf_failed := True\<rparr>]\<rparr>)"
| reap: "n < length (lv_runs m) \<Longrightarrow> lv_runs m ! n = l \<Longrightarrow> lf_stage l = Alive \<Longrightarrow>
    life_step m (m\<lparr>lv_runs := (lv_runs m)[n := l\<lparr>lf_stage := Reaped\<rparr>]\<rparr>)"
| over: "n < length (lv_runs m) \<Longrightarrow> lv_runs m ! n = l \<Longrightarrow> lf_stage l = Reaped \<Longrightarrow>
    life_step m (m\<lparr>lv_runs := (lv_runs m)[n := l\<lparr>lf_stage := Over\<rparr>]\<rparr>)"
| delete: "lv_ids m i = Some n \<Longrightarrow> lf_stage (lv_runs m ! n) = Over \<or> lf_failed (lv_runs m ! n) \<Longrightarrow>
    life_step m (m\<lparr>lv_ids := (lv_ids m)(i := None)\<rparr>)"
| pop: "lv_ids m i \<noteq> None \<Longrightarrow> (\<And>j. lv_ids m j \<noteq> None \<Longrightarrow> i \<le> j) \<Longrightarrow> life_step m (m\<lparr>lv_ids := (lv_ids m)(i := None)\<rparr>)"
| forget: "life_step m (m\<lparr>lv_ids := Map.empty\<rparr>)"

definition stage_of :: "proc \<Rightarrow> stage" where
  "stage_of p = (if p_wait_info p \<noteq> None then Over else if p_reaped p then Reaped else Alive)"

definition life_of :: "proc \<Rightarrow> life" where
  "life_of p = \<lparr>lf_stage = stage_of p, lf_failed = (p_errors p \<noteq> [])\<rparr>"

definition lives_of :: "registry \<Rightarrow> lives" where
  "lives_of r = \<lparr>lv_runs = map life_of (reg_heap r), lv_ids = procs_get r\<rparr>"

lemma lives_of_simps [simp]: "lv_runs (lives_of r) = map life_of (reg_heap r)" "lv_ids (lives_of r) = procs_get r"
  by (simp_all add: lives_of_def)

text \<open>The states of the agent's interface are read off the life: a running process is one that is not over and has not failed.\<close>

lemma running_life: "get_state p = Running \<longleftrightarrow> \<not> (lf_stage (life_of p) = Over \<or> lf_failed (life_of p))"
  by (simp add: get_state_def life_of_def stage_of_def)

text \<open>A registered ID names a process.\<close>

lemma procs_get_bound: "reg_ok r \<Longrightarrow> procs_get r i = Some a \<Longrightarrow> a < length (reg_heap r)"
  using bt_get_in_set [of "reg_procs r"] by (force simp: reg_ok_def procs_get_def)

lemma lives_update:
  "lives_of (update_proc a f r) = lives_of r\<lparr>lv_runs := (map life_of (reg_heap r))[a := life_of (f (proc_at r a))]\<rparr>"
  by (cases "a < length (reg_heap r)")
    (simp_all add: lives_of_def update_proc_def procs_get_def map_update proc_at_def fun_eq_iff)

lemma lives_same: "reg_procs r' = reg_procs r \<Longrightarrow> reg_heap r' = reg_heap r \<Longrightarrow> lives_of r' = lives_of r"
  by (simp add: fun_eq_iff lives_of_def procs_get_def)

lemma lives_notify [simp]: "lives_of (notify n r) = lives_of r"
  by (rule lives_same) simp_all

section \<open>The record of a process\<close>

text \<open>What has been recorded of a process: nothing before its exit, and its exit only after it was reaped.\<close>

definition proc_sound :: "proc \<Rightarrow> bool" where
  "proc_sound p \<longleftrightarrow>
     (case p_wait_info p of
        None \<Rightarrow> p_stop_time p = None \<and> p_elapsed p = None \<and> p_proc_stat p = None \<and> p_cgroup_accounting p = None \<and>
          p_scope_result p = None \<and> \<not> p_cleanup_incomplete p
      | Some _ \<Rightarrow> p_reaped p \<and> p_stop_time p \<noteq> None \<and> p_elapsed p \<noteq> None)"

lemma proc_sound_fresh: "proc_fresh p \<Longrightarrow> proc_sound p"
  by (simp add: proc_sound_def proc_fresh_def)

lemma proc_sound_errors [simp]: "proc_sound (p\<lparr>p_errors := es\<rparr>) = proc_sound p"
  by (cases "p_wait_info p") (simp_all add: proc_sound_def)

lemma proc_sound_reaped: "proc_sound p \<Longrightarrow> proc_sound (p\<lparr>p_reaped := True\<rparr>)"
  by (auto simp: proc_sound_def split: option.splits)

lemma proc_sound_record: "p_reaped p \<Longrightarrow> proc_sound (record_of pe fin p)"
  by (simp add: proc_sound_def record_of_def)

definition heap_sound :: "registry \<Rightarrow> bool" where
  "heap_sound r \<longleftrightarrow> list_all proc_sound (reg_heap r)"

lemma heap_sound_at: "heap_sound r \<Longrightarrow> a < length (reg_heap r) \<Longrightarrow> proc_sound (proc_at r a)"
  by (simp add: heap_sound_def proc_at_def list_all_length)

lemma heap_sound_same: "heap_sound r \<Longrightarrow> reg_heap r' = reg_heap r \<Longrightarrow> heap_sound r'"
  by (simp add: heap_sound_def)

lemma heap_sound_update:
  "heap_sound r \<Longrightarrow> (a < length (reg_heap r) \<Longrightarrow> proc_sound (f (proc_at r a))) \<Longrightarrow> heap_sound (update_proc a f r)"
  by (cases "a < length (reg_heap r)")
    (auto simp: heap_sound_def update_proc_def proc_at_def list_all_length nth_list_update)

section \<open>The task system refines the lives\<close>

definition life_inv :: "sys \<Rightarrow> bool" where
  "life_inv s \<longleftrightarrow> reg_ok (s_reg s) \<and> tasks_ok (s_reg s) (s_tasks s) \<and> heap_sound (s_reg s)"

definition sys_lives :: "sys \<Rightarrow> lives" where
  "sys_lives s = lives_of (s_reg s)"

definition life_move :: "lives \<Rightarrow> lives \<Rightarrow> bool" where
  "life_move m m' \<longleftrightarrow> m' = m \<or> life_step m m'"

text \<open>A step of a task on its process.\<close>

definition life_edge :: "life \<Rightarrow> life \<Rightarrow> bool" where
  "life_edge l l' \<longleftrightarrow> l' = l \<or> l' = l\<lparr>lf_failed := True\<rparr> \<or> lf_stage l = Alive \<and> l' = l\<lparr>lf_stage := Reaped\<rparr> \<or>
     lf_stage l = Reaped \<and> l' = l\<lparr>lf_stage := Over\<rparr>"

lemma lives_task:
  assumes "life_edge (life_of (proc_at r a)) (life_of (f (proc_at r a)))"
  shows "life_move (lives_of r) (lives_of (update_proc a f r))"
proof (cases "a < length (reg_heap r)")
  case True
  note steps = life_step.failure [of a "lives_of r"] life_step.reap [of a "lives_of r"] life_step.over [of a "lives_of r"]
  have "procs_get (update_proc a f r) = procs_get r" by (simp add: fun_eq_iff procs_get_def)
  with True steps assms show ?thesis
    by (auto simp: life_move_def life_edge_def lives_update proc_at_def list_update_same_conv)
next
  case False
  then have "update_proc a f r = r" by (simp add: update_proc_def list_update_beyond)
  then show ?thesis by (simp add: life_move_def)
qed

lemma life_inv_task:
  assumes inv: "life_inv s" and n: "n < length (s_tasks s)" "s_tasks s ! n = t"
    and t': "t_addr t' = t_addr t" "phase_ok (f (proc_at (s_reg s) (t_addr t))) (t_phase t')"
    and f: "proc_sound (proc_at (s_reg s) (t_addr t)) \<Longrightarrow> proc_sound (f (proc_at (s_reg s) (t_addr t)))"
    and l: "life_edge (life_of (proc_at (s_reg s) (t_addr t))) (life_of (f (proc_at (s_reg s) (t_addr t))))"
    and s': "s' = set_task n t' (set_reg (update_proc (t_addr t) f (s_reg s)) s)"
  shows "life_inv s'" "life_move (sys_lives s) (sys_lives s')"
proof -
  have "tasks_ok (update_proc (t_addr t) f (s_reg s)) ((s_tasks s)[n := t'])"
    using inv n t' by (intro tasks_ok_task) (auto simp: life_inv_def)
  moreover have "heap_sound (update_proc (t_addr t) f (s_reg s))"
    using inv f by (intro heap_sound_update) (auto simp: life_inv_def heap_sound_at)
  ultimately show "life_inv s'" using inv by (simp add: life_inv_def s')
  show "life_move (sys_lives s) (sys_lives s')"
    unfolding s' sys_lives_def set_simps by (rule lives_task [where f = f]) (rule l)
qed

lemma life_inv_heap:
  assumes "life_inv s" "reg_ok (s_reg s')" "reg_heap (s_reg s') = reg_heap (s_reg s)" "tasks_ok (s_reg s') (s_tasks s')"
  shows "life_inv s'"
  using assms by (simp add: life_inv_def heap_sound_same [of "s_reg s"])

text \<open>A registration, a removal, a pop, and the end.\<close>

lemma life_inv_spawn:
  assumes "life_inv s" "proc_fresh p"
  shows "life_inv (spawn i p s)" "life_move (sys_lives s) (sys_lives (spawn i p s))"
proof -
  let ?r = "s_reg s" let ?r' = "s_reg (spawn i p s)"
  have "tasks_ok ?r' (s_tasks (spawn i p s))"
    using assms by (simp add: spawn_def Let_def life_inv_def tasks_ok_spawn proc_freshD)
  moreover have "heap_sound ?r'"
    using assms by (simp add: spawn_def Let_def life_inv_def heap_sound_def procs_insert_def proc_sound_fresh)
  ultimately show "life_inv (spawn i p s)"
    using assms(1) reg_ok_insert [of ?r i p] by (simp add: life_inv_def spawn_def Let_def)
  have "life_of p = \<lparr>lf_stage = Alive, lf_failed = (p_errors p \<noteq> [])\<rparr>"
    using assms(2) by (simp add: life_of_def stage_of_def proc_fresh_def)
  moreover have "procs_get ?r' = (procs_get ?r)(i \<mapsto> length (reg_heap ?r))"
    by (simp add: fun_eq_iff spawn_def Let_def procs_get_def procs_insert_def bt_get_insert)
  ultimately show "life_move (sys_lives s) (sys_lives (spawn i p s))"
    using life_step.start [of "lives_of ?r" i "p_errors p \<noteq> []"]
    by (simp add: life_move_def sys_lives_def) (simp add: lives_of_def spawn_def Let_def procs_insert_def)
qed

lemma lives_removed:
  assumes "reg_ok r" "remove_if_not_running i r = (res, r')"
  shows "life_move (lives_of r) (lives_of r')"
proof (cases rule: store.remove_cases [OF assms(1), of i])
  case idle: (3 a r1)
  with assms(2) have r': "r' = r1" by simp
  have "reg_heap r' = reg_heap r" by (rule heap_remove [OF assms(2)])
  with idle have l: "lives_of r' = lives_of r\<lparr>lv_ids := (procs_get r)(i := None)\<rparr>"
    by (simp add: lives_of_def r')
  have "a < length (reg_heap r)" using procs_get_bound [OF assms(1)] idle by blast
  then have "lv_runs (lives_of r) ! a = life_of (proc_at r a)" by (simp add: proc_at_def)
  then show ?thesis
    using idle(1,2) running_life [of "proc_at r a"] life_step.delete [of "lives_of r" i a] by (auto simp: life_move_def l)
qed (use assms in \<open>auto simp: life_move_def\<close>)

lemma lives_popped:
  assumes "reg_ok r" "procs_pop r = (res, r')"
  shows "life_move (lives_of r) (lives_of r')"
proof (cases "reg_procs r")
  case Nil
  with assms have "reg_procs r' = reg_procs r" by (auto simp: procs_pop_def)
  then have "lives_of r' = lives_of r" by (rule lives_same) (rule heap_pop [OF assms(2)])
  then show ?thesis by (simp add: life_move_def)
next
  case (Cons e rest)
  obtain i a where e: "e = (i, a)" by (cases e)
  have least: "i < j" if "j \<in> fst ` set rest" for j
    using assms(1) Cons e that by (auto simp: reg_ok_def bt_wf_Cons)
  have "reg_procs r' = rest" using assms(2) Cons e by (auto simp: procs_pop_def)
  moreover have none: "bt_get rest i = None" using least by (intro bt_get_None) blast
  ultimately have "procs_get r' j = ((procs_get r)(i := None)) j" for j
    by (cases "j = i") (simp_all add: procs_get_def Cons e bt_get_Cons)
  then have "lives_of r' = lives_of r\<lparr>lv_ids := (procs_get r)(i := None)\<rparr>"
    using heap_pop [OF assms(2)] by (simp add: lives_of_def fun_eq_iff)
  moreover have "procs_get r i \<noteq> None"
    by (simp add: procs_get_def Cons e bt_get_Cons)
  moreover have "i \<le> j" if "procs_get r j \<noteq> None" for j
  proof (cases "j = i")
    case False
    with that have "bt_get rest j \<noteq> None" by (simp add: procs_get_def Cons e bt_get_Cons)
    then have "j \<in> fst ` set rest" by (metis bt_get_None)
    with least show ?thesis by (simp add: less_imp_le)
  qed simp
  ultimately show ?thesis using life_step.pop [of "lives_of r" i] by (auto simp: life_move_def)
qed

lemma lives_forgotten:
  assumes "collect_results H r k = Some (Ok res, r', k')"
  shows "r' = forget_all r" "life_move (lives_of r) (lives_of r')"
proof -
  show r': "r' = forget_all r"
    using assms by (auto simp: collect_results_def Let_def split: option.splits prod.splits outcome.splits)
  have "reg_procs (forget_all r) = []" using shrinks_forget [of r] by (simp add: forget_all_def)
  moreover have "reg_heap (forget_all r) = reg_heap r" using shrinks_forget [of r] by (simp add: shrinks_def)
  ultimately have "lives_of r' = lives_of r\<lparr>lv_ids := Map.empty\<rparr>"
    by (simp add: fun_eq_iff lives_of_def procs_get_def r' bt_get_def)
  then show "life_move (lives_of r) (lives_of r')" by (simp add: life_move_def life_step.forget)
qed

text \<open>The operations that leave the processes and their IDs as they are.\<close>

lemma lives_quiet:
  assumes "life_inv s" "reg_procs (s_reg s') = reg_procs (s_reg s)" "reg_heap (s_reg s') = reg_heap (s_reg s)"
    "reg_ok (s_reg s')" "tasks_ok (s_reg s) (s_tasks s) \<Longrightarrow> tasks_ok (s_reg s) (s_tasks s')"
  shows "life_inv s'" "life_move (sys_lives s) (sys_lives s')"
proof -
  have "tasks_ok (s_reg s') (s_tasks s')"
    using assms(1,5) tasks_ok_heap [OF _ assms(3)] by (simp add: life_inv_def)
  then show "life_inv s'" using life_inv_heap [OF assms(1,4,3)] by simp
  have "sys_lives s' = sys_lives s" unfolding sys_lives_def by (rule lives_same [OF assms(2,3)])
  then show "life_move (sys_lives s) (sys_lives s')" by (simp add: life_move_def)
qed

lemma reg_ok_receivers [simp]: "reg_ok (r\<lparr>reg_receivers := n\<rparr>) = reg_ok r"
  by (simp add: reg_ok_def)

lemma life_moves:
  assumes inv: "life_inv s" and step: "sys_step H S s s'"
  shows "life_inv s' \<and> life_move (sys_lives s) (sys_lives s')"
  using step
proof (cases rule: sys_cases)
  case (Spawn p i)
  with life_inv_spawn [OF inv] show ?thesis by blast
next
  case (ErrorsRead n t errs)
  let ?p = "proc_at (s_reg s) (t_addr t)" let ?f = "\<lambda>p. p\<lparr>p_errors := p_errors p @ errs\<rparr>"
  have ph: "phase_ok ?p (t_phase t)" using tasks_ok_phase [of "s_reg s" "s_tasks s" n] inv ErrorsRead by (simp add: life_inv_def)
  have "life_edge (life_of ?p) (life_of (?f ?p))"
    by (cases "p_errors ?p") (simp_all add: life_edge_def life_of_def stage_of_def)
  with ph show ?thesis
    using life_inv_task [OF inv ErrorsRead(2,3), of "t\<lparr>t_errors_done := True\<rparr>" ?f s'] ErrorsRead(1)
    by (simp add: append_errors_def)
next
  case (Captured a j data)
  let ?f = "capture j data"
  have l: "life_of (?f p) = life_of p" for p by (simp add: life_of_def stage_of_def)
  have snd: "proc_sound (?f p) = proc_sound p" for p by (simp add: proc_sound_def split: option.split)
  have "life_move (sys_lives s) (sys_lives s')"
    unfolding Captured(1) sys_lives_def set_simps
    by (rule lives_task) (simp add: l life_edge_def)
  moreover have "tasks_ok (update_proc a ?f (s_reg s)) (s_tasks s)"
    using inv by (intro tasks_ok_proc [OF _ Captured(2)]) (simp_all add: life_inv_def)
  moreover have "heap_sound (update_proc a ?f (s_reg s))"
    using inv heap_sound_at [of "s_reg s" a] by (intro heap_sound_update) (simp_all add: life_inv_def snd Captured(2))
  ultimately show ?thesis using inv by (simp add: Captured(1) life_inv_def)
next
  case (Reaped n t k pe k')
  let ?p = "proc_at (s_reg s) (t_addr t)" let ?f = "\<lambda>p. p\<lparr>p_reaped := True\<rparr>"
  have ph: "p_wait_info ?p = None" "\<not> p_reaped ?p"
    using tasks_ok_phase [of "s_reg s" "s_tasks s" n] inv Reaped by (simp_all add: life_inv_def phase_ok_def)
  have "life_edge (life_of ?p) (life_of (?f ?p))"
    using ph by (simp add: life_edge_def life_of_def stage_of_def)
  with ph show ?thesis
    using life_inv_task [OF inv Reaped(2,3), of "t\<lparr>t_woken := False, t_phase := Finalizing pe\<rparr>" ?f s'] Reaped(1)
    by (simp add: mark_reaped_def phase_ok_def proc_sound_reaped)
next
  case (Flagged n t t')
  have ph: "phase_ok (proc_at (s_reg s) (t_addr t)) (t_phase t)"
    using tasks_ok_phase [of "s_reg s" "s_tasks s" n] inv Flagged by (simp add: life_inv_def)
  from Flagged tasks_ok_task [OF _ Flagged(2,3), of "s_reg s" t' "\<lambda>p. p"] ph inv
  show ?thesis using lives_quiet [OF inv, of s'] by (simp add: life_inv_def same_taskD)
next
  case (CheckPanics n t k k')
  have ph: "phase_ok (proc_at (s_reg s) (t_addr t)) Crashed"
    using tasks_ok_phase [of "s_reg s" "s_tasks s" n] inv CheckPanics by (simp add: life_inv_def phase_ok_def)
  from CheckPanics tasks_ok_task [OF _ CheckPanics(2,3), of "s_reg s" "t\<lparr>t_phase := Crashed\<rparr>" "\<lambda>p. p"] ph inv
  show ?thesis using lives_quiet [OF inv, of s'] by (simp add: life_inv_def)
next
  case (Recorded n t pe w fin w' r)
  let ?p = "proc_at (s_reg s) (t_addr t)" let ?f = "record_of pe fin"
  have ph: "p_wait_info ?p = None" "p_reaped ?p"
    using tasks_ok_phase [of "s_reg s" "s_tasks s" n] inv Recorded by (simp_all add: life_inv_def phase_ok_def)
  have r: "r = update_proc (t_addr t) ?f (s_reg s)" using Recorded(6) by (simp add: record_exit_def split: if_splits)
  have "life_edge (life_of ?p) (life_of (?f ?p))"
    using ph by (simp add: life_edge_def life_of_def stage_of_def record_of_def)
  moreover have "phase_ok (?f ?p) Exited" using ph by (simp add: phase_ok_def record_of_def)
  ultimately show ?thesis
    using life_inv_task [OF inv Recorded(2,3), of "t\<lparr>t_phase := Exited\<rparr>" ?f s'] Recorded(1) ph
    by (simp add: r proc_sound_record)
next
  case (RecordPanics n t pe fin r)
  with tasks_ok_phase [of "s_reg s" "s_tasks s" n] inv have False
    by (auto simp: life_inv_def record_exit_def phase_ok_def split: if_splits)
  then show ?thesis ..
next
  case (Finished n t)
  with inv show ?thesis using lives_quiet [OF inv, of s'] by (simp add: life_inv_def tasks_ok_remove)
next
  case (Removed i res r)
  have "reg_ok r" by (rule reg_ok_remove [OF _ Removed(2)]) (use inv in \<open>simp add: life_inv_def\<close>)
  with inv heap_remove [OF Removed(2)] lives_removed [OF _ Removed(2)] show ?thesis
    unfolding Removed(1) by (auto simp: sys_lives_def life_inv_def intro: heap_sound_same tasks_ok_heap)
next
  case (Popped res r)
  have "reg_ok r" by (rule reg_ok_pop [OF _ Popped(2)]) (use inv in \<open>simp add: life_inv_def\<close>)
  with inv heap_pop [OF Popped(2)] lives_popped [OF _ Popped(2)] show ?thesis
    unfolding Popped(1) by (auto simp: sys_lives_def life_inv_def intro: heap_sound_same tasks_ok_heap)
next
  case (Collected k res r k')
  have "reg_ok r" using lives_forgotten(1) [OF Collected(2)] reg_ok_forget_all inv by (simp add: life_inv_def)
  with inv heap_collect [OF Collected(2)] lives_forgotten(2) [OF Collected(2)] show ?thesis
    unfolding Collected(1) by (auto simp: sys_lives_def life_inv_def intro: heap_sound_same tasks_ok_heap)
next
  case (Shutdown st)
  with inv show ?thesis using lives_quiet [OF inv, of s'] by (simp add: life_inv_def reg_ok_set_shutdown)
next
  case Subscribed
  with inv show ?thesis using lives_quiet [OF inv, of s'] by (simp add: life_inv_def subscribe_def)
next
  case Unsubscribed
  with inv show ?thesis using lives_quiet [OF inv, of s'] by (simp add: life_inv_def unsubscribe_def)
next
  case (WaitStarts pos r kind)
  with inv show ?thesis using lives_quiet [OF inv, of s'] by (auto simp: life_inv_def subscribe_def)
next
  case (WaitSteps w w')
  with inv show ?thesis using lives_quiet [OF inv, of s'] by (simp add: life_inv_def)
next
  case (WaitEnds w)
  with inv show ?thesis using lives_quiet [OF inv, of s'] by (simp add: life_inv_def unsubscribe_def)
qed

interpretation life: simulation "sys_step H S" life_step sys_lives life_inv for H :: "'k host" and S
  using life_moves by unfold_locales (auto simp: life_move_def)

lemma sys_reach_life: "sys_reach H S s \<Longrightarrow> life_inv s"
proof (induction rule: sys_reach.induct)
  case init
  then show ?case by (simp add: life_inv_def sys_init_def tasks_ok_def heap_sound_def procs_new_def reg_ok_def)
next
  case (step s s')
  from life.invar_step [OF step.IH step.hyps(2)] show ?case .
qed

section \<open>What a result may look like\<close>

definition status_typed :: "status \<Rightarrow> bool" where
  "status_typed st \<longleftrightarrow> (st_exit_code st = None \<longleftrightarrow> st_signum st \<noteq> None) \<and>
     (st_signal st = None \<longleftrightarrow> st_signum st = None) \<and> (st_core_dump st \<longrightarrow> st_signum st \<noteq> None)"

definition res_typed :: "proc_res \<Rightarrow> bool" where
  "res_typed r \<longleftrightarrow>
     pr_state r = (if pr_errors r \<noteq> [] then Error else if pr_status r = None then Running else Terminated) \<and>
     (pr_rusage r = None \<longleftrightarrow> pr_status r = None) \<and> (tm_stop (pr_times r) = None \<longleftrightarrow> pr_status r = None) \<and>
     (case pr_status r of
        Some st \<Rightarrow> status_typed st \<and> pr_proc_statm r = None
      | None \<Rightarrow> pr_cgroup_accounting r = None \<and> pr_scope_result r = None \<and> \<not> pr_cleanup_incomplete r) \<and>
     bt_wf (pr_fds r)"

lemma status_new_typed: "status_new W s = Ok st \<Longrightarrow> status_typed st"
  by (auto simp: status_new_def status_typed_def and_then_def map_ok_def unwrap_opt_def Let_def
      split: if_splits option.splits outcome.splits)

lemma exit_results_fields:
  assumes "exit_results H p k = (Ok (st, usage, statm), k')"
  shows "case p_wait_info p of
      None \<Rightarrow> st = None \<and> usage = None
    | Some _ \<Rightarrow> (\<exists>x. st = Some x \<and> status_typed x) \<and> usage \<noteq> None \<and> statm = None"
  using assms status_new_typed
  by (auto simp: exit_results_def bind_def ret_def split: option.splits prod.splits outcome.splits)

lemma run_then_OkD: "run_then m f k = Some (Ok y, k') \<Longrightarrow> \<exists>x k1. m k = Some (Ok x, k1) \<and> f x k1 = Some (Ok y, k')"
  by (auto simp: run_then_def split: option.splits prod.splits outcome.splits)

lemma proc_to_result_fields:
  assumes "proc_to_result H p k = Some (Ok r, k')"
  obtains st usage statm k0 k1 stat xs where "exit_results H p k = (Ok (st, usage, statm), k0)"
    "r = \<lparr>pr_state = get_state p, pr_errors = p_errors p, pr_pid = p_pid p, pr_proc_stat = stat,
          pr_proc_statm = statm, pr_cgroup_accounting = p_cgroup_accounting p,
          pr_systemd_enabled = p_systemd_enabled p, pr_scope_result = p_scope_result p,
          pr_cleanup_incomplete = p_cleanup_incomplete p, pr_times = proc_times H p k1, pr_status = st,
          pr_rusage = usage, pr_fds = bt_collect xs\<rparr>"
  using assms unfolding proc_to_result_def Let_def by (auto dest!: run_then_OkD simp: ret_def intro: that)

text \<open>
  C14 A result is well typed: in every reachable state, on every host, whatever \<open>to_result\<close> gives for a
  registered process has the state that its errors and its status determine; a status, a resource
  usage and a stop time exactly once its exit has been recorded; an exit code or a signal with its name,
  never both, and a core dump only with a signal; no \<open>statm\<close> of a terminated process; no accounting and
  no scope result before the exit; and its fds in order, each once.
\<close>

theorem result_typed:
  assumes "sys_reach H S s" "procs_get (s_reg s) i = Some a"
    and "proc_to_result H (proc_at (s_reg s) a) k = Some (Ok r, k')"
  shows "res_typed r \<and> pr_pid r = p_pid (proc_at (s_reg s) a) \<and>
    (pr_status r = None \<longleftrightarrow> p_wait_info (proc_at (s_reg s) a) = None)"
proof -
  let ?p = "proc_at (s_reg s) a"
  have "life_inv s" by (rule sys_reach_life [OF assms(1)])
  then have p: "proc_sound ?p"
    using assms(2) by (auto simp: life_inv_def intro: heap_sound_at procs_get_bound)
  obtain st usage statm k0 k1 stat xs where e: "exit_results H ?p k = (Ok (st, usage, statm), k0)" and
    r: "r = \<lparr>pr_state = get_state ?p, pr_errors = p_errors ?p, pr_pid = p_pid ?p, pr_proc_stat = stat,
          pr_proc_statm = statm, pr_cgroup_accounting = p_cgroup_accounting ?p,
          pr_systemd_enabled = p_systemd_enabled ?p, pr_scope_result = p_scope_result ?p,
          pr_cleanup_incomplete = p_cleanup_incomplete ?p, pr_times = proc_times H ?p k1, pr_status = st,
          pr_rusage = usage, pr_fds = bt_collect xs\<rparr>"
    by (rule proc_to_result_fields [OF assms(3)])
  show ?thesis
    using exit_results_fields [OF e] p
    by (cases "p_wait_info ?p")
      (auto simp: r res_typed_def proc_sound_def proc_times_def get_state_def bt_wf_collect)
qed

section \<open>The refinement, and a failed process\<close>

text \<open>
  What a later state keeps of a process: its pid, that it was reaped, its errors, and, once its exit is
  recorded, everything but the errors and the captured output, which may still grow; and an ID that names
  it named it before.
\<close>

definition settled :: "proc \<Rightarrow> proc" where
  "settled p = p\<lparr>p_errors := [], p_fd_handlers := []\<rparr>"

lemma settled_wait: "settled p' = settled p \<Longrightarrow> p_wait_info p' = p_wait_info p"
  by (metis proc.select_convs settled_def proc.surjective proc.update_convs)

definition proc_later :: "proc \<Rightarrow> proc \<Rightarrow> bool" where
  "proc_later p p' \<longleftrightarrow> p_pid p' = p_pid p \<and> (p_reaped p \<longrightarrow> p_reaped p') \<and> (\<exists>es. p_errors p' = p_errors p @ es) \<and>
     (p_wait_info p \<noteq> None \<longrightarrow> settled p' = settled p)"

definition reg_later :: "registry \<Rightarrow> registry \<Rightarrow> bool" where
  "reg_later r r' \<longleftrightarrow> length (reg_heap r) \<le> length (reg_heap r') \<and>
     (\<forall>a < length (reg_heap r). proc_later (proc_at r a) (proc_at r' a) \<and>
        (\<forall>i. procs_get r' i = Some a \<longrightarrow> procs_get r i = Some a))"

lemma proc_later_refl [simp]: "proc_later p p"
  by (simp add: proc_later_def)

lemma proc_later_trans:
  assumes "proc_later p q" "proc_later q u"
  shows "proc_later p u"
proof -
  have "settled u = settled p" if "p_wait_info p \<noteq> None"
    using assms that settled_wait [of q p] by (simp add: proc_later_def)
  with assms show ?thesis by (auto simp: proc_later_def)
qed

lemma reg_later_refl [simp]: "reg_later r r"
  by (simp add: reg_later_def)

lemma reg_later_trans: "reg_later r q \<Longrightarrow> reg_later q u \<Longrightarrow> reg_later r u"
  unfolding reg_later_def by (meson less_le_trans order_trans proc_later_trans)

lemma reg_later_update:
  "(a < length (reg_heap r) \<Longrightarrow> proc_later (proc_at r a) (f (proc_at r a))) \<Longrightarrow> reg_later r (update_proc a f r)"
  by (auto simp: reg_later_def proc_at_update_in procs_get_def)

lemma reg_later_fewer:
  "reg_heap r' = reg_heap r \<Longrightarrow> (\<And>i a. procs_get r' i = Some a \<Longrightarrow> procs_get r i = Some a) \<Longrightarrow> reg_later r r'"
  by (auto simp: reg_later_def proc_at_def)

lemma reg_later_shrinks:
  assumes "shrinks r r'" "reg_ok r"
  shows "reg_later r r'"
proof (rule reg_later_fewer)
  show "reg_heap r' = reg_heap r" using assms(1) by (simp add: shrinks_def)
  show "procs_get r i = Some a" if "procs_get r' i = Some a" for i a
    using that assms bt_get_in_set [of "reg_procs r" i a] bt_get_in_set [of "reg_procs r'" i a]
    by (auto simp: shrinks_def reg_ok_def procs_get_def)
qed

lemma later_capture: "proc_later p (capture j data p)"
  by (auto simp: proc_later_def settled_def capture_def split: prod.split outcome.split)

lemma reg_later_step:
  assumes inv: "life_inv s" and step: "sys_step H S s s'"
  shows "reg_later (s_reg s) (s_reg s')"
proof -
  have ok: "reg_ok (s_reg s)" and tok: "tasks_ok (s_reg s) (s_tasks s)" using inv by (simp_all add: life_inv_def)
  have same: "reg_heap r' = reg_heap (s_reg s) \<Longrightarrow> reg_procs r' = reg_procs (s_reg s) \<Longrightarrow> reg_later (s_reg s) r'" for r'
    by (rule reg_later_fewer) (simp_all add: procs_get_def)
  from step show ?thesis
  proof (cases rule: sys_cases)
    case (Spawn p i)
    have "procs_get (s_reg s') j = (if j = i then Some (length (reg_heap (s_reg s))) else procs_get (s_reg s) j)" for j
      by (simp add: Spawn spawn_def Let_def procs_get_def procs_insert_def bt_get_insert)
    then show ?thesis
      by (auto simp: reg_later_def Spawn(1) spawn_def Let_def proc_at_append split: if_splits) (simp_all add: procs_insert_def)
  next
    case (ErrorsRead n t errs)
    then show ?thesis by (auto simp: append_errors_def proc_later_def settled_def intro!: reg_later_update)
  next
    case (Captured a j data)
    then show ?thesis by (auto intro!: reg_later_update later_capture)
  next
    case (Reaped n t k pe k')
    with tasks_ok_phase [OF tok, of n] show ?thesis
      by (auto simp: mark_reaped_def proc_later_def phase_ok_def intro!: reg_later_update)
  next
    case (Recorded n t pe w fin w' r)
    with tasks_ok_phase [OF tok, of n] show ?thesis
      by (auto simp: record_exit_def proc_later_def phase_ok_def record_of_def intro!: reg_later_update)
  next
    case (RecordPanics n t pe fin r)
    then show ?thesis by (auto simp: record_exit_def split: if_splits)
  next
    case (Removed i res r)
    then show ?thesis using reg_later_shrinks [OF shrinks_remove [OF ok] ok] by simp
  next
    case (Popped res r)
    then show ?thesis using reg_later_shrinks [OF shrinks_pop [OF ok] ok] by simp
  next
    case (Collected k res r k')
    then show ?thesis using lives_forgotten(1) [OF Collected(2)] reg_later_shrinks [OF shrinks_forget ok] by simp
  next
    case (Shutdown st)
    then show ?thesis using reg_later_shrinks [OF shrinks_shutdown [OF ok] ok] by simp
  next
    case (WaitStarts pos r kind)
    then show ?thesis by (auto simp: subscribe_def intro: same)
  qed (auto simp: subscribe_def unsubscribe_def intro!: same)
qed

lemma life_kept:
  assumes "sys_reach H S s" "(sys_step H S)\<^sup>*\<^sup>* s s'"
  shows "life_step\<^sup>*\<^sup>* (lives_of (s_reg s)) (lives_of (s_reg s')) \<and> reg_later (s_reg s) (s_reg s')"
proof
  from life.runs [OF assms(2) sys_reach_life [OF assms(1)]]
  show "life_step\<^sup>*\<^sup>* (lives_of (s_reg s)) (lives_of (s_reg s'))" by (simp add: sys_lives_def)
  from assms(2) show "reg_later (s_reg s) (s_reg s')"
  proof (induction rule: rtranclp_induct)
    case (step s1 s2)
    have "life_inv s1" by (rule life.invar_steps [OF step.hyps(1) sys_reach_life [OF assms(1)]])
    with step show ?case by (blast intro: reg_later_trans reg_later_step)
  qed simp
qed

text \<open>
  C3 The task system refines the lives of the processes.  From every reachable state, on every host, with
  any interleaving of the tasks, the world and the requests: each process that was ever registered moves only
  along the edges of the abstract relation, and an ID names a process only from its start to its deletion.  In
  particular no process is lost from the heap or gets another pid; a reaped process stays reaped;
  errors are only added; an exit once recorded never changes, nor does anything recorded with it; and an old
  process never comes back under an ID that did not name it.
\<close>

theorem lifecycle_refines:
  assumes "sys_reach H S s" "(sys_step H S)\<^sup>*\<^sup>* s s'"
  shows "life_step\<^sup>*\<^sup>* (lives_of (s_reg s)) (lives_of (s_reg s')) \<and> reg_later (s_reg s) (s_reg s')"
  by (rule life_kept [OF assms])

lemma signal_all_without:
  fixes K :: "('k, 'z) kernel_scheme"
  assumes "get_state (proc_at r a) \<noteq> Running"
  shows "signal_all K n r es res k = signal_all K n r (filter (\<lambda>e. e \<noteq> (i, a)) es) res k"
proof (induction es arbitrary: res k)
  case (Cons e es)
  obtain j b where e: "e = (j, b)" by (cases e)
  show ?case
  proof (cases "get_state (proc_at r b) = Running")
    case True
    with assms have "b \<noteq> a" by blast
    then show ?thesis using Cons.IH by (simp add: e Let_def split: prod.split outcome.split)
  next
    case False
    then show ?thesis using Cons.IH by (simp add: e)
  qed
qed simp

text \<open>
  C40 An error hides a process that still runs: as soon as a message has been read from the error pipe of
  a process, or a fd of it could not be set up in the parent, and before its wait has returned, it is
  shown as failed; it is left out when all processes are signalled, \<open>wait_running\<close> does not wait for
  it, and it can be deleted at once, which leaves its task waiting for a process that no client can
  name any more.
\<close>

theorem errors_hide_running:
  assumes "sys_reach H S s" "t \<in> set (s_tasks s)" "t_phase t = Waiting"
    and "procs_get (s_reg s) (t_id t) = Some (t_addr t)" "p_errors (proc_at (s_reg s) (t_addr t)) \<noteq> []"
  shows "get_state (proc_at (s_reg s) (t_addr t)) = Error \<and> p_wait_info (proc_at (s_reg s) (t_addr t)) = None \<and>
    send_signal_all K signum (s_reg s) k =
      signal_all K signum (s_reg s) (filter (\<lambda>e. e \<noteq> (t_id t, t_addr t)) (reg_procs (s_reg s))) (Ok ()) k \<and>
    first_running (s_reg s) \<noteq> Some (t_id t, t_addr t) \<and>
    (\<exists>s'. sys_step H S s s' \<and> procs_get (s_reg s') (t_id t) = None \<and> s_tasks s' = s_tasks s)"
proof -
  let ?p = "proc_at (s_reg s) (t_addr t)"
  have inv: "life_inv s" by (rule sys_reach_life [OF assms(1)])
  then have "phase_ok ?p Waiting" using assms(2,3) by (auto simp: life_inv_def tasks_ok_def)
  moreover have e: "get_state ?p = Error" using assms(5) by (simp add: get_state_def)
  moreover have "send_signal_all K signum (s_reg s) k =
      signal_all K signum (s_reg s) (filter (\<lambda>e. e \<noteq> (t_id t, t_addr t)) (reg_procs (s_reg s))) (Ok ()) k"
    unfolding send_signal_all_def by (rule signal_all_without) (simp add: e)
  moreover have "first_running (s_reg s) \<noteq> Some (t_id t, t_addr t)" using e by (auto dest: first_running_in)
  moreover obtain r where r: "remove_if_not_running (t_id t) (s_reg s) = (Ok (t_addr t), r)"
      "procs_get r = (procs_get (s_reg s))(t_id t := None)"
    using remove_stopped [of "s_reg s", OF _ assms(4)] inv e by (auto simp: life_inv_def)
  ultimately show ?thesis using sys_step.Removed [OF r(1), of H S] by (auto simp: phase_ok_def intro!: exI)
qed

section \<open>The properties at concrete states\<close>

definition failed_started :: sys where
  "failed_started = spawn ''a'' (sample_proc\<lparr>p_errors := [''setsid failed'']\<rparr>) sys_init"

lemma one_started_get: "procs_get (s_reg one_started) i = (if i = ''a'' then Some 0 else None)"
  by (simp add: procs_get_def bt_get_def)

theorem result_typed_witness:
  "\<exists>r. proc_to_result (plain_host reaping_kernel) (proc_at (s_reg one_started) 0) () = Some (Ok r, ()) \<and>
     res_typed r \<and> pr_status r = None"
proof -
  obtain r where r: "proc_to_result (plain_host reaping_kernel) (proc_at (s_reg one_started) 0) () = Some (Ok r, ())"
    by (simp add: run_then_def proc_to_result_def exit_results_def sample_proc_def proc_new_def bind_def ret_def
        read_statm_def read_stat_def statm_load_def stat_load_def load_or_log_def plain_host_def map_err_def Let_def)
  show ?thesis
    using result_typed [OF one_started_reach(1) [of _ None] _ r, where i = "''a''"] r
    by (simp add: one_started_get sample_proc_def proc_new_def)
qed

theorem lifecycle_refines_witness:
  "life_step\<^sup>*\<^sup>* (lives_of (s_reg one_woken)) (lives_of (s_reg one_reaped)) \<and>
   lives_of (s_reg one_woken) = \<lparr>lv_runs = [\<lparr>lf_stage = Alive, lf_failed = False\<rparr>], lv_ids = [''a'' \<mapsto> 0]\<rparr> \<and>
   lives_of (s_reg one_reaped) = \<lparr>lv_runs = [\<lparr>lf_stage = Reaped, lf_failed = False\<rparr>], lv_ids = [''a'' \<mapsto> 0]\<rparr>"
proof -
  have "reg_heap (s_reg one_started) = [sample_proc]"
    by (simp add: one_started_def spawn_def sys_init_def procs_new_def procs_insert_def)
  moreover have "procs_get (s_reg one_started) = [''a'' \<mapsto> 0]" by (simp add: fun_eq_iff one_started_get)
  moreover have "procs_get (r\<lparr>reg_heap := h\<rparr>) = procs_get r" for r :: registry and h
    by (simp add: fun_eq_iff procs_get_def)
  ultimately show ?thesis
    using lifecycle_refines [OF one_woken_reach r_into_rtranclp [of "sys_step (plain_host reaping_kernel) None", OF one_reaped_step]]
    by (simp add: one_reaped_def mark_reaped_def lives_of_def update_proc_def proc_at_def life_of_def stage_of_def
        sample_proc_def proc_new_def)
qed

theorem errors_hide_running_witness:
  "get_state (proc_at (s_reg failed_started) 0) = Error \<and>
   send_signal_all reaping_kernel 15 (s_reg failed_started) () = (Ok (), ()) \<and>
   (\<exists>s'. sys_step (plain_host reaping_kernel) None failed_started s' \<and> procs_get (s_reg s') ''a'' = None \<and>
      s_tasks s' = [sample_task])"
proof -
  have "sys_reach (plain_host reaping_kernel) None failed_started"
    unfolding failed_started_def
    by (rule sys_reach.step [OF sys_reach.init sys_step.Spawn]) (simp add: sample_proc_def)
  moreover have "s_tasks failed_started = [sample_task]" "procs_get (s_reg failed_started) ''a'' = Some 0"
      "p_errors (proc_at (s_reg failed_started) 0) = [''setsid failed'']"
    by (simp_all add: failed_started_def spawn_def sys_init_def procs_new_def sample_task_def procs_insert_def
        proc_at_def procs_get_def bt_get_def)
  moreover have reg: "reg_procs (s_reg failed_started) = [(''a'', 0)]"
    by (simp add: failed_started_def spawn_def sys_init_def procs_new_def procs_insert_def)
  ultimately show ?thesis
    using errors_hide_running [of "plain_host reaping_kernel" None failed_started sample_task reaping_kernel 15 "()"]
    by (simp add: sample_task_def reg)
qed

end
