(* ===== verification/Races.thy ===== *)
theory Races
  imports Lifecycle
begin

text \<open>
  Starts that overlap.  \<open>start_procs\<close> of \<open>src/procs.rs\<close> checks the IDs and the shutdown state of the
  registry once, at its begin, but with systemd it registers each process only after the await on its units;
  in between, every other task may run, other starts included.  Here such a start is the sequence of its
  parts between two awaits, and the parts of several starts interleave with each other and with the
  steps of \<open>Tasks\<close>.  Without systemd \<open>set_up_slice\<close> returns at once, so that a start is one step.
\<close>

section \<open>Starts in parts\<close>

text \<open>A start that awaits the units of a process it has forked: the ID of the process, and the specs still to come.\<close>

record pending =
  pn_id :: proc_id
  pn_rest :: proc_specs

record starts =
  sr_sys :: sys
  sr_pending :: "pending list"

text \<open>The fork of the next process, if there is one, up to its await.\<close>

fun fork_next :: "proc_specs \<Rightarrow> pending list \<Rightarrow> pending list" where
  "fork_next [] pend = pend"
| "fork_next ((i, spec) # rest) pend = pend @ [\<lparr>pn_id = i, pn_rest = rest\<rparr>]"

definition registers_nothing :: "sys \<Rightarrow> sys \<Rightarrow> bool" where
  "registers_nothing s s' \<longleftrightarrow> length (reg_heap (s_reg s')) = length (reg_heap (s_reg s))"

text \<open>The end of an await: the process is registered and the next one forked, or its units were refused.\<close>

inductive units_step :: "starts \<Rightarrow> starts \<Rightarrow> bool" where
  Registered: "n < length (sr_pending c) \<Longrightarrow> sr_pending c ! n = p \<Longrightarrow> proc_fresh q \<Longrightarrow>
    units_step c \<lparr>sr_sys = spawn (pn_id p) q (sr_sys c),
      sr_pending = fork_next (pn_rest p) (remove_nth n (sr_pending c))\<rparr>"
| UnitsRefused: "n < length (sr_pending c) \<Longrightarrow>
    units_step c (c\<lparr>sr_pending := remove_nth n (sr_pending c)\<rparr>)"

text \<open>
  The steps: a start is accepted, and forks its first process, only with systemd; without it, it registers its
  processes at once, or only the first ones if it panics.
\<close>

inductive start_step :: "'k host \<Rightarrow> 'k systemd option \<Rightarrow> nat \<Rightarrow> starts \<Rightarrow> starts \<Rightarrow> bool" for H S seed where
  Accepted: "S \<noteq> None \<Longrightarrow> start_checks seed procs (s_reg (sr_sys c)) = Ok () \<Longrightarrow>
    start_step H S seed c (c\<lparr>sr_pending := fork_next procs (sr_pending c)\<rparr>)"
| Awaited: "units_step c c' \<Longrightarrow> start_step H S seed c c'"
| AtOnce: "S = None \<Longrightarrow> start_checks seed procs (s_reg (sr_sys c)) = Ok () \<Longrightarrow> list_all proc_fresh qs \<Longrightarrow>
    start_step H S seed c (c\<lparr>sr_sys := spawn_all (zip (bt_keys procs) qs) (sr_sys c)\<rparr>)"
| Elsewhere: "sys_step H S (sr_sys c) s' \<Longrightarrow> registers_nothing (sr_sys c) s' \<Longrightarrow>
    start_step H S seed c (c\<lparr>sr_sys := s'\<rparr>)"

text \<open>The task system takes only its own steps, so that its invariants hold in every interleaving.\<close>

lemma fresh_zip: "list_all proc_fresh ps \<Longrightarrow> list_all (\<lambda>(_, p). proc_fresh p) (zip is ps)"
  by (auto simp: list_all_iff dest: set_zip_rightD)

lemma units_step_sys: "units_step c c' \<Longrightarrow> (sys_step H S)\<^sup>*\<^sup>* (sr_sys c) (sr_sys c')"
  by (induction rule: units_step.induct) (auto intro: sys_step.Spawn)

lemma start_step_sys: "start_step H S seed c c' \<Longrightarrow> (sys_step H S)\<^sup>*\<^sup>* (sr_sys c) (sr_sys c')"
  by (induction rule: start_step.induct) (auto intro: units_step_sys spawn_all_steps fresh_zip)

interpretation overlap: simulation "start_step H S seed" "\<lambda>m m'. life_step\<^sup>*\<^sup>* m m'" "\<lambda>c. sys_lives (sr_sys c)" "\<lambda>c. life_inv (sr_sys c)"
  for H :: "'k host" and S seed
proof
  show "life_inv (sr_sys c')" if "life_inv (sr_sys c)" "start_step H S seed c c'" for c c' :: starts
    using life.invar_steps [OF start_step_sys [OF that(2)] that(1)] .
  show "sys_lives (sr_sys c') = sys_lives (sr_sys c) \<or> life_step\<^sup>*\<^sup>* (sys_lives (sr_sys c)) (sys_lives (sr_sys c'))"
    if "life_inv (sr_sys c)" "start_step H S seed c c'" for c c' :: starts
    using life.runs [OF start_step_sys [OF that(2)] that(1)] by blast
qed

section \<open>What one start registers\<close>

text \<open>Runs that leave the task system alone, and runs that register one process unless they fail.\<close>

definition leaves_sys :: "('a, 'e, 'k start_state) run \<Rightarrow> bool" where
  "leaves_sys m \<longleftrightarrow> (\<forall>s r s'. m s = Some (r, s') \<longrightarrow> ss_sys s' = ss_sys s)"

definition registers_one :: "proc_id \<Rightarrow> (unit, 'e, 'k start_state) run \<Rightarrow> bool" where
  "registers_one i m \<longleftrightarrow> (\<forall>s r s'. m s = Some (r, s') \<longrightarrow>
     (if r = Ok () then \<exists>q. proc_fresh q \<and> ss_sys s' = spawn i q (ss_sys s) else ss_sys s' = ss_sys s))"

lemma leaves_sysD: "leaves_sys m \<Longrightarrow> m s = Some (r, s') \<Longrightarrow> ss_sys s' = ss_sys s"
  by (simp add: leaves_sys_def)

lemma registers_oneD:
  "registers_one i m \<Longrightarrow> m s = Some (r, s') \<Longrightarrow>
     if r = Ok () then \<exists>q. proc_fresh q \<and> ss_sys s' = spawn i q (ss_sys s) else ss_sys s' = ss_sys s"
  by (simp add: registers_one_def)

lemma leaves_apart: "apart m \<Longrightarrow> leaves_sys (at_once m)"
  by (auto simp: leaves_sys_def apart_def) (metis snd_conv)

lemma registers_then:
  assumes "leaves_sys m" "\<And>x. registers_one i (f x)"
  shows "registers_one i (run_then m f)"
  unfolding registers_one_def
proof (intro allI impI)
  fix s r s' assume run: "run_then m f s = Some (r, s')"
  then obtain q s1 where m: "m s = Some (q, s1)" by (cases "m s") (auto simp: run_then_def)
  have same: "ss_sys s1 = ss_sys s" by (rule leaves_sysD [OF assms(1) m])
  show "if r = Ok () then \<exists>q. proc_fresh q \<and> ss_sys s' = spawn i q (ss_sys s) else ss_sys s' = ss_sys s"
  proof (cases q)
    case (Ok x)
    with run m have "f x s1 = Some (r, s')" by simp
    from registers_oneD [OF assms(2) this] show ?thesis unfolding same .
  qed (use run m same in auto)
qed

lemma leaves_await: "leaves_sys (dropping K hs (await_units S V pid props))"
  by (auto simp: leaves_sys_def dropping_def await_units_def split: prod.splits option.splits outcome.splits)

lemma registers_register: "proc_fresh q \<Longrightarrow> registers_one i (at_once (register_proc i q))"
  by (auto simp: registers_one_def register_proc_def)

lemma registers_parent: "registers_one i (start_parent H S V i pid props ev handlers)"
proof -
  have "registers_one i (run_then (dropping (h_kernel H) handlers (await_units S V pid props)) (\<lambda>(slice_name, scope).
      run_then (at_once (in_k (unwrapped (sv_event_write V ev)))) (\<lambda>_.
      run_then (at_once (in_k (parent_fds (h_kernel H) (err_text V) handlers))) (\<lambda>fd_errs.
        at_once (register_proc i
          (proc_new pid slice_name scope (\<not> Option.is_none S) t n handlers\<lparr>p_errors := fd_errs\<rparr>))))))" for t n
    by (intro registers_then leaves_await)
      (auto intro!: registers_then leaves_apart [OF apart_basic(1)] registers_register)
  then show ?thesis unfolding registers_one_def start_parent_def Let_def by blast
qed

lemma registers_if:
  assumes "\<And>p. registers_one i (f p)" "registers_one i g"
  shows "registers_one i (\<lambda>s. if b then f (ss_pipes s) s else g s)"
proof (cases b)
  case True
  then show ?thesis using registers_oneD [OF assms(1)] by (simp only: registers_one_def if_True) blast
qed (use assms(2) in simp)

lemma registers_one_start: "registers_one i (start_one H S V i spec)"
proof -
  have "registers_one i (\<lambda>s. if child_pid = 0
      then run_then (at_once (in_k (m (ss_pipes s)))) (\<lambda>e. at_once (end_process e)) s
      else start_parent H S V i child_pid props ev hs s)" for child_pid m props ev hs
  proof -
    have "registers_one i (run_then (at_once (in_k (m p))) (\<lambda>e. at_once (end_process e)))" for p
      by (intro registers_then leaves_apart [OF apart_basic(1)]) (auto simp: registers_one_def end_process_def)
    then show ?thesis by (intro registers_if registers_parent)
  qed
  then show ?thesis
    unfolding start_one_def Let_def by (intro registers_then leaves_apart apart_basic)
qed

section \<open>Starts of different IDs\<close>

definition pending_ids :: "pending \<Rightarrow> proc_id list" where
  "pending_ids p = pn_id p # map fst (pn_rest p)"

definition all_pending :: "starts \<Rightarrow> proc_id list" where
  "all_pending c = concat (map pending_ids (sr_pending c))"

text \<open>No ID is pending twice: no client asks for an ID while it asks for it already.\<close>

definition careful_step :: "'k host \<Rightarrow> 'k systemd option \<Rightarrow> nat \<Rightarrow> starts \<Rightarrow> starts \<Rightarrow> bool" where
  "careful_step H S seed c c' \<longleftrightarrow> start_step H S seed c c' \<and> distinct (all_pending c')"

definition starts_inv :: "'k systemd option \<Rightarrow> starts \<Rightarrow> bool" where
  "starts_inv S c \<longleftrightarrow> (S = None \<longrightarrow> sr_pending c = []) \<and> life_inv (sr_sys c) \<and> distinct (all_pending c) \<and>
     (\<forall>i \<in> set (all_pending c). procs_get (s_reg (sr_sys c)) i = None)"

lemma all_pending_append: "all_pending (c\<lparr>sr_pending := fork_next procs (sr_pending c)\<rparr>) = all_pending c @ bt_keys procs"
  by (cases procs) (auto simp: all_pending_def pending_ids_def bt_keys_def)

lemma fork_next_ids:
  "(\<Union>p \<in> set (fork_next procs pend). set (pending_ids p)) = (\<Union>p \<in> set pend. set (pending_ids p)) \<union> fst ` set procs"
  by (cases "(procs, pend)" rule: fork_next.cases) (simp_all add: pending_ids_def Un_commute)

lemma set_all_pending: "set (all_pending c) = (\<Union>p \<in> set (sr_pending c). set (pending_ids p))"
  by (simp add: all_pending_def)

lemma pending_split:
  assumes "n < length pend"
  obtains ps qs where "pend = ps @ pend ! n # qs" "remove_nth n pend = ps @ qs"
  using remove_nth_split [OF assms] by blast

lemma start_checks_unused: "start_checks seed procs r = Ok () \<Longrightarrow> i \<in> set (bt_keys procs) \<Longrightarrow> procs_get r i = None"
  by (auto simp: start_checks_def find_None_iff procs_get_def bt_get_in_keys get_proc_ids_def split: option.splits)
    (metis option.distinct(1))

lemma spawn_get: "procs_get (s_reg (spawn i q s)) j = (if j = i then Some (length (reg_heap (s_reg s))) else procs_get (s_reg s) j)"
  by (simp add: spawn_def Let_def procs_get_def procs_insert_def bt_get_insert)

text \<open>A step that registers nothing brings no new ID.\<close>

lemma shrinks_get: "shrinks r r' \<Longrightarrow> reg_ok r \<Longrightarrow> procs_get r i = None \<Longrightarrow> procs_get r' i = None"
proof -
  assume a: "shrinks r r'" "reg_ok r" "procs_get r i = None"
  then have "reg_ok r'" "set (reg_procs r') \<subseteq> set (reg_procs r)" by (simp_all add: shrinks_def)
  with a(2,3) bt_get_in_set [of "reg_procs r" i] bt_get_in_set [of "reg_procs r'" i] show ?thesis
    by (cases "procs_get r' i") (auto simp: procs_get_def reg_ok_def)
qed

lemma quiet_step_get:
  assumes "life_inv s" "sys_step H S s s'" "registers_nothing s s'" "procs_get (s_reg s) i = None"
  shows "procs_get (s_reg s') i = None"
proof -
  have ok: "reg_ok (s_reg s)" using assms(1) by (simp add: life_inv_def)
  have same: "procs_get r i = None" if "reg_procs r = reg_procs (s_reg s)" for r
    using that assms(4) by (simp add: procs_get_def)
  from assms(2) show ?thesis
  proof (cases rule: sys_cases)
    case (Spawn p i)
    with assms(3) show ?thesis by (simp add: registers_nothing_def spawn_def Let_def procs_insert_def)
  next
    case (Recorded n t pe w fin w' r)
    then have "reg_procs r = reg_procs (s_reg s)" by (auto simp: record_exit_def split: if_splits)
    with Recorded same show ?thesis by simp
  next
    case (Removed j res r)
    with shrinks_get [OF shrinks_remove [OF ok Removed(2)] ok assms(4)] show ?thesis by simp
  next
    case (Popped res r)
    with shrinks_get [OF shrinks_pop [OF ok Popped(2)] ok assms(4)] show ?thesis by simp
  next
    case (Collected k res r k')
    with shrinks_get [OF shrinks_forget ok assms(4)] lives_forgotten(1) [OF Collected(2)] show ?thesis by simp
  next
    case (WaitStarts pos r kind)
    then have "reg_procs r = reg_procs (s_reg s)" by (auto simp: subscribe_def)
    with WaitStarts same show ?thesis by simp
  qed (use same in \<open>auto simp: append_errors_def mark_reaped_def subscribe_def unsubscribe_def record_exit_def split: if_splits\<close>)
qed

lemma units_step_pending: "units_step c c' \<Longrightarrow> sr_pending c \<noteq> []"
  by (induction rule: units_step.induct) auto

lemma start_step_pending: "start_step H None seed c c' \<Longrightarrow> sr_pending c = [] \<Longrightarrow> sr_pending c' = []"
  by (induction rule: start_step.induct) (auto dest: units_step_pending)

lemma starts_inv_step:
  assumes "starts_inv S c" "careful_step H S seed c c'"
  shows "starts_inv S c'"
proof -
  have inv: "life_inv (sr_sys c')"
    using overlap.invar_step assms by (auto simp: starts_inv_def careful_step_def)
  have old: "procs_get (s_reg (sr_sys c)) i = None" if "i \<in> set (all_pending c)" for i
    using that assms(1) by (simp add: starts_inv_def)
  have step: "start_step H S seed c c'" and d: "distinct (all_pending c')" using assms(2) by (simp_all add: careful_step_def)
  have none: "S = None \<longrightarrow> sr_pending c' = []"
    using step start_step_pending assms(1) by (auto simp: starts_inv_def)
  from step have "\<forall>i \<in> set (all_pending c'). procs_get (s_reg (sr_sys c')) i = None"
  proof cases
    case (Accepted procs)
    then show ?thesis using old by (auto simp: all_pending_append start_checks_unused)
  next
    case Awaited
    then show ?thesis
    proof cases
      case (Registered n p q)
      obtain ps qs where pq: "sr_pending c = ps @ p # qs" "remove_nth n (sr_pending c) = ps @ qs"
        by (rule pending_split [OF Registered(2)]) (simp add: Registered(3))
      have ids: "set (all_pending c') = (\<Union>p \<in> set (ps @ qs). set (pending_ids p)) \<union> fst ` set (pn_rest p)"
        unfolding Registered(1) pq(2)
        by (simp add: set_all_pending fork_next_ids)
      have "pn_id p \<notin> set (all_pending c')"
        using assms(1) unfolding ids by (auto simp: starts_inv_def all_pending_def pq(1) pending_ids_def)
      moreover have "set (all_pending c') \<subseteq> set (all_pending c)"
        unfolding ids by (auto simp: set_all_pending pq(1) pending_ids_def)
      ultimately show ?thesis using old by (auto simp: Registered(1) spawn_get)
    next
      case (UnitsRefused n)
      then show ?thesis using old set_remove_nth [of n "sr_pending c"] by (auto simp: set_all_pending)
    qed
  next
    case (AtOnce procs qs)
    with none show ?thesis by (simp add: all_pending_def)
  next
    case (Elsewhere s')
    with assms(1) old show ?thesis by (auto simp: starts_inv_def all_pending_def intro: quiet_step_get)
  qed
  with inv d none show ?thesis by (simp add: starts_inv_def)
qed

text \<open>
  C15 Overlapping starts of different IDs do not disturb each other: in every interleaving in which no ID
  is asked for while it is pending, the ID of a process that awaits its units is unused whenever its
  registration comes, so that no registered process is ever replaced.
\<close>

theorem starts_apart:
  assumes "sys_reach H S s" "(careful_step H S seed)\<^sup>*\<^sup>* \<lparr>sr_sys = s, sr_pending = []\<rparr> c"
    and "n < length (sr_pending c)" "procs_get (s_reg (sr_sys c)) i = Some a"
  shows "procs_get (s_reg (spawn (pn_id (sr_pending c ! n)) q (sr_sys c))) i = Some a"
proof -
  have "starts_inv S c"
    using assms(2)
  proof (induction rule: rtranclp_induct)
    case base
    then show ?case using sys_reach_life [OF assms(1)] by (simp add: starts_inv_def all_pending_def)
  next
    case (step c1 c2)
    from starts_inv_step [OF step.IH step.hyps(2)] show ?case .
  qed
  moreover have "pn_id (sr_pending c ! n) \<in> set (all_pending c)"
    using assms(3) by (auto simp: set_all_pending pending_ids_def intro!: bexI [of _ "sr_pending c ! n"])
  ultimately have "procs_get (s_reg (sr_sys c)) (pn_id (sr_pending c ! n)) = None" by (simp add: starts_inv_def)
  with assms(4) show ?thesis by (auto simp: spawn_get)
qed

section \<open>Starts of the same ID, and a shutdown in between\<close>

text \<open>
  C34 With systemd, two starts of the same ID can both be accepted, and the second process then replaces the
  first: if both pass the checks before one has registered its process, there is a run after which the ID
  names the second process, no ID names the first, and the task of the first still waits for it, to
  announce its end under the ID of the second.
\<close>

theorem start_race:
  assumes "S \<noteq> None" "sys_reach H S s" "start_checks seed ((i, spec1) # rest1) (s_reg s) = Ok ()"
    and "start_checks seed ((i, spec2) # rest2) (s_reg s) = Ok ()" "proc_fresh p" "proc_fresh q"
  shows "\<exists>c. (start_step H S seed)\<^sup>*\<^sup>* \<lparr>sr_sys = s, sr_pending = []\<rparr> c \<and>
    (\<exists>a b. procs_get (s_reg (sr_sys c)) i = Some b \<and> proc_at (s_reg (sr_sys c)) b = q \<and>
       proc_at (s_reg (sr_sys c)) a = p \<and> (\<forall>j. procs_get (s_reg (sr_sys c)) j \<noteq> Some a) \<and>
       new_task i a \<in> set (s_tasks (sr_sys c)))"
proof -
  let ?p1 = "\<lparr>pn_id = i, pn_rest = rest1\<rparr>" let ?p2 = "\<lparr>pn_id = i, pn_rest = rest2\<rparr>"
  let ?c = "\<lambda>s pend. \<lparr>sr_sys = s, sr_pending = pend\<rparr>"
  let ?a = "length (reg_heap (s_reg s))" let ?s1 = "spawn i p s" let ?s2 = "spawn i q ?s1"
  obtain c1 where c1: "units_step (?c s [?p1, ?p2]) c1" "sr_sys c1 = ?s1" "\<exists>n. n < length (sr_pending c1) \<and> sr_pending c1 ! n = ?p2"
    using units_step.Registered [of 0 "?c s [?p1, ?p2]" ?p1 p] assms(5)
    by (cases rest1) (fastforce simp: remove_nth_def intro: exI [of _ "0 :: nat"])+
  then obtain n where n: "n < length (sr_pending c1)" "sr_pending c1 ! n = ?p2" by blast
  obtain c2 where c2: "units_step c1 c2" "sr_sys c2 = ?s2"
    using units_step.Registered [OF n assms(6)] c1(2) by force
  have "start_step H S seed (?c s []) (?c s [?p1])"
    using start_step.Accepted [of S seed "(i, spec1) # rest1" "?c s []" H] assms(1,3) by simp
  moreover have "start_step H S seed (?c s [?p1]) (?c s [?p1, ?p2])"
    using start_step.Accepted [of S seed "(i, spec2) # rest2" "?c s [?p1]" H] assms(1,4) by simp
  ultimately have "(start_step H S seed)\<^sup>*\<^sup>* (?c s []) c2"
    using start_step.Awaited [OF c1(1)] start_step.Awaited [OF c2(1)] by (meson converse_rtranclp_into_rtranclp r_into_rtranclp)
  moreover have ok: "reg_ok (s_reg s)" using sys_reach_life [OF assms(2)] by (simp add: life_inv_def)
  moreover have "procs_get (s_reg s) j \<noteq> Some ?a" for j using procs_get_bound [OF ok, of j ?a] by auto
  moreover have "length (reg_heap (s_reg ?s1)) = Suc ?a" by (simp add: spawn_def Let_def procs_insert_def)
  moreover have "proc_at (s_reg ?s2) (Suc ?a) = q" "proc_at (s_reg ?s2) ?a = p"
    by (simp_all add: spawn_def Let_def procs_insert_def proc_at_def nth_append)
  moreover have "new_task i ?a \<in> set (s_tasks ?s2)"
    by (simp add: spawn_def Let_def)
  ultimately show ?thesis
    by (intro exI [of _ c2] conjI exI [of _ ?a] exI [of _ "Suc ?a"]) (simp_all add: c2(2) spawn_get)
qed

text \<open>
  C35 A shutdown when idle does not see the starts that await systemd: when nothing is registered and an accepted
  start awaits the units of its first process, the request to shut down when idle is the final shutdown at
  once; and the process can be registered after it, running, although the final shutdown is announced only
  once.
\<close>

theorem start_after_shutdown:
  assumes "S \<noteq> None" "start_checks seed ((i, spec) # rest) (s_reg s) = Ok ()" "reg_procs (s_reg s) = []"
    and "proc_fresh p" "p_errors p = []"
    and "idled = set_reg (set_shutdown Idling (s_reg s)) s"
  shows "get_shutdown (s_reg s) = Active \<and> get_shutdown (s_reg idled) = Done \<and>
    (start_step H S seed)\<^sup>*\<^sup>* \<lparr>sr_sys = s, sr_pending = []\<rparr> \<lparr>sr_sys = idled, sr_pending = [\<lparr>pn_id = i, pn_rest = rest\<rparr>]\<rparr> \<and>
    (\<exists>c. start_step H S seed \<lparr>sr_sys = idled, sr_pending = [\<lparr>pn_id = i, pn_rest = rest\<rparr>]\<rparr> c \<and>
      get_shutdown (s_reg (sr_sys c)) = Done \<and>
      (\<exists>a. procs_get (s_reg (sr_sys c)) i = Some a \<and> get_state (proc_at (s_reg (sr_sys c)) a) = Running))"
proof -
  let ?p = "\<lparr>pn_id = i, pn_rest = rest\<rparr>" let ?c = "\<lambda>s pend. \<lparr>sr_sys = s, sr_pending = pend\<rparr>"
  let ?s2 = "spawn i p idled"
  have active: "get_shutdown (s_reg s) = Active"
    using assms(2) by (cases "validate_procs_fds seed ((i, spec) # rest)") (auto simp: start_checks_def split: if_splits option.splits)
  have idle: "s_reg idled = set_shutdown Idling (s_reg s)" by (simp add: assms(6))
  have done_: "get_shutdown (set_shutdown Idling (s_reg s)) = Done"
    using assms(3) by (simp add: set_shutdown.simps [of Idling] set_shutdown.simps [of Done] Let_def get_shutdown_def)
  have "start_step H S seed (?c s []) (?c s [?p])"
    using start_step.Accepted [of S seed "(i, spec) # rest" "?c s []" H] assms(1,2) by simp
  moreover have "start_step H S seed (?c s [?p]) (?c idled [?p])"
    using start_step.Elsewhere [of H S "?c s [?p]" idled seed] sys_step.Shutdown [of H S s Idling]
    by (simp add: registers_nothing_def assms(6))
  ultimately have "(start_step H S seed)\<^sup>*\<^sup>* (?c s []) (?c idled [?p])"
    by (meson converse_rtranclp_into_rtranclp r_into_rtranclp)
  moreover have "start_step H S seed (?c idled [?p]) (?c ?s2 (fork_next rest []))"
    using start_step.Awaited [OF units_step.Registered [of 0 "?c idled [?p]" ?p p]] assms(4) by (simp add: remove_nth_def)
  moreover have "get_state (proc_at (s_reg ?s2) (length (reg_heap (s_reg idled)))) = Running"
    using assms(4,5) by (simp add: spawn_def Let_def procs_insert_def proc_at_def get_state_def proc_fresh_def)
  moreover have "get_shutdown (s_reg ?s2) = get_shutdown (s_reg idled)" by (simp add: spawn_def Let_def procs_insert_def get_shutdown_def)
  ultimately show ?thesis
    using active done_ idle by (intro conjI exI [of _ "?c ?s2 (fork_next rest [])"]) (simp_all add: spawn_get)
qed

section \<open>The properties at concrete states\<close>

definition one_spec :: proc_specs where
  "one_spec = [(''b'', default_proc\<lparr>argv := [''/bin/echo'']\<rparr>)]"

lemma one_spec_ok: "bt_wf one_spec" "pipes_matched one_spec"
  by (simp add: bt_wf_def one_spec_def) code_simp

lemma one_spec_accepted:
  "start_checks 0 one_spec (s_reg one_started) = Ok ()" "start_checks 0 one_spec (s_reg sys_init) = Ok ()"
proof -
  have "reg_shutdown (s_reg one_started) = Active"
    by (simp add: one_started_def spawn_def sys_init_def procs_new_def procs_insert_def)
  then show "start_checks 0 one_spec (s_reg one_started) = Ok ()"
    using start_checks_Ok [OF one_spec_ok(1)] one_spec_ok(2) by (simp add: one_started_get one_spec_def bt_keys_def)
  show "start_checks 0 one_spec (s_reg sys_init) = Ok ()"
    using start_checks_Ok [OF one_spec_ok(1)] one_spec_ok(2)
    by (simp add: sys_init_def procs_new_def procs_get_def bt_get_None)
qed

lemma one_spec_started:
  obtains s' where "start_procs (plain_host counting_kernel) None sample_services 0 one_spec sample_start = Some (Ok (), s')"
    "procs_get (s_reg (ss_sys s')) ''b'' = Some 0"
proof -
  let ?H = "plain_host counting_kernel" let ?s = "sample_start\<lparr>ss_pipes := []\<rparr>"
  have ch: "start_checks 0 one_spec (s_reg (ss_sys sample_start)) = Ok ()"
    using one_spec_accepted(2) by (simp add: sample_start_def)
  have "list_all (\<lambda>(_, p). argv p \<noteq> []) one_spec" by (simp add: one_spec_def)
  note b = batch_ok_valid [OF one_spec_ok this]
  have "pipes_ok undefined {} {} (ss_pipes ?s)" by (simp add: pipes_ok_def bt_get_None)
  from start_each_ready [OF counting_ready this b(1)] obtain ps po s' where r:
      "start_each ?H None sample_services one_spec ?s = Some (Ok (), s')"
      "ss_sys s' = spawn_all (zip (map fst one_spec) ps) (ss_sys ?s)"
      "pipes_ok po (batch_writes one_spec) (batch_reads one_spec) (ss_pipes s')" "list_all2 (started po) one_spec ps"
    by auto
  have "batch_writes one_spec = batch_reads one_spec" using b(2) by (simp add: batch_writes_def batch_reads_def)
  with r(3) have "pipes_close (h_kernel ?H) (ss_pipes s') 0 k = (Ok 0, k)" for k
    using pipes_close_used [of po "batch_reads one_spec" "ss_pipes s'"] by simp
  with ch r(1) have "start_procs ?H None sample_services 0 one_spec sample_start = Some (Ok (), s')"
    by (simp add: start_procs_def start_around_def run_then_def with_pipes_def unwrapped_def)
  moreover obtain p where "ps = [p]" using r(4) by (auto simp: one_spec_def list_all2_Cons1)
  then have "procs_get (s_reg (ss_sys s')) ''b'' = Some 0"
    using r(2) by (simp add: spawn_all_def one_spec_def sample_start_def spawn_get sys_init_def procs_new_def)
  ultimately show thesis using that by simp
qed

theorem starts_apart_witness:
  "\<exists>c. (careful_step (plain_host reaping_kernel) (Some sample_bus) 0)\<^sup>*\<^sup>* \<lparr>sr_sys = one_started, sr_pending = []\<rparr> c \<and>
     pn_id (sr_pending c ! 0) = ''b'' \<and> procs_get (s_reg (spawn ''b'' sample_proc (sr_sys c))) ''a'' = Some 0"
proof -
  let ?c = "\<lparr>sr_sys = one_started, sr_pending = [\<lparr>pn_id = ''b'', pn_rest = []\<rparr>]\<rparr>"
  have "careful_step (plain_host reaping_kernel) (Some sample_bus) 0 \<lparr>sr_sys = one_started, sr_pending = []\<rparr> ?c"
    using start_step.Accepted [of "Some sample_bus" 0 one_spec "\<lparr>sr_sys = one_started, sr_pending = []\<rparr>" "plain_host reaping_kernel"]
      one_spec_accepted(1)
    by (simp add: careful_step_def one_spec_def all_pending_def pending_ids_def)
  then have run: "(careful_step (plain_host reaping_kernel) (Some sample_bus) 0)\<^sup>*\<^sup>* \<lparr>sr_sys = one_started, sr_pending = []\<rparr> ?c" by simp
  from starts_apart [OF one_started_reach(1) run, of 0 "''a''" 0 sample_proc] run
  show ?thesis by (intro exI [of _ ?c]) (simp add: one_started_get)
qed

theorem start_race_witness:
  "\<exists>c. (start_step (plain_host reaping_kernel) (Some sample_bus) 0)\<^sup>*\<^sup>* \<lparr>sr_sys = sys_init, sr_pending = []\<rparr> c \<and>
    (\<exists>a b. procs_get (s_reg (sr_sys c)) ''b'' = Some b \<and> proc_at (s_reg (sr_sys c)) b = sample_proc \<and>
       p_pid (proc_at (s_reg (sr_sys c)) a) = 200 \<and> (\<forall>j. procs_get (s_reg (sr_sys c)) j \<noteq> Some a))"
proof -
  have "proc_fresh (sample_proc\<lparr>p_pid := 200\<rparr>)" "proc_fresh sample_proc"
    by (simp_all add: sample_proc_def proc_new_def proc_fresh_def)
  from start_race [OF _ sys_reach.init _ _ this, of "Some sample_bus"] one_spec_accepted(2) obtain c a b where c:
      "(start_step (plain_host reaping_kernel) (Some sample_bus) 0)\<^sup>*\<^sup>* \<lparr>sr_sys = sys_init, sr_pending = []\<rparr> c"
      "procs_get (s_reg (sr_sys c)) ''b'' = Some b" "proc_at (s_reg (sr_sys c)) b = sample_proc"
      "proc_at (s_reg (sr_sys c)) a = sample_proc\<lparr>p_pid := 200\<rparr>" "\<forall>j. procs_get (s_reg (sr_sys c)) j \<noteq> Some a"
    unfolding one_spec_def by blast
  then show ?thesis by (intro exI [of _ c] conjI exI [of _ a] exI [of _ b]) simp_all
qed

theorem start_after_shutdown_witness:
  "get_shutdown (set_shutdown Idling (s_reg sys_init)) = Done \<and>
    (\<exists>c. start_step (plain_host reaping_kernel) (Some sample_bus) 0
        \<lparr>sr_sys = set_reg (set_shutdown Idling (s_reg sys_init)) sys_init, sr_pending = [\<lparr>pn_id = ''b'', pn_rest = []\<rparr>]\<rparr> c \<and>
      get_shutdown (s_reg (sr_sys c)) = Done \<and> procs_get (s_reg (sr_sys c)) ''b'' \<noteq> None)"
proof -
  have "proc_fresh sample_proc" "p_errors sample_proc = []" by (simp_all add: sample_proc_def proc_new_def proc_fresh_def)
  moreover have "reg_procs (s_reg sys_init) = []" by (simp add: sys_init_def procs_new_def)
  ultimately show ?thesis
    using start_after_shutdown [of "Some sample_bus" 0 "''b''" _ "[]" sys_init sample_proc _ "plain_host reaping_kernel"]
      one_spec_accepted(2) unfolding one_spec_def by fastforce
qed

end
