(* ===== verification/Startup.thy ===== *)
theory Startup
  imports Program Races
begin

text \<open>
  The start of the program, \<open>main\<close> of \<open>src/main.rs\<close> from the command line to the point where its four
  parts of \<open>Program\<close> run, and what \<open>print\<close> and \<open>dump_file\<close> of \<open>src/res.rs\<close> do with a failed write.  An
  \<open>exit\<close> is a panic that has set \<open>ss_end\<close>, as in \<open>StartProcs\<close>.  The Url and logging libraries are not
  modelled; the agent's parameters are computed when its part runs first, after the start.
\<close>

section \<open>The start\<close>

text \<open>
  What is outside: the command line, what is read, the bus, what the tasks of the first processes do while
  the next ones are started, and what a later part is given.
\<close>

record 'k launch =
  la_given :: args
  la_stdin :: "(string, io_error) outcome"
  la_read :: "string \<Rightarrow> (string, io_error) outcome"
  la_json :: "string \<Rightarrow> (input, string) outcome"
  la_detected :: bool
  la_bus :: "('k systemd, zbus_error) outcome"
  la_stream_ok :: "signum \<Rightarrow> bool"
  la_seed :: nat
  la_polls :: "nat \<Rightarrow> 'k start_state \<Rightarrow> 'k start_state"
  la_host :: "'k host"
  la_services :: "'k services"
  la_env :: "(string \<times> string) list"
  la_codec :: codec
  la_output :: output_env
  la_uuid :: string
  la_process :: process_info

definition restrict_exe :: "args \<Rightarrow> 'k services \<Rightarrow> 'k services" where
  "restrict_exe a V = (case arg_restrict_exe a of Some e \<Rightarrow> V\<lparr>sv_restricted := Some e\<rparr> | None \<Rightarrow> V)"

definition log_level_of :: "args \<Rightarrow> (log_level, error) outcome" where
  "log_level_of a = (case arg_log_level a of Some l \<Rightarrow> unwrap (parse_log_level l) | None \<Rightarrow> Ok LWarn)"

fun install_all :: "(signum \<Rightarrow> bool) \<Rightarrow> (signum \<times> signal_style) list \<Rightarrow> (unit, error) outcome" where
  "install_all ok [] = Ok ()"
| "install_all ok ((signum, style) # rest) =
     and_then (install_signal_handler ok signum) (\<lambda>_. install_all ok rest)"

definition parse_args :: "'k launch \<Rightarrow> 'k start_state \<Rightarrow> (args, error) outcome \<times> 'k start_state" where
  "parse_args L s =
     (case snd (check_args (la_given L)) of
        Inl code \<Rightarrow> end_process (ExitCode code) s
      | Inr a \<Rightarrow> (Ok a, s))"

definition launch_systemd :: "'k launch \<Rightarrow> 'k systemd option" where
  "launch_systemd L = maybe_connect (la_detected L) (la_bus L)"

definition launch_input :: "'k launch \<Rightarrow> args \<Rightarrow> (input, error) outcome" where
  "launch_input L a = get_input a (la_stdin L) (la_read L) (la_json L)"

text \<open>The agent's part, when it first runs.  Without \<open>--agent\<close> the parameters are not used.\<close>

definition agent_setup :: "'k launch \<Rightarrow> args \<Rightarrow> 'k start_state \<Rightarrow> (connection \<times> connect_config, error) outcome \<times> 'k start_state" where
  "agent_setup L a s =
     (if \<not> arg_agent a then (Ok (connection_new '''' None None (la_uuid L) None (la_process L), connect_config_new), s)
      else case (agent_parameters a (la_env L) (la_uuid L) (sv_restricted (restrict_exe a (la_services L))) (la_process L)
            :: (int + connection \<times> connect_config, error) outcome) of
          Ok (Inl code) \<Rightarrow> end_process (ExitCode code) s
        | Ok (Inr x) \<Rightarrow> (Ok x, s)
        | _ \<Rightarrow> (Panic, s))"

definition setting_of :: "'k launch \<Rightarrow> args \<Rightarrow> connection \<times> connect_config \<Rightarrow> 'k setting" where
  "setting_of L a x =
     \<lparr>mc_args = a, mc_cfg = snd x, mc_conn = fst x, mc_env = la_env L, mc_codec = la_codec L, mc_host = la_host L,
      mc_systemd = launch_systemd L, mc_services = restrict_exe a (la_services L), mc_output = la_output L\<rparr>"

definition main_inputs :: "'k launch \<Rightarrow> args \<Rightarrow> (unit, error, 'k start_state) run" where
  "main_inputs L a =
     run_then (at_once (\<lambda>s. (log_level_of a, s))) (\<lambda>_.
     run_then (at_once (\<lambda>s. (install_all (la_stream_ok L) signal_handlers, s))) (\<lambda>_.
       start_input (la_polls L) (la_host L) (launch_systemd L) (restrict_exe a (la_services L)) (la_seed L) (launch_input L a)))"

definition main_startup :: "'k launch \<Rightarrow> ('k setting \<times> 'k program, error, 'k start_state) run" where
  "main_startup L =
     run_then (at_once (parse_args L)) (\<lambda>a.
     run_then (main_inputs L a) (\<lambda>_.
     run_then (at_once (agent_setup L a)) (\<lambda>x s.
       Some (Ok (setting_of L a x, main_start (setting_of L a x) s), s))))"

section \<open>What is written\<close>

text \<open>\<open>res::print\<close> unwraps the result of the write; \<open>res::dump_file\<close> creates the file, then writes.\<close>

definition res_print :: "(unit, io_error) outcome \<Rightarrow> (unit, io_error) outcome" where
  "res_print written = and_then (unwrap written) (\<lambda>_. Ok ())"

definition dump_file :: "(unit, io_error) outcome \<Rightarrow> (unit, io_error) outcome \<Rightarrow> (unit, io_error) outcome" where
  "dump_file created written = and_then created (\<lambda>_. and_then written (\<lambda>_. Ok ()))"

definition output_writes ::
  "(res \<Rightarrow> (unit, io_error) outcome) \<Rightarrow> (string \<Rightarrow> (unit, io_error) outcome) \<Rightarrow> (string \<Rightarrow> res \<Rightarrow> (unit, io_error) outcome) \<Rightarrow> output_env" where
  "output_writes to_stdout creates to_file =
     \<lparr>out_print = (\<lambda>r. res_print (to_stdout r)), out_dump = (\<lambda>path r. dump_file (creates path) (to_file path r))\<rparr>"

section \<open>The registrations of a whole batch\<close>

text \<open>
  While a later process of the batch is started, the tasks of the earlier ones may run.  \<open>polls_by R P\<close> says
  that what they do are steps of \<open>R\<close>.
\<close>

definition polled_step :: "'k host \<Rightarrow> 'k systemd option \<Rightarrow> sys \<Rightarrow> sys \<Rightarrow> bool" where
  "polled_step H S s t \<longleftrightarrow> (\<exists>a. task_step H S a s t) \<or> world_step s t"

definition calm_polled :: "'k host \<Rightarrow> 'k systemd option \<Rightarrow> sys \<Rightarrow> sys \<Rightarrow> bool" where
  "calm_polled H S s t \<longleftrightarrow> polled_step H S s t \<and> crash_free t"

definition polls_by :: "(sys \<Rightarrow> sys \<Rightarrow> bool) \<Rightarrow> (nat \<Rightarrow> 'k start_state \<Rightarrow> 'k start_state) \<Rightarrow> bool" where
  "polls_by R P \<longleftrightarrow>
     (\<forall>n s. R\<^sup>*\<^sup>* (ss_sys s) (ss_sys (P n s)) \<and> (\<exists>k. P n s = s\<lparr>ss_sys := ss_sys (P n s), ss_k := k\<rparr>))"

lemma polls_calm: "polls_by (calm_polled H S) P \<Longrightarrow> polls_by (polled_step H S) P"
proof -
  have "(polled_step H S)\<^sup>*\<^sup>* s t" if "(calm_polled H S)\<^sup>*\<^sup>* s t" for s t
    using that by (rule rtranclp_mono [THEN predicate2D, rotated]) (auto simp: calm_polled_def)
  then show "polls_by (calm_polled H S) P \<Longrightarrow> polls_by (polled_step H S) P" unfolding polls_by_def by blast
qed

inductive registers :: "(sys \<Rightarrow> sys \<Rightarrow> bool) \<Rightarrow> proc_id list \<Rightarrow> sys \<Rightarrow> sys \<Rightarrow> bool" for R where
  none: "registers R [] s s"
| one: "R\<^sup>*\<^sup>* s t \<Longrightarrow> proc_fresh p \<Longrightarrow> registers R is (spawn i p t) u \<Longrightarrow> registers R (i # is) s u"

lemma start_each_registers:
  assumes "start_each_polled P H S V n procs s = Some (Ok (), s')" "polls_by R P"
  shows "registers R (bt_keys procs) (ss_sys s) (ss_sys s')"
  using assms(1)
proof (induction procs arbitrary: s n)
  case Nil
  then show ?case by (simp add: ret_def bt_keys_def registers.none)
next
  case (Cons x procs)
  obtain i spec where x: "x = (i, spec)" by (cases x)
  let ?s = "if S = None then s else P n s"
  from Cons.prems obtain s1 where one: "start_one H S V i spec ?s = Some (Ok (), s1)"
      and rest: "start_each_polled P H S V (Suc n) procs s1 = Some (Ok (), s')"
    by (auto simp: x App.run_then_Ok)
  from registers_oneD [OF registers_one_start one] obtain p where p: "proc_fresh p" "ss_sys s1 = spawn i p (ss_sys ?s)" by auto
  have "R\<^sup>*\<^sup>* (ss_sys s) (ss_sys ?s)" using assms(2) by (simp add: polls_by_def)
  moreover have "registers R (bt_keys procs) (spawn i p (ss_sys ?s)) (ss_sys s')" using Cons.IH [OF rest] p(2) by simp
  ultimately show ?case using p(1) unfolding x bt_keys_def by (auto intro: registers.one)
qed

lemma start_procs_registers:
  assumes "start_procs_polled P H S V seed procs s = Some (Ok (), s')" "polls_by R P"
  shows "registers R (bt_keys procs) (ss_sys s) (ss_sys s')"
proof -
  from assms(1) obtain s1 where each: "start_each_polled P H S V 0 procs (s\<lparr>ss_pipes := []\<rparr>) = Some (Ok (), s1)" "ss_sys s' = ss_sys s1"
    unfolding start_procs_polled_def start_around_def
    by (auto simp: App.run_then_Ok ret_def panic_def with_pipes_def split: prod.splits if_splits)
  from start_each_registers [OF each(1) assms(2)] each(2) show ?thesis by simp
qed

text \<open>What the steps of tasks leave alone, and what a batch has registered in the end.\<close>

definition same_procs :: "sys \<Rightarrow> sys \<Rightarrow> bool" where
  "same_procs s t \<longleftrightarrow> reg_procs (s_reg t) = reg_procs (s_reg s) \<and> reg_shutdown (s_reg t) = reg_shutdown (s_reg s) \<and>
     reg_receivers (s_reg t) = reg_receivers (s_reg s) \<and> s_waiter t = s_waiter s"

lemma polled_same: "polled_step H S s t \<Longrightarrow> same_procs s t"
  unfolding polled_step_def
  by (auto elim!: task_step.cases world_step.cases
      simp: same_procs_def append_errors_def mark_reaped_def record_exit_def split: if_splits)

lemma polled_sys: "polled_step H S s t \<Longrightarrow> sys_step H S s t"
  by (auto simp: polled_step_def intro: sys_step.Task sys_step.World)

lemma polled_runs:
  assumes "(polled_step H S)\<^sup>*\<^sup>* s t"
  shows "(sys_step H S)\<^sup>*\<^sup>* s t" "same_procs s t"
proof -
  show "(sys_step H S)\<^sup>*\<^sup>* s t" using assms by (rule rtranclp_mono [THEN predicate2D, rotated]) (auto intro: polled_sys)
  show "same_procs s t" using assms by (induction rule: rtranclp_induct) (auto simp: same_procs_def dest!: polled_same)
qed

lemma spawn_fields:
  "reg_ids (s_reg (spawn i p s)) = insert i (reg_ids (s_reg s))" "reg_shutdown (s_reg (spawn i p s)) = reg_shutdown (s_reg s)"
  "reg_receivers (s_reg (spawn i p s)) = reg_receivers (s_reg s)" "s_waiter (spawn i p s) = s_waiter s"
  by (simp_all add: reg_ids_def get_proc_ids_def bt_keys_def spawn_def Let_def procs_insert_def set_bt_insert)

lemma registers_all:
  assumes "registers (polled_step H S) is s u"
  shows "(sys_step H S)\<^sup>*\<^sup>* s u" "reg_ids (s_reg u) = reg_ids (s_reg s) \<union> set is"
    "reg_shutdown (s_reg u) = reg_shutdown (s_reg s)" "s_waiter u = s_waiter s"
proof -
  have "(sys_step H S)\<^sup>*\<^sup>* s u \<and> reg_ids (s_reg u) = reg_ids (s_reg s) \<union> set is \<and>
      reg_shutdown (s_reg u) = reg_shutdown (s_reg s) \<and> s_waiter u = s_waiter s"
    using assms
  proof (induction rule: registers.induct)
    case (one s t p "is" i u)
    note r = polled_runs [OF one.hyps(1)]
    have "(sys_step H S)\<^sup>*\<^sup>* s (spawn i p t)" using r(1) sys_step.Spawn [OF one.hyps(2)] by (rule rtranclp.rtrancl_into_rtrancl)
    moreover have "reg_ids (s_reg t) = reg_ids (s_reg s)" using r(2) by (simp add: same_procs_def reg_ids_def get_proc_ids_def)
    ultimately show ?case using one.IH r(2) by (auto simp: spawn_fields same_procs_def)
  qed simp
  then show "(sys_step H S)\<^sup>*\<^sup>* s u" "reg_ids (s_reg u) = reg_ids (s_reg s) \<union> set is"
    "reg_shutdown (s_reg u) = reg_shutdown (s_reg s)" "s_waiter u = s_waiter s" by blast+
qed

lemma registers_ok:
  assumes "registers (calm_polled H S) is s u" "sys_ok s"
  shows "sys_ok u"
  using assms
proof (induction rule: registers.induct)
  case (one s t p "is" i u)
  have "sys_ok t" using one.hyps(1) one.prems
    by (induction rule: rtranclp_induct) (auto simp: calm_polled_def dest: sys_ok_step polled_sys)
  with one show ?case by (simp add: sys_ok_spawn proc_freshD)
qed simp

section \<open>The properties of the start\<close>

lemma log_level_fails: "log_level_of a \<noteq> Err e"
  by (auto simp: log_level_of_def parse_log_level_def split: option.splits)

lemma install_all_fails: "install_all ok hs \<noteq> Err e"
  by (induction ok hs rule: install_all.induct)
    (auto simp: install_signal_handler_def and_then_def unwrap_opt_def split: option.splits outcome.splits)

lemma main_inputs_Ok:
  assumes "main_inputs L a s = Some (Ok (), s')"
  obtains i where "launch_input L a = Ok i" "specs i = []" "s' = s"
  | i where "launch_input L a = Ok i" "specs i \<noteq> []"
      "start_procs_polled (la_polls L) (la_host L) (launch_systemd L) (restrict_exe a (la_services L)) (la_seed L) (specs i) s = Some (Ok (), s')"
proof -
  from assms have "start_input (la_polls L) (la_host L) (launch_systemd L) (restrict_exe a (la_services L)) (la_seed L) (launch_input L a) s = Some (Ok (), s')"
    by (auto simp: main_inputs_def App.run_then_Ok)
  then show thesis
    using that by (cases "launch_input L a")
      (auto simp: start_input_def end_process_def split: if_splits option.splits prod.splits outcome.splits)
qed

lemma main_startup_Ok:
  assumes "main_startup L s = Some (Ok (c, p), s')"
  obtains a x s1 where "snd (check_args (la_given L)) = Inr a" "main_inputs L a s = Some (Ok (), s1)"
    "agent_setup L a s1 = (Ok x, s')" "s' = s1" "c = setting_of L a x" "p = main_start c s1"
proof -
  from assms obtain a s0 s1 x where 1: "parse_args L s = (Ok a, s0)" "main_inputs L a s0 = Some (Ok (), s1)" "agent_setup L a s1 = (Ok x, s')"
      "c = setting_of L a x" "p = main_start c s'"
    by (auto simp: main_startup_def App.run_then_Ok)
  moreover have "s0 = s" "snd (check_args (la_given L)) = Inr a"
    using 1(1) by (auto simp: parse_args_def end_process_def split: sum.splits)
  moreover have "s' = s1" using 1(3) by (auto simp: agent_setup_def end_process_def split: if_splits outcome.splits sum.splits)
  ultimately show thesis using that by blast
qed

lemma waiter_fields: "new_waiter kind r = (w, r') \<Longrightarrow>
    reg_procs r' = reg_procs r \<and> reg_heap r' = reg_heap r \<and> reg_shutdown r' = reg_shutdown r"
  by (auto simp: new_waiter_def subscribe_def)

lemma exit_start_fields: "exit_start a r = (ex, r') \<Longrightarrow>
    reg_procs r' = reg_procs r \<and> reg_heap r' = reg_heap r \<and> reg_shutdown r' = reg_shutdown r"
  using waiter_fields [of WaitRunning r]
  by (cases "new_waiter WaitRunning r") (simp add: exit_start_def split: if_splits)

lemma idle_start_fields: "idle_start a r = (idle, r') \<Longrightarrow>
    reg_procs r' = reg_procs r \<and> reg_heap r' = reg_heap r \<and> reg_shutdown r' = reg_shutdown r"
  using waiter_fields [of WaitIdle r]
  by (cases "new_waiter WaitIdle r") (auto simp: idle_start_def subscribe_def split: if_splits)

lemma main_start_fields:
  "reg_procs (preg (main_start c s)) = reg_procs (server_reg s)" "reg_heap (preg (main_start c s)) = reg_heap (server_reg s)"
  "reg_shutdown (preg (main_start c s)) = reg_shutdown (server_reg s)"
  "pg_agent (main_start c s) = (if arg_agent (mc_args c) then Some (agent_new (mc_cfg c)) else None)"
  "pg_attempt (main_start c s) = None" "pg_out (main_start c s) = []"
proof -
  obtain ex r1 where 1: "exit_start (mc_args c) (server_reg s) = (ex, r1)" by (cases "exit_start (mc_args c) (server_reg s)")
  obtain idle r2 where 2: "idle_start (mc_args c) r1 = (idle, r2)" by (cases "idle_start (mc_args c) r1")
  note m = main_start_def 1 2 prod.case
  show "reg_procs (preg (main_start c s)) = reg_procs (server_reg s)" "reg_heap (preg (main_start c s)) = reg_heap (server_reg s)"
    "reg_shutdown (preg (main_start c s)) = reg_shutdown (server_reg s)"
    using exit_start_fields [OF 1] idle_start_fields [OF 2] by (simp_all add: m)
  show "pg_agent (main_start c s) = (if arg_agent (mc_args c) then Some (agent_new (mc_cfg c)) else None)"
    "pg_attempt (main_start c s) = None" "pg_out (main_start c s) = []"
    by (simp_all add: m)
qed

text \<open>The task system after the inputs.\<close>

lemma main_inputs_registers:
  assumes "main_inputs L a s = Some (Ok (), s')" "polls_by R (la_polls L)"
  obtains i where "launch_input L a = Ok i" "registers R (bt_keys (specs i)) (ss_sys s) (ss_sys s')"
proof (cases rule: main_inputs_Ok [OF assms(1)])
  case (1 i)
  then show thesis using that [of i] by (simp add: bt_keys_def registers.none)
next
  case (2 i)
  from start_procs_registers [OF 2(3) assms(2)] 2(1) that show thesis by blast
qed

lemma reach_run: "(sys_step H S)\<^sup>*\<^sup>* sys_init t \<Longrightarrow> sys_reach H S t"
  by (induction rule: rtranclp_induct) (auto intro: sys_reach.intros)

text \<open>
  C23 The given processes come before the services: when the start has succeeded on an empty registry, the
  processes of the input, and no others, are registered, also when, with systemd, the tasks of the first ones
  have run while the later ones were started; the registry is active and in a reachable state; the invariant of
  the program holds; and the children are started under the restriction of the command line.
\<close>

theorem inputs_before_services:
  assumes "main_startup L s = Some (Ok (c, p), s')" "ss_sys s = sys_init"
    and "polls_by (polled_step (la_host L) (launch_systemd L)) (la_polls L)"
  shows "\<exists>i. launch_input L (mc_args c) = Ok i \<and> reg_ids (preg p) = set (bt_keys (specs i)) \<and>
    reg_shutdown (preg p) = Active \<and> sys_reach (la_host L) (launch_systemd L) (ss_sys s') \<and>
    main_ok 0 p \<and> mc_services c = restrict_exe (mc_args c) (la_services L)"
proof -
  obtain a x s1 where m: "main_inputs L a s = Some (Ok (), s')" "c = setting_of L a x" "p = main_start c s'"
    by (rule main_startup_Ok [OF assms(1)]) auto
  obtain i where i: "launch_input L a = Ok i"
      "registers (polled_step (la_host L) (launch_systemd L)) (bt_keys (specs i)) sys_init (ss_sys s')"
    by (rule main_inputs_registers [OF m(1) assms(3)]) (simp add: assms(2))
  note r = registers_all [OF i(2)]
  have reach: "sys_reach (la_host L) (launch_systemd L) (ss_sys s')" by (rule reach_run [OF r(1)])
  have ok: "reg_ok (server_reg s')" using sys_reach_life [OF reach] by (simp add: life_inv_def server_reg_def)
  have "reg_ids (preg p) = set (bt_keys (specs i))" "reg_shutdown (preg p) = Active"
    using r(2,3) main_start_fields(1,3) [of c s']
    by (simp_all add: m(3) reg_ids_def get_proc_ids_def server_reg_def sys_init_def procs_new_def bt_keys_def)
  moreover have "main_ok 0 p" unfolding m(3) by (rule main_ok_start [OF ok])
  ultimately show ?thesis using i(1) reach by (simp add: m(2)) (simp add: setting_of_def)
qed

text \<open>
  An agent without the name of its server leaves its processes behind: the host name is only looked up
  when the agent's part runs, after the start, so that without \<open>--agent-host\<close> and without the
  environment variable the program ends with exit code 2 while the processes it was given are
  registered and running, neither signalled nor awaited.
\<close>

theorem no_host_strands:
  assumes "snd (check_args (la_given L)) = Inr a" "arg_agent a" "expand_hostname (la_env L) (arg_agent_host a) = None"
    and "launch_input L a = Ok i" "main_inputs L a s = Some (Ok (), s1)"
    and "polls_by (polled_step (la_host L) (launch_systemd L)) (la_polls L)"
  shows "\<exists>s'. main_startup L s = Some (Panic, s') \<and> ss_end s' = Some (ExitCode 2) \<and> ss_sys s' = ss_sys s1 \<and>
    set (bt_keys (specs i)) \<subseteq> reg_ids (server_reg s')"
proof -
  have "parse_args L s = (Ok a, s)" using assms(1) by (simp add: parse_args_def)
  moreover have "agent_setup L a s1 = (Panic, s1\<lparr>ss_end := Some (ExitCode 2)\<rparr>)"
    using assms(2,3) by (simp add: agent_setup_def agent_parameters_def end_process_def)
  ultimately have "main_startup L s = Some (Panic, s1\<lparr>ss_end := Some (ExitCode 2)\<rparr>)"
    using assms(5) by (simp add: main_startup_def)
  moreover obtain i' where i: "launch_input L a = Ok i'"
      "registers (polled_step (la_host L) (launch_systemd L)) (bt_keys (specs i')) (ss_sys s) (ss_sys s1)"
    by (rule main_inputs_registers [OF assms(5,6)])
  have "set (bt_keys (specs i)) \<subseteq> reg_ids (s_reg (ss_sys s1))" using registers_all(2) [OF i(2)] i(1) assms(4) by simp
  ultimately show ?thesis by (simp add: server_reg_def)
qed

text \<open>
  What ends the program before its services: nothing to do, a wrong command line, gives exit code 65,
  an input that cannot be read or parsed gives 2, in both cases before anything is started; an input
  that \<open>start_procs\<close> refuses or cannot start gives 65.
\<close>

theorem startup_exit_codes:
  "(snd (check_args (la_given L)) = Inl code \<longrightarrow>
      code = 65 \<and> main_startup L s = Some (Panic, s\<lparr>ss_end := Some (ExitCode 65)\<rparr>)) \<and>
   (snd (check_args (la_given L)) = Inr a \<longrightarrow> log_level_of a \<noteq> Panic \<longrightarrow> install_all (la_stream_ok L) signal_handlers = Ok () \<longrightarrow>
      (\<forall>e. launch_input L a = Err e \<longrightarrow> main_startup L s = Some (Panic, s\<lparr>ss_end := Some (ExitCode 2)\<rparr>)) \<and>
      (\<forall>i e s1. launch_input L a = Ok i \<longrightarrow> specs i \<noteq> [] \<longrightarrow>
         start_procs_polled (la_polls L) (la_host L) (launch_systemd L) (restrict_exe a (la_services L)) (la_seed L) (specs i) s = Some (Err e, s1) \<longrightarrow>
         main_startup L s = Some (Panic, s1\<lparr>ss_end := Some (ExitCode 65)\<rparr>)))"
proof (intro conjI impI allI)
  assume c: "snd (check_args (la_given L)) = Inl code"
  then show "code = 65" by (auto simp: check_args_def Let_def EX_DATAERR_def split: if_splits)
  with c show "main_startup L s = Some (Panic, s\<lparr>ss_end := Some (ExitCode 65)\<rparr>)"
    by (simp add: main_startup_def parse_args_def end_process_def)
next
  assume a: "snd (check_args (la_given L)) = Inr a" and l: "log_level_of a \<noteq> Panic"
    and h: "install_all (la_stream_ok L) signal_handlers = Ok ()"
  have p: "parse_args L s = (Ok a, s)" using a by (simp add: parse_args_def)
  obtain lv where lv: "log_level_of a = Ok lv" using l log_level_fails by (cases "log_level_of a") auto
  have "main_inputs L a s = start_input (la_polls L) (la_host L) (launch_systemd L) (restrict_exe a (la_services L)) (la_seed L) (launch_input L a) s"
    using lv h by (simp add: main_inputs_def)
  with p show "main_startup L s = Some (Panic, s\<lparr>ss_end := Some (ExitCode 2)\<rparr>)" if "launch_input L a = Err e" for e
    using that by (simp add: main_startup_def start_input_def end_process_def)
  show "main_startup L s = Some (Panic, s1\<lparr>ss_end := Some (ExitCode 65)\<rparr>)"
    if "launch_input L a = Ok i" "specs i \<noteq> []"
      "start_procs_polled (la_polls L) (la_host L) (launch_systemd L) (restrict_exe a (la_services L)) (la_seed L) (specs i) s = Some (Err e, s1)" for i e s1
    using that p \<open>main_inputs L a s = _\<close> by (simp add: main_startup_def start_input_def end_process_def EX_DATAERR_def)
qed

section \<open>A failed print\<close>

text \<open>
  A print that fails panics: with \<open>--exit\<close> and \<open>--print\<close>, when the results cannot be written to the
  standard output, the program does not end with the exit code 72 that \<open>main\<close> has for it but panics,
  since \<open>print\<close> unwraps the error; a dump that fails does end with 72, unless it comes after such a print.
\<close>

theorem print_failure_panics:
  assumes "arg_exit a" "must (collect_all H) s = Some (Ok result :: (res, error) outcome, s1)" "ss_end s1 = None"
  shows "(arg_print a \<longrightarrow> (\<exists>e. to_stdout result = Err e) \<longrightarrow>
      run_until_exit a H (output_writes to_stdout creates to_file) s = Some (Panic, s1)) \<and>
    (arg_output a = Some path \<longrightarrow> (\<exists>e. creates path = Err e \<or> creates path = Ok () \<and> to_file path result = Err e) \<longrightarrow>
      \<not> arg_print a \<or> to_stdout result = Ok () \<longrightarrow>
      run_until_exit a H (output_writes to_stdout creates to_file) s = Some (Panic, s1\<lparr>ss_end := Some (ExitCode 72)\<rparr>))"
proof (intro conjI impI)
  show "run_until_exit a H (output_writes to_stdout creates to_file) s = Some (Panic, s1)"
    if "arg_print a" "\<exists>e. to_stdout result = Err e"
    using that assms by (auto simp: run_until_exit_def output_writes_def write_output_def res_print_def)
  show "run_until_exit a H (output_writes to_stdout creates to_file) s = Some (Panic, s1\<lparr>ss_end := Some (ExitCode 72)\<rparr>)"
    if "arg_output a = Some path" "\<exists>e. creates path = Err e \<or> creates path = Ok () \<and> to_file path result = Err e"
      "\<not> arg_print a \<or> to_stdout result = Ok ()"
    using that assms
    by (auto simp: run_until_exit_def output_writes_def write_output_def res_print_def dump_file_def ret_def end_process_def EX_OSFILE_def)
qed

section \<open>The properties at a concrete launch\<close>

definition sample_launch :: "int launch" where
  "sample_launch = \<lparr>la_given = sample_args\<lparr>arg_input := Some ''in.json''\<rparr>, la_stdin = Err (OsError 5), la_read = (\<lambda>_. Ok ''{}''),
     la_json = (\<lambda>_. Ok (input_new\<lparr>specs := one_spec\<rparr>)), la_detected = False, la_bus = Panic, la_stream_ok = (\<lambda>_. True),
     la_seed = 0, la_polls = (\<lambda>_ s. s), la_host = plain_host counting_kernel, la_services = sample_services, la_env = [], la_codec = sample_codec,
     la_output = sample_output, la_uuid = ''u'', la_process = cn_proc sample_connection\<rparr>"

lemma sample_launch_simps [simp]:
  "la_given sample_launch = sample_args\<lparr>arg_input := Some ''in.json''\<rparr>" "la_read sample_launch = (\<lambda>_. Ok ''{}'')"
  "la_json sample_launch = (\<lambda>_. Ok (input_new\<lparr>specs := one_spec\<rparr>))" "launch_systemd sample_launch = None"
  "la_stream_ok sample_launch = (\<lambda>_. True)" "la_host sample_launch = plain_host counting_kernel"
  "la_services sample_launch = sample_services" "la_env sample_launch = []" "la_seed sample_launch = 0"
  "la_polls sample_launch = (\<lambda>_ s. s)"
  by (simp_all add: sample_launch_def launch_systemd_def maybe_connect_def)

lemma sample_args_simps [simp]:
  "arg_log_level sample_args = None" "arg_restrict_exe sample_args = None" "arg_agent sample_args = False"
  "arg_agent_host sample_args = None" "arg_exit sample_args" "arg_print sample_args"
  by (simp_all add: sample_args_def)

lemma sample_polls: "polls_by R (\<lambda>_ s. s)"
proof -
  have "\<exists>k. s = s\<lparr>ss_k := k\<rparr>" for s :: "'a start_state" by (rule exI [of _ "ss_k s"]) simp
  then show ?thesis by (auto simp: polls_by_def)
qed

lemma one_spec_some: "one_spec \<noteq> []"
  by (simp add: one_spec_def)

lemma install_all_sample: "install_all (\<lambda>_. True) signal_handlers = Ok ()"
  by code_simp

lemma sample_inputs:
  assumes "arg_log_level a = None" "arg_restrict_exe a = None" "arg_input a = Some ''in.json''"
  obtains s' where "main_inputs sample_launch a sample_start = Some (Ok (), s')" "procs_get (s_reg (ss_sys s')) ''b'' = Some 0"
proof -
  obtain s' where s': "start_procs (plain_host counting_kernel) None sample_services 0 one_spec sample_start = Some (Ok (), s')"
      "procs_get (s_reg (ss_sys s')) ''b'' = Some 0" by (rule one_spec_started)
  have "log_level_of a = Ok LWarn" "launch_input sample_launch a = Ok (input_new\<lparr>specs := one_spec\<rparr>)"
      "restrict_exe a (la_services sample_launch) = sample_services"
    using assms by (simp_all add: log_level_of_def launch_input_def get_input_def load_input_def restrict_exe_def)
  then have "main_inputs sample_launch a sample_start = Some (Ok (), s')"
    using s'(1) install_all_sample
    by (simp add: main_inputs_def start_input_def one_spec_some start_procs_unpolled)
  with s'(2) that show thesis by blast
qed

lemma sample_startup:
  assumes "arg_log_level a = None" "arg_restrict_exe a = None" "arg_input a = Some ''in.json''" "\<not> arg_agent a"
    and "snd (check_args a) = Inr a"
  obtains x s' where "main_startup (sample_launch\<lparr>la_given := a\<rparr>) sample_start =
      Some (Ok (setting_of sample_launch a x, main_start (setting_of sample_launch a x) s'), s')"
    "procs_get (s_reg (ss_sys s')) ''b'' = Some 0"
proof -
  let ?L = "sample_launch\<lparr>la_given := a\<rparr>"
  obtain s' where s': "main_inputs sample_launch a sample_start = Some (Ok (), s')" "procs_get (s_reg (ss_sys s')) ''b'' = Some 0"
    by (rule sample_inputs [OF assms(1-3)])
  then have "main_inputs ?L a sample_start = Some (Ok (), s')"
    by (simp add: main_inputs_def launch_systemd_def launch_input_def)
  moreover have "setting_of ?L a x = setting_of sample_launch a x" for x by (simp add: setting_of_def launch_systemd_def)
  ultimately have "\<exists>x. main_startup ?L sample_start =
      Some (Ok (setting_of sample_launch a x, main_start (setting_of sample_launch a x) s'), s')"
    using assms(4,5) by (auto simp: main_startup_def parse_args_def agent_setup_def)
  with s'(2) that show thesis by blast
qed

theorem inputs_before_services_witness:
  "\<exists>c p s'. main_startup sample_launch sample_start = Some (Ok (c, p), s') \<and> reg_ids (preg p) = {''b''} \<and> main_ok 0 p"
proof -
  let ?a = "sample_args\<lparr>arg_input := Some ''in.json''\<rparr>"
  have same: "sample_launch\<lparr>la_given := ?a\<rparr> = sample_launch" by (simp add: sample_launch_def)
  obtain x s' where m: "main_startup sample_launch sample_start =
      Some (Ok (setting_of sample_launch ?a x, main_start (setting_of sample_launch ?a x) s'), s')"
    by (rule sample_startup [of ?a, unfolded same]) (simp_all add: check_args_def Let_def)
  have "launch_input sample_launch ?a = Ok (input_new\<lparr>specs := one_spec\<rparr>)"
    by (simp add: launch_input_def get_input_def load_input_def)
  moreover have "mc_args (setting_of sample_launch ?a x) = ?a" by (simp add: setting_of_def)
  moreover have "ss_sys sample_start = sys_init" by (simp add: StartProcs.sample_start_def)
  then obtain i where "launch_input sample_launch (mc_args (setting_of sample_launch ?a x)) = Ok i"
      "reg_ids (preg (main_start (setting_of sample_launch ?a x) s')) = set (bt_keys (specs i))"
      "main_ok 0 (main_start (setting_of sample_launch ?a x) s')"
    using inputs_before_services [OF m] sample_polls by auto
  ultimately have "reg_ids (preg (main_start (setting_of sample_launch ?a x) s')) = {''b''}"
      "main_ok 0 (main_start (setting_of sample_launch ?a x) s')"
    by (auto simp: one_spec_def bt_keys_def)
  with m show ?thesis by blast
qed

theorem no_host_strands_witness:
  "\<exists>s'. main_startup (sample_launch\<lparr>la_given := sample_args\<lparr>arg_agent := True, arg_input := Some ''in.json''\<rparr>\<rparr>) sample_start = Some (Panic, s') \<and>
     ss_end s' = Some (ExitCode 2) \<and> ''b'' \<in> reg_ids (server_reg s')"
proof -
  let ?a = "sample_args\<lparr>arg_agent := True, arg_input := Some ''in.json''\<rparr>" let ?L = "sample_launch\<lparr>la_given := ?a\<rparr>"
  obtain s' where s': "main_inputs sample_launch ?a sample_start = Some (Ok (), s')"
    by (rule sample_inputs [of ?a]) simp_all
  then have in_ok: "main_inputs ?L ?a sample_start = Some (Ok (), s')"
    by (simp add: main_inputs_def launch_systemd_def launch_input_def)
  have "snd (check_args (la_given ?L)) = Inr ?a" by (simp add: check_args_def Let_def)
  moreover have "launch_input ?L ?a = Ok (input_new\<lparr>specs := one_spec\<rparr>)"
    by (simp add: launch_input_def get_input_def load_input_def)
  moreover have "arg_agent ?a" "expand_hostname (la_env ?L) (arg_agent_host ?a) = None"
    by (simp_all add: expand_hostname_def getenv_def)
  ultimately show ?thesis
    using no_host_strands [OF _ _ _ _ in_ok] sample_polls by (auto simp: one_spec_def bt_keys_def)
qed

theorem startup_exit_codes_witness:
  "main_startup (sample_launch\<lparr>la_json := (\<lambda>_. Err ''bad'')\<rparr>) sample_start = Some (Panic, sample_start\<lparr>ss_end := Some (ExitCode 2)\<rparr>)"
proof -
  let ?a = "sample_args\<lparr>arg_input := Some ''in.json''\<rparr>" let ?L = "sample_launch\<lparr>la_json := (\<lambda>_. Err ''bad'')\<rparr>"
  have "snd (check_args (la_given ?L)) = Inr ?a" by (simp add: check_args_def Let_def)
  moreover have "log_level_of ?a = Ok LWarn" by (simp add: log_level_of_def)
  moreover have "install_all (la_stream_ok ?L) signal_handlers = Ok ()" by (simp add: install_all_sample)
  moreover have "launch_input ?L ?a = Err (ErrJson ''bad'')"
    by (simp add: launch_input_def get_input_def load_input_def)
  ultimately show ?thesis using startup_exit_codes [of ?L 0 sample_start ?a] by simp
qed

theorem print_failure_panics_witness:
  "\<exists>s1. run_until_exit sample_args (plain_host reaping_kernel)
      (output_writes (\<lambda>_. Err (OsError 32)) (\<lambda>_. Ok ()) (\<lambda>_ _. Ok ())) sample_server = Some (Panic, s1) \<and> ss_end s1 = None"
proof -
  obtain res r k where c: "collect_results (plain_host reaping_kernel) (server_reg sample_server) () = Some (Ok res, r, k)"
    using sample_collect by blast
  let ?s1 = "(put_reg r sample_server)\<lparr>ss_k := k\<rparr>"
  have k: "ss_k sample_server = ()" by simp
  have "must (collect_all (plain_host reaping_kernel)) sample_server = Some (Ok res :: (res, error) outcome, ?s1)"
    using c k by (simp add: must_Ok collect_all_def)
  moreover have "ss_end ?s1 = None" by (simp add: put_reg_def sample_server_def)
  moreover have "arg_exit sample_args" "arg_print sample_args" by (simp_all add: sample_args_def)
  ultimately show ?thesis
    using print_failure_panics [of sample_args "plain_host reaping_kernel" sample_server res ?s1] by fastforce
qed

end
