(* ===== verification/Capture.thy ===== *)
theory Capture
  imports Proto
begin

text \<open>
  Reading a temp file while its process writes to it.  \<open>in_child\<close> of \<open>src/fd.rs\<close> gives the process a
  \<open>dup2\<close> of the descriptor that \<open>mkstemp\<close> opened before the fork: both refer to one open file description,
  with one position and without \<open>O_APPEND\<close>.  \<open>read_from_file\<close> of \<open>src/sys.rs\<close> moves that position, and the next
  write of the process goes to where the reading has left it.
\<close>

section \<open>One open file description\<close>

text \<open>A write at a position, over what is there and beyond the end; a gap is filled with zeros.\<close>

definition overwrite :: "byte list \<Rightarrow> nat \<Rightarrow> byte list \<Rightarrow> byte list" where
  "overwrite content p data =
     take p (content @ replicate (p - length content) 0) @ data @ drop (p + length data) content"

lemma overwrite_end [simp]: "overwrite content (length content) data = content @ data"
  by (simp add: overwrite_def)

lemma overwrite_inside: "p \<le> length content \<Longrightarrow> overwrite content p data = take p content @ data @ drop (p + length data) content"
  by (simp add: overwrite_def)

text \<open>The process writes through its own descriptor of the same description, all of its data at once.\<close>

definition writes_at :: "('k, 'z) kernel_scheme \<Rightarrow> fd_t \<Rightarrow> ('k \<Rightarrow> byte list) \<Rightarrow> ('k \<Rightarrow> nat) \<Rightarrow> bool" where
  "writes_at K fd content pos \<longleftrightarrow>
     (\<forall>data k. \<exists>e k'. libc_write K fd data k = (int (length data), e, k') \<and>
        content k' = overwrite (content k) (pos k) data \<and> pos k' = pos k + length data)"

definition written :: "('k, 'z) kernel_scheme \<Rightarrow> fd_t \<Rightarrow> byte list \<Rightarrow> 'k \<Rightarrow> 'k" where
  "written K fd data k = (case libc_write K fd data k of (_, _, k') \<Rightarrow> k')"

lemma written_file:
  assumes "writes_at K fd content pos"
  shows "content (written K fd data k) = overwrite (content k) (pos k) data" "pos (written K fd data k) = pos k + length data"
proof -
  from assms obtain e k' where "libc_write K fd data k = (int (length data), e, k')"
      "content k' = overwrite (content k) (pos k) data \<and> pos k' = pos k + length data"
    unfolding writes_at_def by blast
  then show "content (written K fd data k) = overwrite (content k) (pos k) data" "pos (written K fd data k) = pos k + length data"
    by (simp_all add: written_def)
qed

text \<open>As long as the process alone moves the position, its output is all there, in order.\<close>

lemma writes_append:
  assumes "writes_at K fd content pos" "pos k = length (content k)"
  shows "content (foldl (\<lambda>k data. written K fd data k) k outputs) = content k @ concat outputs \<and>
    pos (foldl (\<lambda>k data. written K fd data k) k outputs) = length (content k) + length (concat outputs)"
  using assms(2)
proof (induction outputs arbitrary: k)
  case (Cons data outputs)
  have w: "content (written K fd data k) = content k @ data" "pos (written K fd data k) = length (content k) + length data"
    using written_file [OF assms(1)] Cons.prems by simp_all
  from Cons.IH [of "written K fd data k"] w show ?case by simp
qed simp

section \<open>Reading in between\<close>

text \<open>
  C33 A read of a part of a running process's captured output damages the rest: after the server has read
  from a position to a stop inside the output, the next output of the process overwrites what it had
  written from the stop on, where after a read to the end, as for a result, it is appended.
\<close>

theorem capture_overwritten:
  assumes "file_kernel K file_fd content pos" "writes_at K fd content pos"
    and "\<forall>n. 0 < rd_size R n" "length (content k) < rd_fuel R" "length (content k) < 2 ^ 63"
    and "start \<le> stop" "unat stop \<le> length (content k)"
  shows "(\<exists>k'. get_data R K (HUnlinkedFile n file_fd enc att) start (Some stop) k =
        Some (Ok (Some \<lparr>fdd_data = take (unat stop - unat start) (drop (unat start) (content k)), fdd_encoding = enc\<rparr>), k') \<and>
      (\<forall>data. content (written K fd data k') =
        take (unat stop) (content k) @ data @ drop (unat stop + length data) (content k))) \<and>
    (\<exists>k'. get_data R K (HUnlinkedFile n file_fd enc att) start None k =
        Some (Ok (Some \<lparr>fdd_data = drop (unat start) (content k), fdd_encoding = enc\<rparr>), k') \<and>
      (\<forall>data. content (written K fd data k') = content k @ data))"
proof
  from read_from_file_range [OF assms(1,4-7)] obtain k' where
      "read_from_file R K file_fd start (Some stop) k = Some (Ok (take (unat stop - unat start) (drop (unat start) (content k))), k')"
      "content k' = content k" "pos k' = unat stop" by blast
  with assms(7) show "\<exists>k'. get_data R K (HUnlinkedFile n file_fd enc att) start (Some stop) k =
        Some (Ok (Some \<lparr>fdd_data = take (unat stop - unat start) (drop (unat start) (content k)), fdd_encoding = enc\<rparr>), k') \<and>
      (\<forall>data. content (written K fd data k') =
        take (unat stop) (content k) @ data @ drop (unat stop + length data) (content k))"
    by (intro exI [of _ k']) (simp add: written_file [OF assms(2)] overwrite_inside)
  have "unat start \<le> length (content k)" using assms(6,7) by (simp add: word_le_nat_alt)
  from read_from_file_end [OF assms(1,3-5) this] obtain k' where
      "read_from_file R K file_fd start None k = Some (Ok (drop (unat start) (content k)), k')"
      "content k' = content k" "pos k' = length (content k)" by blast
  then show "\<exists>k'. get_data R K (HUnlinkedFile n file_fd enc att) start None k =
        Some (Ok (Some \<lparr>fdd_data = drop (unat start) (content k), fdd_encoding = enc\<rparr>), k') \<and>
      (\<forall>data. content (written K fd data k') = content k @ data)"
    by (intro exI [of _ k']) (simp add: written_file [OF assms(2)])
qed

section \<open>The property at a concrete file\<close>

text \<open>The kernel state is the file with its position; reads give at most two bytes.\<close>

definition shared_kernel :: "(byte list \<times> nat) kernel" where
  "shared_kernel = null_kernel
     \<lparr>libc_lseek_set := (\<lambda>_ p (c, _). (p, 0, (c, nat p))),
      libc_read := (\<lambda>_ n (c, p). let data = take (min n 2) (drop p c) in (int (length data), 0, data, (c, p + length data))),
      libc_write := (\<lambda>_ data (c, p). (int (length data), 0, (overwrite c p data, p + length data)))\<rparr>"

lemma shared_kernel_file: "file_kernel shared_kernel 9 fst snd" "writes_at shared_kernel 1 fst snd"
  by (auto simp: file_kernel_def writes_at_def shared_kernel_def null_kernel_def Let_def take_min_drop)

theorem capture_overwritten_witness:
  "\<exists>k'. get_data \<lparr>rd_fuel = 6, rd_size = (\<lambda>_. 32)\<rparr> shared_kernel (HUnlinkedFile 1 9 None True) 1 (Some 3) ([104, 101, 108, 108, 111], 5) =
      Some (Ok (Some \<lparr>fdd_data = [101, 108], fdd_encoding = None\<rparr>), k') \<and>
     fst (written shared_kernel 1 [33] k') = [104, 101, 108, 33, 111]"
  using capture_overwritten [OF shared_kernel_file, of "\<lparr>rd_fuel = 6, rd_size = (\<lambda>_. 32)\<rparr>" "([104, 101, 108, 108, 111], 5)" 1 3 1 None True]
  by (force simp: word_le_nat_alt)

end
