(* ===== verification/ChildErrors.thy ===== *)
theory ChildErrors
  imports Registry
begin

text \<open>
  The way of a child's errors: what \<open>child_main\<close> of \<open>StartProcs\<close> writes to the error pipe of
  \<open>src/err_pipe.rs\<close> before it exits with status 63, and what the parent's reader makes of it.  The
  kernel delivers what is written; the descriptors of the spec are not those of the pipe.
\<close>

section \<open>The parent's side\<close>

text \<open>
  \<open>ErrorPipe::in_parent\<close>: the write end is closed, then frames are read to the end.  \<open>delivered\<close> is all
  that the pipe delivers, \<open>e\<close> the error of the read past it.
\<close>

definition error_in_parent ::
  "('k, 'z) kernel_scheme \<Rightarrow> (io_error \<Rightarrow> string) \<Rightarrow> io_error \<Rightarrow> byte list \<Rightarrow> error_pipe \<Rightarrow> 'k \<Rightarrow> (string list, error) outcome \<times> 'k" where
  "error_in_parent K io_fmt e delivered ep =
     bind (unwrapped (close K (write_fd ep))) (\<lambda>_. ret (get_errors io_fmt e delivered))"

text \<open>What a message becomes on the way: its bytes, read as UTF-8 with replacement.\<close>

definition received :: "string \<Rightarrow> string" where
  "received m = from_utf8_lossy (as_bytes m)"

lemma received_str: "is_str m \<Longrightarrow> received m = m"
  by (simp add: received_def lossy_as_bytes)

lemma error_frame_decode_any:
  "length m \<le> 65535 \<Longrightarrow> error_decode (error_frame m @ rest) = Some (received m, rest)"
  by (simp add: error_decode_def error_frame_def Let_def le_value_le_bytes received_def)

lemma get_errors_frames:
  assumes "\<forall>m \<in> set ms. length m \<le> 65535" "io_kind_of e = UnexpectedEof"
  shows "get_errors io_fmt e (concat (map error_frame ms)) = map received ms"
  using assms(1)
proof (induction ms)
  case Nil
  then show ?case using assms(2) by (simp add: get_errors.simps [of io_fmt e "[]"] error_decode_def error_tail_def)
next
  case (Cons m ms)
  then show ?case by (simp add: get_errors.simps [of io_fmt e "error_frame m @ _"] error_frame_decode_any)
qed

section \<open>The child's side\<close>

text \<open>
  A kernel whose pipe, written to through \<open>efd\<close>, has been sent \<open>sent\<close>; no other call of the child changes
  what has been sent.
\<close>

definition pipe_kernel :: "'k services \<Rightarrow> ('k, 'z) kernel_scheme \<Rightarrow> fd_t \<Rightarrow> ('k \<Rightarrow> byte list) \<Rightarrow> bool" where
  "pipe_kernel V K efd sent \<longleftrightarrow>
     (\<forall>data k. \<exists>e k'. libc_write K efd data k = (int (length data), e, k') \<and> sent k' = sent k @ data) \<and>
     (\<forall>fd k. sent (snd (snd (libc_close K fd k))) = sent k) \<and>
     (\<forall>fd fd2 k. sent (snd (snd (libc_dup2 K fd fd2 k))) = sent k) \<and>
     (\<forall>p f m k. sent (snd (snd (libc_open K p f m k))) = sent k) \<and>
     (\<forall>k. sent (snd (snd (libc_setsid K k))) = sent k) \<and>
     (\<forall>x a n k. sent (snd (snd (libc_execve K x a n k))) = sent k) \<and>
     (\<forall>ev k. sent (snd (sv_event_read V ev k)) = sent k)"

definition silent :: "('k \<Rightarrow> byte list) \<Rightarrow> ('k \<Rightarrow> 'r \<times> 'k) \<Rightarrow> bool" where
  "silent sent m \<longleftrightarrow> (\<forall>k. sent (snd (m k)) = sent k)"

lemma silentD: "silent sent m \<Longrightarrow> m k = (r, k') \<Longrightarrow> sent k' = sent k"
  by (metis silent_def snd_conv)

lemma silent_basic [intro]: "silent sent (ret x)" "silent sent (fail y)" "silent sent panic"
  by (simp_all add: silent_def)

lemma silent_bind [intro]: "silent sent m \<Longrightarrow> (\<And>x. silent sent (f x)) \<Longrightarrow> silent sent (bind m f)"
  by (auto simp: silent_def bind_def split: prod.splits outcome.splits) (metis snd_conv)+

lemma silent_lift [intro]: "silent sent m \<Longrightarrow> silent sent (lift_err f m)" "silent sent m \<Longrightarrow> silent sent (unwrapped m)"
  by (auto simp: silent_def lift_err_def unwrapped_def split: prod.splits) (metis snd_conv)+

lemma silent_if [intro]: "silent sent m \<Longrightarrow> silent sent m' \<Longrightarrow> silent sent (if b then m else m')"
  by simp

lemma silent_calls:
  assumes "pipe_kernel V K efd sent"
  shows "silent sent (close K fd)" "silent sent (dup2 K fd fd2)" "silent sent (sys_open K path oflags mode)"
    "silent sent (setsid K)" "silent sent (execve K x a n)" "silent sent (sv_event_read V ev)"
  using assms
  by (auto simp: silent_def pipe_kernel_def close_def dup2_def sys_open_def setsid_def execve_def Let_def
      split: prod.splits outcome.splits) (metis snd_conv)+

lemma silent_drop: "pipe_kernel V K efd sent \<Longrightarrow> sent (fd_handler_drop K h k) = sent k"
  using silent_calls(1) [of V K efd sent] by (cases h) (auto simp: silent_def)

lemma silent_in_child:
  assumes "pipe_kernel V K efd sent"
  shows "silent sent (in_child K h)"
proof -
  note calls = silent_calls [OF assms]
  have "silent sent (in_child_body K h)"
    by (cases h) (auto intro!: calls silent_bind silent_lift silent_if)
  then show ?thesis
    using silent_drop [OF assms] by (auto simp: silent_def in_child_def split: prod.splits) (metis snd_conv)
qed

lemma silent_pipes_close:
  assumes "pipe_kernel V K efd sent"
  shows "silent sent (pipes_close K pipes n)"
proof (induction pipes arbitrary: n)
  case (Cons p pipes)
  have "silent sent (close_opt K ofd n)" for ofd n
    using silent_calls(1) [OF assms] by (cases ofd) (auto simp: close_opt_def)
  with Cons show ?case by (cases p) (simp, intro silent_bind)
qed auto

section \<open>What is sent\<close>

text \<open>Messages that have been sent, all short enough for a frame.\<close>

definition sends :: "('k \<Rightarrow> byte list) \<Rightarrow> 'k \<Rightarrow> string list \<Rightarrow> 'k \<Rightarrow> bool" where
  "sends sent k ms k' \<longleftrightarrow> sent k' = sent k @ concat (map error_frame ms) \<and> (\<forall>m \<in> set ms. length m \<le> 65535)"

lemma sends_more: "sends sent k ms k1 \<Longrightarrow> sends sent k1 ns k2 \<Longrightarrow> sends sent k (ms @ ns) k2"
  by (auto simp: sends_def)

lemma fdio_write_pipe:
  assumes "pipe_kernel V K efd sent"
  shows "\<exists>k'. fdio_write K efd data k = (Ok (), k') \<and> sent k' = sent k @ data"
proof -
  from assms obtain e k' where "libc_write K efd data k = (int (length data), e, k')" "sent k' = sent k @ data"
    unfolding pipe_kernel_def by blast
  then show ?thesis by (simp add: fdio_write_def sys_write_def check_ret_def lift_err_def bind_def)
qed

lemma try_write_sends:
  assumes "pipe_kernel V K efd sent" "error_try_write K efd m k = (Ok u, k')"
  shows "sends sent k [m] k'"
proof -
  have len: "length m \<le> 65535" using assms(2)
    by (cases "length m \<le> 65535") (auto simp: error_try_write_def error_write_def Let_def)
  obtain k1 where 1: "fdio_write K efd (le_bytes 2 (length m)) k = (Ok (), k1)" "sent k1 = sent k @ le_bytes 2 (length m)"
    using fdio_write_pipe [OF assms(1)] by blast
  obtain k2 where 2: "fdio_write K efd (as_bytes m) k1 = (Ok (), k2)" "sent k2 = sent k1 @ as_bytes m"
    using fdio_write_pipe [OF assms(1)] by blast
  have "error_try_write K efd m k = (Ok (), k2)"
    using len 1(1) 2(1) by (simp add: error_try_write_def error_write_def Let_def bind_def)
  with assms(2) 1(2) 2(2) len show ?thesis by (simp add: sends_def error_frame_def)
qed

lemma attempt_sends:
  assumes "pipe_kernel V K efd sent" "silent sent m" "attempt K efd msg m ok k = (Ok ok', k')"
  shows "case fst (m k) of
      Ok _ \<Rightarrow> ok' = ok \<and> sends sent k [] k'
    | Err e \<Rightarrow> \<not> ok' \<and> sends sent k [msg e] k'
    | Panic \<Rightarrow> False"
proof (cases "m k")
  case (Pair r k1)
  have "sent k1 = sent k" using silentD [OF assms(2) Pair] .
  show ?thesis
  proof (cases r)
    case (Err e)
    with assms(3) Pair have ok: "\<not> ok'" and w: "\<exists>u. error_try_write K efd (msg e) k1 = (Ok u, k')"
      by (auto simp: attempt_def bind_Ok)
    then have "sends sent k1 [msg e] k'" using try_write_sends [OF assms(1)] by blast
    then have "sends sent k [msg e] k'" using \<open>sent k1 = sent k\<close> by (simp add: sends_def)
    with ok Pair Err show ?thesis by simp
  qed (use assms(3) Pair \<open>sent k1 = sent k\<close> in \<open>auto simp: attempt_def sends_def\<close>)
qed

text \<open>A stage of the child: it sends no message exactly as long as it succeeds.\<close>

definition stage :: "('k \<Rightarrow> byte list) \<Rightarrow> bool \<Rightarrow> 'k \<Rightarrow> bool \<Rightarrow> 'k \<Rightarrow> string list \<Rightarrow> bool" where
  "stage sent ok k ok' k' ms \<longleftrightarrow> sends sent k ms k' \<and> ok' = (ok \<and> ms = [])"

lemma attempt_stage:
  assumes "pipe_kernel V K efd sent" "silent sent m" "attempt K efd msg m ok k = (Ok ok', k')"
  shows "\<exists>ms. stage sent ok k ok' k' ms"
proof (cases "fst (m k)")
  case (Ok x)
  with attempt_sends [OF assms] show ?thesis by (auto simp: stage_def intro: exI [of _ "[]"])
next
  case (Err e)
  with attempt_sends [OF assms] show ?thesis by (auto simp: stage_def intro: exI [of _ "[msg e]"])
qed (use attempt_sends [OF assms] in simp)

lemma stage_then: "stage sent ok k ok1 k1 ms \<Longrightarrow> stage sent ok1 k1 ok2 k2 ns \<Longrightarrow> stage sent ok k ok2 k2 (ms @ ns)"
  by (auto simp: stage_def intro: sends_more)

lemma stage_silent: "stage sent ok k ok1 k1 ms \<Longrightarrow> sent k2 = sent k1 \<Longrightarrow> stage sent ok k ok1 k2 ms"
  by (simp add: stage_def sends_def)

lemma attach_all_stage:
  assumes "pipe_kernel V K efd sent"
  shows "attach_all K efd fmt hs ok k = (Ok ok', k') \<Longrightarrow> \<exists>ms. stage sent ok k ok' k' ms"
proof (induction hs arbitrary: ok k)
  case Nil
  then show ?case by (auto simp: stage_def sends_def intro: exI [of _ "[]"])
next
  case (Cons x hs)
  obtain fd h where x: "x = (fd, h)" by (cases x)
  from Cons.prems x obtain ok1 k1 where
      a: "attempt K efd (\<lambda>e. ''failed to set up fd '' @ show_int fd @ '': '' @ fmt e) (in_child K h) ok k = (Ok ok1, k1)"
      and r: "attach_all K efd fmt hs ok1 k1 = (Ok ok', k')"
    by (auto simp: bind_Ok)
  from attempt_stage [OF assms silent_in_child [OF assms] a] Cons.IH [OF r] show ?case
    by (blast intro: stage_then)
qed

lemma execve_fails: "fst (execve K x a n k) \<noteq> Ok u"
  by (simp add: execve_def Let_def split: prod.splits)

lemma child_exec_sends:
  assumes "pipe_kernel V K efd sent" "child_exec K efd io_fmt x a n k = (Ok e, k')"
  shows "\<exists>ms. sends sent k ms k' \<and> (ms = [] \<longleftrightarrow> e \<noteq> ExitCode 63)"
proof (cases "e = ExitCode 63")
  case True
  with assms(2) obtain ok' where "attempt K efd (\<lambda>e. ''execve failed: '' @ x @ '': '' @ io_fmt e) (execve K x a n) True k = (Ok ok', k')"
    by (auto simp: child_exec_def Let_def bind_Ok split: if_splits)
  from attempt_sends [OF assms(1) silent_calls(5) [OF assms(1)] this] execve_fails [of K x a n k] True show ?thesis
    by (cases "fst (execve K x a n k)") auto
next
  case False
  with assms(2) have "k' = k" by (auto simp: child_exec_def Let_def bind_Ok split: if_splits)
  with False show ?thesis by (auto simp: sends_def intro: exI [of _ "[]"])
qed

lemma silent_restricted: "silent sent (restricted_check r x)"
  by (auto simp: restricted_check_def split: option.split)

text \<open>The first message of a child whose executable is not the restricted one says so.\<close>

lemma restricted_first:
  assumes "pipe_kernel V K efd sent" "sv_restricted V = Some r" "r \<noteq> x"
    and "attempt K efd id (restricted_check (sv_restricted V) x) True k = (Ok ok, k')"
  shows "stage sent True k ok k' [''restricted executable: '' @ r]"
  using attempt_sends [OF assms(1) silent_restricted assms(4)] assms(2,3)
  by (simp add: restricted_check_def stage_def)

text \<open>
  C8 The parent learns why a child did not run its program: when the child ends without a panic, what the
  parent's reader returns is the child's messages in order; there is none if the program was executed
  and at least one if the child exits with status 63, so that a process that was not set up as asked is
  never shown as one that ran; and an executable that is not the restricted one is the first to be
  reported.
\<close>

theorem child_errors_reported:
  assumes "pipe_kernel V K (write_fd ep) sent" "child_main V K ep ev handlers pipes exe_path args env_vars k = (Ok e, k')"
    and "sent k = []" "io_kind_of eof = UnexpectedEof" "close KP (write_fd ep) kp = (Ok (), kp')"
  shows "\<exists>ms. error_in_parent KP io_fmt eof (sent k') ep kp = (Ok (map received ms), kp') \<and>
    (ms = [] \<longleftrightarrow> e \<noteq> ExitCode 63) \<and>
    (\<forall>r. sv_restricted V = Some r \<longrightarrow> r \<noteq> exe_path \<longrightarrow> ms \<noteq> [] \<and> hd ms = ''restricted executable: '' @ r)"
proof -
  let ?efd = "write_fd ep"
  from assms(2) [unfolded child_main_def bind_Ok unwrapped_Ok] obtain u k1 ok0 ka ok1 k2 n k3 ok2 k4 ok3 k5 where
      c: "close K (read_fd ep) k = (Ok u, k1)"
      and r: "attempt K ?efd id (restricted_check (sv_restricted V) exe_path) True k1 = (Ok ok0, ka)"
      and a: "attach_all K ?efd (err_text V) handlers ok0 ka = (Ok ok1, k2)"
      and p: "pipes_close K pipes 0 k2 = (Ok n, k3)"
      and s: "attempt K ?efd (\<lambda>e. ''setsid failed: '' @ sv_io_fmt V e) (setsid K) ok1 k3 = (Ok ok2, k4)"
      and v: "attempt K ?efd (\<lambda>e. ''read eventfd failed: '' @ e) (sv_event_read V ev) ok2 k4 = (Ok ok3, k5)"
      and x: "(if ok3 then child_exec K ?efd (sv_io_fmt V) exe_path args env_vars else ret (ExitCode 63)) k5 = (Ok e, k')"
    by blast
  note calls = silent_calls [OF assms(1)]
  have k1: "sent k1 = []" using silentD [OF calls(1) c] assms(3) by simp
  obtain m0 where m0: "stage sent True k1 ok0 ka m0"
      "\<forall>r. sv_restricted V = Some r \<longrightarrow> r \<noteq> exe_path \<longrightarrow> m0 = [''restricted executable: '' @ r]"
    using attempt_stage [OF assms(1) silent_restricted r] restricted_first [OF assms(1) _ _ r]
    by (cases "sv_restricted V") auto
  obtain m1 where m1: "stage sent ok0 ka ok1 k2 m1" using attach_all_stage [OF assms(1) a] by blast
  have m1': "stage sent ok0 ka ok1 k3 m1" using stage_silent [OF m1 silentD [OF silent_pipes_close [OF assms(1)] p]] .
  obtain m2 where m2: "stage sent ok1 k3 ok2 k4 m2" using attempt_stage [OF assms(1) calls(4) s] by blast
  obtain m3 where m3: "stage sent ok2 k4 ok3 k5 m3" using attempt_stage [OF assms(1) calls(6) v] by blast
  have all: "stage sent True k1 ok3 k5 (m0 @ m1 @ m2 @ m3)"
    using stage_then [OF m0(1) stage_then [OF m1' stage_then [OF m2 m3]]] .
  obtain m4 where m4: "sends sent k5 m4 k'" "m0 @ m1 @ m2 @ m3 @ m4 = [] \<longleftrightarrow> e \<noteq> ExitCode 63"
  proof (cases ok3)
    case True
    with x have "child_exec K ?efd (sv_io_fmt V) exe_path args env_vars k5 = (Ok e, k')" by simp
    from child_exec_sends [OF assms(1) this] obtain ms where "sends sent k5 ms k'" "ms = [] \<longleftrightarrow> e \<noteq> ExitCode 63" by blast
    with True all that [of ms] show thesis by (simp add: stage_def)
  next
    case False
    with x have "e = ExitCode 63" "k' = k5" by simp_all
    with False all that [of "[]"] show thesis by (auto simp: stage_def sends_def)
  qed
  let ?ms = "m0 @ m1 @ m2 @ m3 @ m4"
  have "sends sent k1 ?ms k'" using sends_more [of sent k1 "m0 @ m1 @ m2 @ m3" k5 m4 k'] all m4(1) by (simp add: stage_def)
  then have "get_errors io_fmt eof (sent k') = map received ?ms"
    using get_errors_frames [OF _ assms(4), of ?ms] k1 by (simp add: sends_def)
  then show ?thesis
    using assms(5) m0(2) m4(2) by (intro exI [of _ ?ms]) (auto simp: error_in_parent_def bind_def unwrapped_def)
qed

section \<open>The property at a concrete child\<close>

text \<open>The kernel state is what has been sent; there is no program to execute.\<close>

definition sending_kernel :: "byte list kernel" where
  "sending_kernel = null_kernel
     \<lparr>libc_write := (\<lambda>_ data k. (int (length data), 0, k @ data)), libc_close := (\<lambda>_ k. (0, 0, k)), libc_setsid := (\<lambda>k. (5, 0, k))\<rparr>"

definition sending_services :: "byte list services" where
  "sending_services = \<lparr>sv_event_new = (\<lambda>k. (Ok 3, k)), sv_event_read = (\<lambda>_ k. (Ok (), k)), sv_event_write = (\<lambda>_ k. (Ok (), k)),
     sv_env = [], sv_uuid = (\<lambda>_. ''u''), sv_io_fmt = (\<lambda>_. ''not found''), sv_dbg = (\<lambda>_. ''''), sv_restricted = Some ''/bin/sh''\<rparr>"

lemma sending_kernel_pipe: "pipe_kernel sending_services sending_kernel 4 id"
  by (simp add: pipe_kernel_def sending_kernel_def sending_services_def null_kernel_def)

theorem child_errors_reported_witness:
  "\<exists>k' ms. child_main sending_services sending_kernel \<lparr>read_fd = 3, write_fd = 4\<rparr> 5 [] [] ''/bin/cat'' [''cat''] [] [] = (Ok (ExitCode 63), k') \<and>
     error_in_parent sending_kernel (\<lambda>_. ''eof'') (CustomError UnexpectedEof ''early eof'') k' \<lparr>read_fd = 3, write_fd = 4\<rparr> [] =
       (Ok (map received ms), []) \<and> ms \<noteq> [] \<and> hd ms = ''restricted executable: /bin/sh''"
proof -
  let ?ep = "\<lparr>read_fd = 3, write_fd = 4\<rparr>" let ?m = "''restricted executable: /bin/sh''"
  have w: "fdio_write sending_kernel 4 data k = (Ok (), k @ data)" for data k
    by (simp add: fdio_write_def sys_write_def sending_kernel_def check_ret_def lift_err_def bind_def)
  have c: "close sending_kernel fd k = (Ok (), k)" for fd k by (simp add: close_def sending_kernel_def check_ret_def)
  have t: "error_try_write sending_kernel 4 ?m k = (Ok (), k @ error_frame ?m)" for k
    by (simp add: error_try_write_def error_write_def Let_def bind_def w error_frame_def)
  have s: "setsid sending_kernel k = (Ok 5, k)" for k by (simp add: setsid_def sending_kernel_def check_ret_def)
  have run: "child_main sending_services sending_kernel ?ep 5 [] [] ''/bin/cat'' [''cat''] [] [] = (Ok (ExitCode 63), error_frame ?m)"
    using t by (simp add: child_main_def bind_def unwrapped_def c attempt_def restricted_check_def sending_services_def s)
  have "pipe_kernel sending_services sending_kernel (write_fd ?ep) id" "close sending_kernel (write_fd ?ep) [] = (Ok (), [])"
      "io_kind_of (CustomError UnexpectedEof ''early eof'') = UnexpectedEof"
    using sending_kernel_pipe c by simp_all
  from child_errors_reported [OF this(1) run _ this(3,2), of "\<lambda>_. ''eof''"] obtain ms where ms:
      "error_in_parent sending_kernel (\<lambda>_. ''eof'') (CustomError UnexpectedEof ''early eof'') (error_frame ?m) ?ep [] = (Ok (map received ms), [])"
      "\<forall>r. sv_restricted sending_services = Some r \<longrightarrow> r \<noteq> ''/bin/cat'' \<longrightarrow> ms \<noteq> [] \<and> hd ms = ''restricted executable: '' @ r"
    by auto
  from ms(2) have "ms \<noteq> []" "hd ms = ?m" by (simp_all add: sending_services_def)
  with ms(1) run show ?thesis by blast
qed

end
