(* ===== verification/Whole.thy ===== *)
theory Whole
  imports Startup
begin

text \<open>
  The whole program as one run of the task system.  \<open>Tasks\<close> gives what the tasks of the processes do,
  \<open>Program\<close> what the four parts of \<open>main\<close> do, \<open>Http\<close> and \<open>Agent\<close> what requests do, \<open>Startup\<close> what comes
  before.  Here their steps interleave on one state, and every one of them is a run of \<open>sys_step\<close>; by the
  locale \<open>simulation\<close> everything that \<open>Tasks\<close> and \<open>Lifecycle\<close> show of the reachable states of the task
  system holds in every state of the program.  The waits of \<open>--exit\<close> and \<open>--wait\<close> are in the phases of
  these parts, so that the waiter of the task system is not used.
\<close>

section \<open>The steps of the program\<close>

text \<open>The events \<open>World\<close> and \<open>ProcChanges\<close> of \<open>Program\<close> stood for all steps that are not the parts' own.\<close>

abbreviation psys :: "'k program \<Rightarrow> sys" where
  "psys p \<equiv> ss_sys (pg_server p)"

inductive program_step :: "http_env \<Rightarrow> 'k setting \<Rightarrow> 'k program \<Rightarrow> 'k program \<Rightarrow> bool" for E c where
  Part: "part_event ev \<Longrightarrow> main_step c ev p = Some (Ok q) \<Longrightarrow> program_step E c p q"
| Request: "pg_http p \<Longrightarrow>
    dispatch E (mc_host c) (mc_systemd c) (mc_services c) seed req (pg_server p) = Some (rsp, s') \<Longrightarrow> ss_end s' = None \<Longrightarrow>
    program_step E c p (p\<lparr>pg_server := s'\<rparr>)"
| Other: "sys_step (mc_host c) (mc_systemd c) (psys p) t \<Longrightarrow> s_waiter t = None \<Longrightarrow>
    program_step E c p (p\<lparr>pg_server := (pg_server p)\<lparr>ss_sys := t\<rparr>\<rparr>)"

section \<open>Runs of the task system\<close>

text \<open>
  A run of the task system that leaves its waiter unused; and one that, being of operations on the registry
  only, lets no task crash.
\<close>

definition moved :: "'k host \<Rightarrow> 'k systemd option \<Rightarrow> sys \<Rightarrow> sys \<Rightarrow> bool" where
  "moved H S s t \<longleftrightarrow> s_waiter s = None \<longrightarrow> (sys_step H S)\<^sup>*\<^sup>* s t \<and> s_waiter t = None"

definition moves :: "'k host \<Rightarrow> 'k systemd option \<Rightarrow> sys \<Rightarrow> sys \<Rightarrow> bool" where
  "moves H S s t \<longleftrightarrow> s_waiter s = None \<longrightarrow> (sys_step H S)\<^sup>*\<^sup>* s t \<and> s_waiter t = None \<and> (sys_ok s \<longrightarrow> sys_ok t)"

lemma moves_moved: "moves H S s t \<Longrightarrow> moved H S s t"
  by (simp add: moves_def moved_def)

lemma moved_trans: "moved H S s t \<Longrightarrow> moved H S t u \<Longrightarrow> moved H S s u"
  by (auto simp: moved_def)

lemma moves_refl [simp]: "moves H S s s"
  by (simp add: moves_def)

lemma moves_trans: "moves H S s t \<Longrightarrow> moves H S t u \<Longrightarrow> moves H S s u"
  by (auto simp: moves_def)

lemma crash_free_set_reg [simp]: "crash_free (set_reg r s) = crash_free s"
  by (simp add: crash_free_def)

lemma sys_ok_free: "sys_ok s \<Longrightarrow> crash_free s"
  by (simp add: sys_ok_def)

lemma moves_set: "sys_step H S s (set_reg r s) \<Longrightarrow> moves H S s (set_reg r s)"
  using sys_ok_step [of "set_reg r s" s H S] sys_ok_free [of s] by (auto simp: moves_def)

lemma moves_spawn: "proc_fresh p \<Longrightarrow> moves H S s (spawn i p s)"
  by (auto simp: moves_def spawn_fields proc_freshD intro: sys_step.Spawn sys_ok_spawn)

lemma moves_serve: "serve_step\<^sup>*\<^sup>* s t \<Longrightarrow> moves H S s t"
proof (induction rule: rtranclp_induct)
  case (step t u)
  from step.hyps(2) have "moves H S t u"
    by cases (auto intro: moves_spawn moves_set sys_step.Removed)
  with step.IH show ?case by (rule moves_trans)
qed simp

lemma moves_unsubscribe: "moves H S s (set_reg (unsubscribe (s_reg s)) s)"
proof (cases "reg_receivers (s_reg s) = 0 \<or> s_waiter s \<noteq> None")
  case True
  then show ?thesis
  proof
    assume "reg_receivers (s_reg s) = 0"
    then have "set_reg (unsubscribe (s_reg s)) s = s" by (simp add: unsubscribe_def set_reg_def)
    then show ?thesis by simp
  qed (auto simp: moves_def)
next
  case False
  then show ?thesis by (intro moves_set sys_step.Unsubscribed) simp
qed

lemma moves_subscribe: "subscribe (s_reg s) = (pos, r) \<Longrightarrow> moves H S s (set_reg r s)"
  by (rule moves_set) (metis sys_step.Subscribed snd_conv)

lemma moves_shutdown: "moves H S s (set_reg (set_shutdown st (s_reg s)) s)"
  by (rule moves_set [OF sys_step.Shutdown])

lemma sys_put [simp]: "ss_sys (put_reg r s) = set_reg r (ss_sys s)"
  by (simp add: put_reg_def)

lemma sys_set_preg [simp]: "psys (set_preg r p) = set_reg r (psys p)"
  by (simp add: set_preg_def)

lemma set_set [simp]: "set_reg r' (set_reg r s) = set_reg r' s" "set_reg (s_reg s) s = s"
  by (simp_all add: set_reg_def)


section \<open>Every part is such a run\<close>

lemma run_until_exit_moves:
  assumes "run_until_exit a H W s = Some (Ok outs, s')"
  shows "moves H S (ss_sys s) (ss_sys s')"
proof (cases "arg_exit a")
  case True
  show ?thesis
  proof (rule run_until_exit_parts [OF True assms])
    fix res r k assume c: "collect_results H (server_reg s) (ss_k s) = Some (Ok res, r, k)"
      and s': "s' = (put_reg (set_shutdown Done r) s)\<lparr>ss_k := k\<rparr>"
    from c have "moves H S (ss_sys s) (set_reg r (ss_sys s))"
      unfolding server_reg_def by (intro moves_set sys_step.Collected)
    with moves_shutdown [of H S "set_reg r (ss_sys s)" Done] show ?thesis by (auto simp: s' intro: moves_trans)
  qed
qed (use assms in \<open>simp add: run_until_exit_def ret_def\<close>)

lemma exit_finish_moves:
  assumes "exit_finish c p = Some (Ok q)"
  shows "moves (mc_host c) (mc_systemd c) (psys p) (psys q)"
proof -
  from assms obtain outs where
    "run_until_exit (mc_args c) (mc_host c) (mc_output c) (put_reg (unsubscribe (preg p)) (pg_server p)) = Some (Ok outs, pg_server q)"
    by (auto simp: exit_finish_def ended_def split: option.splits prod.splits outcome.splits)
  from run_until_exit_moves [OF this] have "moves (mc_host c) (mc_systemd c) (set_reg (unsubscribe (preg p)) (psys p)) (psys q)" by simp
  with moves_unsubscribe [of _ _ "psys p"] show ?thesis by (auto simp: server_reg_def intro: moves_trans)
qed

lemma exit_moves:
  "exit_wait c p = Some (Ok q) \<Longrightarrow> moves (mc_host c) (mc_systemd c) (psys p) (psys q)"
  "exit_shutdown c p = Some (Ok q) \<Longrightarrow> moves (mc_host c) (mc_systemd c) (psys p) (psys q)"
  by (auto simp: exit_wait_def exit_shutdown_def split: exit_phase.splits wait_progress.splits if_splits intro: exit_finish_moves)

lemma idle_finish_moves:
  "idle_finish p = Some (Ok q) \<Longrightarrow> moves H S (psys p) (psys q)"
  using moves_trans [OF moves_unsubscribe moves_shutdown, of H S "psys p"] by (auto simp: idle_finish_def server_reg_def)

lemma first_assignment_moves:
  assumes "wait_for_first_assignment pos p = Some (Ok q)"
  shows "moves H S (psys p) (psys q)"
proof -
  let ?s = "set_reg (unsubscribe (preg p)) (psys p)"
  obtain n r where r: "subscribe (s_reg ?s) = (n, r)" by (cases "subscribe (s_reg ?s)")
  have "moves H S (psys p) (set_reg r ?s)"
    using moves_trans [OF moves_unsubscribe [of H S "psys p"], folded server_reg_def] moves_subscribe [OF r] by blast
  with r assms show ?thesis
    by (auto simp: wait_for_first_assignment_def new_waiter_def split: option.splits prod.splits outcome.splits notification.splits)
qed

lemma idle_moves:
  "idle_wait p = Some (Ok q) \<Longrightarrow> moves H S (psys p) (psys q)"
  "idle_timeout p = Some (Ok q) \<Longrightarrow> moves H S (psys p) (psys q)"
  "idle_shutdown p = Some (Ok q) \<Longrightarrow> moves H S (psys p) (psys q)"
proof -
  show "idle_wait p = Some (Ok q) \<Longrightarrow> moves H S (psys p) (psys q)"
    by (auto simp: idle_wait_def split: idle_phase.splits wait_progress.splits intro: idle_finish_moves first_assignment_moves)
  show "idle_timeout p = Some (Ok q) \<Longrightarrow> moves H S (psys p) (psys q)"
    by (auto simp: idle_timeout_def split: idle_phase.splits intro: idle_finish_moves)
  show "idle_shutdown p = Some (Ok q) \<Longrightarrow> moves H S (psys p) (psys q)"
    using moves_unsubscribe [of H S "psys p"]
    by (auto simp: idle_shutdown_def server_reg_def split: if_splits idle_phase.splits intro: idle_finish_moves)
qed

lemma agent_go_moves: "agent_go c p = Some (Ok q) \<Longrightarrow> moves H S (psys p) (psys q)"
  using moves_subscribe [of "psys p" _ _ H S]
  by (auto simp: agent_go_def agent_connected_def server_reg_def Let_def
      split: option.splits outcome.splits prod.splits agent_phase.splits)

lemma agent_try_moves: "agent_try c ev p = Some (Ok q) \<Longrightarrow> moves H S (psys p) (psys q)"
  by (auto simp: agent_try_def split: option.splits if_splits)

lemma notification_moves: "notification_to_message H noti s = Some (msg, s') \<Longrightarrow> ss_sys s' = ss_sys s"
  by (cases noti)
    (auto simp: result_message_def run_then_def must_def run_k_def ret_def
      split: option.splits prod.splits outcome.splits if_splits)

lemma turn_end_moves: "turn_end leave a s = (r, s') \<Longrightarrow> moves H S (ss_sys s) (ss_sys s')"
  using moves_unsubscribe [of H S "ss_sys s"] by (auto simp: turn_end_def agent_leave_def server_reg_def split: if_splits)

lemma agent_turn_moves:
  assumes "agent_turn c seed ev p = Some (Ok q)"
  shows "moves (mc_host c) (mc_systemd c) (psys p) (psys q)"
proof -
  let ?H = "mc_host c" let ?S = "mc_systemd c"
  from assms obtain a a' where step:
      "online_step (mc_codec c) ?H ?S (mc_services c) seed ev a (pg_server p) = Some (Ok a', pg_server q)"
    by (auto simp: agent_turn_def ended_def split: option.splits if_splits prod.splits outcome.splits)
  then obtain b leave s1 where fst: "(case ev of PingTick res \<Rightarrow> at_once (ret (a, \<not> sent res))
        | Received item res \<Rightarrow> run_then (on_stream (mc_codec c) ?H ?S (mc_services c) seed item res) (\<lambda>leave. at_once (ret (a, leave)))
        | Notified \<Rightarrow> run_then (on_notification ?H a) (\<lambda>(a', _). at_once (ret (a', False)))) (pg_server p) = Some (Ok (b, leave), s1)"
    and last: "turn_end leave b s1 = (Ok a', pg_server q)"
    by (auto simp: online_step_def App.run_then_Ok)
  have "moves ?H ?S (psys p) (ss_sys s1)"
  proof (cases ev)
    case (PingTick res)
    with fst show ?thesis by (simp add: ret_def)
  next
    case (Received item res)
    with fst have "on_stream (mc_codec c) ?H ?S (mc_services c) seed item res (pg_server p) = Some (Ok leave, s1)"
      by (auto simp: App.run_then_Ok ret_def)
    then show ?thesis by (intro moves_serve by_stepsD [OF by_steps_stream])
  next
    case Notified
    with fst have "ss_sys s1 = psys p"
      by (auto simp: App.run_then_Ok on_notification_def ret_def Let_def run_then_def
          split: option.splits prod.splits outcome.splits dest!: notification_moves)
    then show ?thesis by simp
  qed
  then show ?thesis by (rule moves_trans [OF _ turn_end_moves [OF last]])
qed

lemma main_step_moves:
  assumes "part_event ev" "main_step c ev p = Some (Ok q)"
  shows "moves (mc_host c) (mc_systemd c) (psys p) (psys q)"
  using assms
  by (cases ev)
    (auto simp: http_shutdown_def http_fails_def split: if_splits
      intro: exit_moves idle_moves agent_try_moves agent_go_moves agent_turn_moves)


text \<open>A step of the program moves the task system by its own steps.\<close>

lemma program_step_moved: "program_step E c p q \<Longrightarrow> moved (mc_host c) (mc_systemd c) (psys p) (psys q)"
proof (induction rule: program_step.induct)
  case (Part ev p q)
  then show ?case by (intro moves_moved main_step_moves)
next
  case (Request p seed req rsp s')
  from moves_moved [OF moves_serve [OF by_stepsD [OF by_steps_dispatch Request(2)]]] show ?case by simp
next
  case (Other p t)
  then show ?case by (auto simp: moved_def)
qed

interpretation whole: simulation "program_step E c" "(sys_step (mc_host c) (mc_systemd c))\<^sup>*\<^sup>*" psys "\<lambda>p. s_waiter (psys p) = None"
  for E :: http_env and c :: "'k setting"
proof
  show "s_waiter (psys q) = None" if "s_waiter (psys p) = None" "program_step E c p q" for p q :: "'k program"
    using program_step_moved [OF that(2)] that(1) by (simp add: moved_def)
  show "psys q = psys p \<or> (sys_step (mc_host c) (mc_systemd c))\<^sup>*\<^sup>* (psys p) (psys q)"
    if "s_waiter (psys p) = None" "program_step E c p q" for p q :: "'k program"
    using program_step_moved [OF that(2)] that(1) by (simp add: moved_def)
qed

section \<open>From the start on\<close>

lemma exit_start_moves: "exit_start a (s_reg s) = (e, r) \<Longrightarrow> moves H S s (set_reg r s)"
  using moves_subscribe [of s _ _ H S] by (auto simp: exit_start_def new_waiter_def split: if_splits prod.splits)

lemma idle_start_moves: "idle_start a (s_reg s) = (e, r) \<Longrightarrow> moves H S s (set_reg r s)"
  using moves_subscribe [of s _ _ H S] by (auto simp: idle_start_def new_waiter_def split: if_splits prod.splits)

lemma main_start_moves: "moves H S (ss_sys s) (psys (main_start c s))"
proof -
  obtain e r1 where 1: "exit_start (mc_args c) (s_reg (ss_sys s)) = (e, r1)" by (cases "exit_start (mc_args c) (s_reg (ss_sys s))")
  obtain i r2 where 2: "idle_start (mc_args c) (s_reg (set_reg r1 (ss_sys s))) = (i, r2)"
    by (cases "idle_start (mc_args c) (s_reg (set_reg r1 (ss_sys s)))")
  from moves_trans [OF exit_start_moves [OF 1] idle_start_moves [OF 2]] 1 2 show ?thesis
    by (simp add: main_start_def server_reg_def)
qed

text \<open>The launch's tasks do what tasks do.\<close>

abbreviation launch_polls :: "'k launch \<Rightarrow> bool" where
  "launch_polls L \<equiv> polls_by (polled_step (la_host L) (launch_systemd L)) (la_polls L)"

abbreviation launch_calm :: "'k launch \<Rightarrow> bool" where
  "launch_calm L \<equiv> polls_by (calm_polled (la_host L) (launch_systemd L)) (la_polls L)"

lemma startup_setting: "main_startup L s = Some (Ok (c, p), s') \<Longrightarrow> mc_host c = la_host L \<and> mc_systemd c = launch_systemd L"
  by (erule main_startup_Ok) (simp add: setting_of_def)

lemma startup_moved:
  assumes "main_startup L s = Some (Ok (c, p), s')" "launch_polls L"
  shows "moved (mc_host c) (mc_systemd c) (ss_sys s) (psys p)"
proof -
  obtain a x where m: "main_inputs L a s = Some (Ok (), s')" "p = main_start c s'"
    by (rule main_startup_Ok [OF assms(1)]) auto
  obtain i :: input where i: "registers (polled_step (la_host L) (launch_systemd L)) (bt_keys (specs i)) (ss_sys s) (ss_sys s')"
    by (rule main_inputs_registers [OF m(1) assms(2)])
  have "moved (mc_host c) (mc_systemd c) (ss_sys s) (ss_sys s')"
    using registers_all(1,4) [OF i] startup_setting [OF assms(1)] by (simp add: moved_def)
  with moves_moved [OF main_start_moves] show ?thesis unfolding m(2) by (blast intro: moved_trans)
qed

lemma startup_ok:
  assumes "main_startup L s = Some (Ok (c, p), s')" "launch_calm L" "ss_sys s = sys_init"
  shows "sys_ok (psys p)"
proof -
  obtain a x where m: "main_inputs L a s = Some (Ok (), s')" "p = main_start c s'"
    by (rule main_startup_Ok [OF assms(1)]) auto
  obtain i :: input where i: "registers (calm_polled (la_host L) (launch_systemd L)) (bt_keys (specs i)) (ss_sys s) (ss_sys s')"
    by (rule main_inputs_registers [OF m(1) assms(2)])
  have ok: "sys_ok (ss_sys s')" by (rule registers_ok [OF i]) (simp add: assms(3) sys_ok_init)
  have "moved (la_host L) (launch_systemd L) sys_init (ss_sys s')"
  proof -
    obtain j :: input where "registers (polled_step (la_host L) (launch_systemd L)) (bt_keys (specs j)) (ss_sys s) (ss_sys s')"
      by (rule main_inputs_registers [OF m(1) polls_calm [OF assms(2)]])
    from registers_all(1,4) [OF this] show ?thesis by (simp add: moved_def assms(3))
  qed
  then have "s_waiter (ss_sys s') = None" by (simp add: moved_def sys_init_def)
  with ok main_start_moves [of "mc_host c" "mc_systemd c" s' c] show ?thesis by (simp add: moves_def m(2))
qed

text \<open>Every state of the program is one of the task system.\<close>

lemma program_reach:
  assumes "main_startup L s = Some (Ok (c, p), s')" "ss_sys s = sys_init" "launch_polls L" "(program_step E c)\<^sup>*\<^sup>* p q"
  shows "sys_reach (mc_host c) (mc_systemd c) (psys p)" "(sys_step (mc_host c) (mc_systemd c))\<^sup>*\<^sup>* (psys p) (psys q)"
proof -
  have w: "s_waiter sys_init = None" by (simp add: sys_init_def)
  with startup_moved [OF assms(1,3)] have p: "(sys_step (mc_host c) (mc_systemd c))\<^sup>*\<^sup>* sys_init (psys p)" "s_waiter (psys p) = None"
    by (simp_all add: moved_def assms(2))
  from reach_run [OF p(1)] show "sys_reach (mc_host c) (mc_systemd c) (psys p)" .
  from whole.runs [OF assms(4) p(2)] show "(sys_step (mc_host c) (mc_systemd c))\<^sup>*\<^sup>* (psys p) (psys q)" by simp
qed


text \<open>
  The program is sound as a whole: started on an empty registry, with its HTTP service, its agent,
  \<open>--exit\<close> and \<open>--wait\<close>, their requests, the tasks of the processes and the signal handlers interleaving
  in any way, every state it comes to is a reachable one of the task system, and every process has moved
  only along the edges of its life.
\<close>

theorem program_sound:
  assumes "main_startup L s = Some (Ok (c, p), s')" "ss_sys s = sys_init" "launch_polls L" "(program_step E c)\<^sup>*\<^sup>* p q"
  shows "sys_reach (la_host L) (launch_systemd L) (psys q) \<and>
    life_step\<^sup>*\<^sup>* (lives_of (preg p)) (lives_of (preg q)) \<and> reg_later (preg p) (preg q)"
proof -
  note reach = program_reach [OF assms, unfolded startup_setting [OF assms(1), THEN conjunct1] startup_setting [OF assms(1), THEN conjunct2]]
  have q: "sys_reach (la_host L) (launch_systemd L) (psys q)"
    using reach(2,1) by (induction rule: rtranclp_induct) (auto intro: sys_reach.step)
  with life_kept [OF reach] show ?thesis by (simp add: server_reg_def)
qed


section \<open>The property at a concrete launch\<close>

text \<open>A launch with \<open>--serve\<close>: a signal handler shuts down, then the HTTP service ends.\<close>

theorem program_sound_witness:
  "\<exists>L c p s' q. main_startup L sample_start = Some (Ok (c, p), s') \<and> pg_http p \<and>
     (program_step sample_http c)\<^sup>*\<^sup>* p q \<and> \<not> pg_http q \<and> get_shutdown (preg q) = Done \<and>
     procs_get (preg q) ''b'' = Some 0 \<and> sys_reach (la_host L) (launch_systemd L) (psys q)"
proof -
  let ?a = "sample_args\<lparr>arg_serve := True, arg_input := Some ''in.json''\<rparr>" let ?L = "sample_launch\<lparr>la_given := ?a\<rparr>"
  obtain x s' where m: "main_startup ?L sample_start =
      Some (Ok (setting_of sample_launch ?a x, main_start (setting_of sample_launch ?a x) s'), s')"
      and b: "procs_get (s_reg (ss_sys s')) ''b'' = Some 0"
    by (rule sample_startup [of ?a]) (simp_all add: check_args_def Let_def sample_args_def)
  let ?c = "setting_of sample_launch ?a x" let ?p = "main_start ?c s'"
  let ?t = "set_reg (set_shutdown Done (s_reg (psys ?p))) (psys ?p)"
  let ?p1 = "?p\<lparr>pg_server := (pg_server ?p)\<lparr>ss_sys := ?t\<rparr>\<rparr>" let ?q = "?p1\<lparr>pg_http := False\<rparr>"
  have init: "ss_sys sample_start = sys_init" by (simp add: StartProcs.sample_start_def)
  have http: "pg_http ?p" by (simp add: main_start_def setting_of_def split: prod.split)
  have polls: "launch_polls ?L" by (simp add: sample_polls)
  have w: "s_waiter ?t = None"
    using startup_moved [OF m polls] by (simp add: init moved_def sys_init_def set_reg_def)
  have "program_step sample_http ?c ?p ?p1" by (rule program_step.Other [OF sys_step.Shutdown w])
  moreover have "program_step sample_http ?c ?p1 ?q"
    by (rule program_step.Part [of HttpShutdown]) (use http in \<open>simp_all add: http_shutdown_def server_reg_def\<close>)
  ultimately have run: "(program_step sample_http ?c)\<^sup>*\<^sup>* ?p ?q" by (meson converse_rtranclp_into_rtranclp rtranclp.rtrancl_refl)
  have "procs_get (preg ?q) ''b'' = Some 0"
    using b main_start_fields(1) [of ?c s'] by (simp add: procs_get_def server_reg_def)
  moreover have "get_shutdown (preg ?q) = Done" by (simp add: get_shutdown_def server_reg_def)
  moreover have "\<not> pg_http ?q" by simp
  ultimately show ?thesis using m http run program_sound [OF m init polls run] by blast
qed

end
