(* ===== verification/Handlers.thy ===== *)
theory Handlers
  imports Whole
begin

text \<open>
  The signal handlers of \<open>src/shutdown.rs\<close> as tasks of the program.  \<open>Shutdown\<close> gives a handler as a
  function with arbitrary waits and their time limits; here it is a state machine on the state that all
  tasks share, its waits are those of \<open>Tasks\<close> with a subscription of their own, and its steps interleave
  with those of \<open>Whole\<close>, with the parts of the starts that await systemd, and with the passing of time.  All
  of it refines \<open>Whole\<close>.  What is said about a handler that it does is said about its own steps, \<open>handler_step\<close>
  and \<open>own_step\<close>, or about all runs.
\<close>

section \<open>A handler\<close>

text \<open>
  Between two awaits a handler waits for its signal, for the running processes or for the deletion of all,
  the latter two with a subscription and a deadline.
\<close>

datatype handler_phase =
    Sleeping
  | TermWaits waiter nat
  | KillWaits waiter nat
  | HandlerOver
  | HandlerCrashed

record handler =
  hd_style :: signal_style
  hd_phase :: handler_phase

text \<open>A signal to all processes, its errors ignored; \<open>None\<close> is a panic.\<close>

definition signal_procs :: "'k host \<Rightarrow> signum \<Rightarrow> 'k program \<Rightarrow> 'k program option" where
  "signal_procs H signum p =
     (case send_signal_all (h_kernel H) signum (preg p) (ss_k (pg_server p)) of
        (Panic, k) \<Rightarrow> None
      | (_, k) \<Rightarrow> Some (p\<lparr>pg_server := (pg_server p)\<lparr>ss_k := k\<rparr>\<rparr>))"

definition begin_wait :: "wait_kind \<Rightarrow> 'k program \<Rightarrow> waiter \<times> 'k program" where
  "begin_wait kind p = (case new_waiter kind (preg p) of (w, r) \<Rightarrow> (w, set_preg r p))"

definition end_wait :: "'k program \<Rightarrow> 'k program" where
  "end_wait p = set_preg (unsubscribe (preg p)) p"

definition final_wait :: "nat \<Rightarrow> 'k program \<Rightarrow> handler_phase \<times> 'k program" where
  "final_wait now p = (case begin_wait WaitIdle p of (w, q) \<Rightarrow> (KillWaits w (now + KILL_TIMEOUT), q))"

definition kill_procs :: "'k host \<Rightarrow> nat \<Rightarrow> 'k program \<Rightarrow> handler_phase \<times> 'k program" where
  "kill_procs H now p =
     (case signal_procs H SIGKILL p of None \<Rightarrow> (HandlerCrashed, p) | Some q \<Rightarrow> final_wait now q)"

definition handler_end :: "'k program \<Rightarrow> handler_phase \<times> 'k program" where
  "handler_end p = (HandlerOver, set_preg (set_shutdown Done (preg p)) p)"

text \<open>The signal arrives.\<close>

definition on_signal :: "'k host \<Rightarrow> nat \<Rightarrow> signal_style \<Rightarrow> 'k program \<Rightarrow> handler_phase \<times> 'k program" where
  "on_signal H now style p =
     (case style of
        ShutdownOnIdle \<Rightarrow> (HandlerOver, set_preg (set_shutdown Idling (preg p)) p)
      | TermThenKill \<Rightarrow>
          (case signal_procs H SIGTERM p of
             None \<Rightarrow> (HandlerCrashed, p)
           | Some q \<Rightarrow> (case begin_wait WaitRunning q of (w, q') \<Rightarrow> (TermWaits w (now + TERM_TIMEOUT), q')))
      | KillAll \<Rightarrow> kill_procs H now p)"

text \<open>
  A poll while it waits: \<open>timeout\<close> polls the wait, and only if that is pending the deadline.  \<open>None\<close> is a
  poll that leaves everything as it is.
\<close>

fun on_poll :: "'k host \<Rightarrow> nat \<Rightarrow> handler_phase \<Rightarrow> 'k program \<Rightarrow> (handler_phase \<times> 'k program) option" where
  "on_poll H now (TermWaits w deadline) p =
     (case wait_step w (preg p) of
        WaitDone \<Rightarrow> Some (final_wait now (end_wait p))
      | WaitNext w' \<Rightarrow> Some (TermWaits w' deadline, p)
      | WaitPanic \<Rightarrow> Some (HandlerCrashed, end_wait p)
      | WaitPending \<Rightarrow> if deadline \<le> now then Some (kill_procs H now (end_wait p)) else None)"
| "on_poll H now (KillWaits w deadline) p =
     (case wait_step w (preg p) of
        WaitDone \<Rightarrow> Some (handler_end (end_wait p))
      | WaitNext w' \<Rightarrow> Some (KillWaits w' deadline, p)
      | WaitPanic \<Rightarrow> Some (HandlerCrashed, end_wait p)
      | WaitPending \<Rightarrow> if deadline \<le> now then Some (handler_end (end_wait p)) else None)"
| "on_poll H now _ p = None"

section \<open>All of the program\<close>

record 'k whole =
  wh_main :: "'k program"
  wh_handlers :: "handler list"
  wh_starts :: "pending list"
  wh_now :: nat

definition whole_start :: "'k program \<Rightarrow> 'k whole" where
  "whole_start p =
     \<lparr>wh_main = p, wh_handlers = map (\<lambda>(signum, style). \<lparr>hd_style = style, hd_phase = Sleeping\<rparr>) signal_handlers,
      wh_starts = [], wh_now = 0\<rparr>"

definition set_handler :: "nat \<Rightarrow> handler_phase \<times> 'k program \<Rightarrow> 'k whole \<Rightarrow> 'k whole" where
  "set_handler n r w = w\<lparr>wh_main := snd r, wh_handlers := (wh_handlers w)[n := (wh_handlers w ! n)\<lparr>hd_phase := fst r\<rparr>]\<rparr>"

abbreviation phase_of :: "nat \<Rightarrow> 'k whole \<Rightarrow> handler_phase" where
  "phase_of n w \<equiv> hd_phase (wh_handlers w ! n)"

definition set_psys :: "sys \<Rightarrow> 'k program \<Rightarrow> 'k program" where
  "set_psys t p = p\<lparr>pg_server := (pg_server p)\<lparr>ss_sys := t\<rparr>\<rparr>"

text \<open>A step of the handler \<open>n\<close>.\<close>

inductive handler_step :: "'k host \<Rightarrow> nat \<Rightarrow> 'k whole \<Rightarrow> 'k whole \<Rightarrow> bool" for H n where
  Signal: "n < length (wh_handlers w) \<Longrightarrow> phase_of n w = Sleeping \<Longrightarrow>
    handler_step H n w (set_handler n (on_signal H (wh_now w) (hd_style (wh_handlers w ! n)) (wh_main w)) w)"
| Poll: "n < length (wh_handlers w) \<Longrightarrow> on_poll H (wh_now w) (phase_of n w) (wh_main w) = Some r \<Longrightarrow>
    handler_step H n w (set_handler n r w)"

text \<open>
  A part of a start with systemd, as in \<open>Races\<close>: a request of the HTTP service or of the server is accepted and
  forks its first process, or the await on the units of a process ends.
\<close>

definition takes_requests :: "'k program \<Rightarrow> bool" where
  "takes_requests p \<longleftrightarrow> pg_http p \<or> (\<exists>a. pg_agent p = Some a \<and> ag_phase a = Online)"

inductive start_part :: "'k setting \<Rightarrow> 'k whole \<Rightarrow> 'k whole \<Rightarrow> bool" for c where
  Begins: "mc_systemd c \<noteq> None \<Longrightarrow> takes_requests (wh_main w) \<Longrightarrow> start_checks seed procs (preg (wh_main w)) = Ok () \<Longrightarrow>
    start_part c w (w\<lparr>wh_starts := fork_next procs (wh_starts w)\<rparr>)"
| GoesOn: "units_step \<lparr>sr_sys = psys (wh_main w), sr_pending = wh_starts w\<rparr> x \<Longrightarrow>
    start_part c w (w\<lparr>wh_main := set_psys (sr_sys x) (wh_main w), wh_starts := sr_pending x\<rparr>)"

text \<open>
  The steps.  A step of a part of \<open>main\<close> and a request are taken between two awaits: with systemd, one that
  registers a process is not among them but a sequence of \<open>start_part\<close>.  The tasks of the processes take the
  steps of \<open>task_step\<close>, and time passes in between.
\<close>

inductive whole_step :: "http_env \<Rightarrow> 'k setting \<Rightarrow> 'k whole \<Rightarrow> 'k whole \<Rightarrow> bool" for E c where
  Parts: "part_event ev \<Longrightarrow> main_step c ev (wh_main w) = Some (Ok q) \<Longrightarrow>
    mc_systemd c = None \<or> registers_nothing (psys (wh_main w)) (psys q) \<Longrightarrow>
    whole_step E c w (w\<lparr>wh_main := q\<rparr>)"
| Requests: "pg_http (wh_main w) \<Longrightarrow>
    dispatch E (mc_host c) (mc_systemd c) (mc_services c) seed req (pg_server (wh_main w)) = Some (rsp, s') \<Longrightarrow> ss_end s' = None \<Longrightarrow>
    mc_systemd c = None \<or> registers_nothing (psys (wh_main w)) (ss_sys s') \<Longrightarrow>
    whole_step E c w (w\<lparr>wh_main := (wh_main w)\<lparr>pg_server := s'\<rparr>\<rparr>)"
| Tasks: "polled_step (mc_host c) (mc_systemd c) (psys (wh_main w)) t \<Longrightarrow>
    whole_step E c w (w\<lparr>wh_main := set_psys t (wh_main w)\<rparr>)"
| Starts: "start_part c w w' \<Longrightarrow> whole_step E c w w'"
| Handler: "handler_step (mc_host c) n w w' \<Longrightarrow> whole_step E c w w'"
| Tick: "whole_step E c w (w\<lparr>wh_now := wh_now w + d\<rparr>)"


section \<open>The handlers refine the steps of the program\<close>

definition goes :: "http_env \<Rightarrow> 'k setting \<Rightarrow> 'k program \<Rightarrow> 'k program \<Rightarrow> bool" where
  "goes E c p q \<longleftrightarrow> moves (mc_host c) (mc_systemd c) (psys p) (psys q) \<and>
     (s_waiter (psys p) = None \<longrightarrow> (program_step E c)\<^sup>*\<^sup>* p q \<and> s_waiter (psys q) = None)"

lemma goes_refl [simp]: "goes E c p p"
  by (simp add: goes_def)

lemma goes_trans: "goes E c p q \<Longrightarrow> goes E c q r \<Longrightarrow> goes E c p r"
  by (auto simp: goes_def intro: moves_trans)

lemma goes_step: "program_step E c p q \<Longrightarrow> moves (mc_host c) (mc_systemd c) (psys p) (psys q) \<Longrightarrow> goes E c p q"
  by (auto simp: goes_def moves_def)

lemma goes_part: "part_event ev \<Longrightarrow> main_step c ev p = Some (Ok q) \<Longrightarrow> goes E c p q"
  by (intro goes_step program_step.Part main_step_moves)

lemma goes_other: "moves (mc_host c) (mc_systemd c) (psys p) t \<Longrightarrow> sys_step (mc_host c) (mc_systemd c) (psys p) t \<Longrightarrow> goes E c p (set_psys t p)"
  unfolding goes_def using program_step.Other [of c p t E] by (auto simp: set_psys_def moves_def)

lemma goes_reg: "sys_step (mc_host c) (mc_systemd c) (psys p) (set_reg r (psys p)) \<Longrightarrow> goes E c p (set_preg r p)"
  using goes_other [OF moves_set, of c p r E] by (simp add: set_preg_def set_psys_def put_reg_def)

lemma goes_shutdown: "goes E c p (set_preg (set_shutdown st (preg p)) p)"
  using goes_reg [OF sys_step.Shutdown [of _ _ "psys p" st]] by (simp add: server_reg_def)

lemma goes_end_wait: "goes E c p (end_wait p)"
proof (cases "reg_receivers (preg p) = 0")
  case True
  then have "unsubscribe (preg p) = preg p" by (simp add: unsubscribe_def)
  then have "end_wait p = p" using put_reg_same [of "pg_server p"] by (simp add: end_wait_def set_preg_def)
  then show ?thesis by simp
next
  case False
  have step: "s_waiter (psys p) = None \<Longrightarrow> sys_step (mc_host c) (mc_systemd c) (psys p) (set_reg (unsubscribe (preg p)) (psys p))"
    using False unfolding server_reg_def by (intro sys_step.Unsubscribed) simp
  show ?thesis
  proof (cases "s_waiter (psys p) = None")
    case True
    then show ?thesis unfolding end_wait_def by (intro goes_reg step)
  qed (auto simp: goes_def moves_def)
qed

lemma goes_begin_wait: "begin_wait kind p = (w, q) \<Longrightarrow> goes E c p q"
  using goes_reg [OF sys_step.Subscribed [of _ _ "psys p"]]
  by (auto simp: begin_wait_def new_waiter_def server_reg_def split: prod.splits)

lemma goes_signal: "signal_procs H signum p = Some q \<Longrightarrow> goes E c p q"
proof -
  assume "signal_procs H signum p = Some q"
  then obtain k where "q = p\<lparr>pg_server := (pg_server p)\<lparr>ss_k := k\<rparr>\<rparr>"
    by (auto simp: signal_procs_def split: prod.splits outcome.splits)
  then show ?thesis by (intro goes_part [of "HostChanges k"]) simp_all
qed

lemma goes_final_wait: "goes E c p (snd (final_wait now p))"
  using goes_begin_wait [of WaitIdle p] by (auto simp: final_wait_def split: prod.split)

lemma goes_kill: "goes E c p (snd (kill_procs H now p))"
  by (auto simp: kill_procs_def split: option.split intro: goes_trans [OF goes_signal goes_final_wait])

lemma goes_handler_end: "goes E c p (snd (handler_end p))"
  by (simp add: handler_end_def goes_shutdown)

lemma goes_on_signal: "goes E c p (snd (on_signal H now style p))"
  using goes_shutdown goes_kill goes_trans [OF goes_signal goes_begin_wait]
  by (cases style) (auto simp: on_signal_def split: option.split prod.split)

lemma goes_on_poll:
  assumes "on_poll H now ph p = Some r"
  shows "goes E c p (snd r)"
proof -
  note after = goes_trans [OF goes_end_wait goes_final_wait] goes_trans [OF goes_end_wait goes_kill]
    goes_trans [OF goes_end_wait goes_handler_end] goes_end_wait
  show ?thesis using assms after by (cases ph) (auto split: wait_progress.splits if_splits)
qed

text \<open>So does every step; all but those of the tasks also keep the tasks from crashing.\<close>

definition reached :: "http_env \<Rightarrow> 'k setting \<Rightarrow> 'k program \<Rightarrow> 'k program \<Rightarrow> bool" where
  "reached E c p q \<longleftrightarrow> s_waiter (psys p) = None \<longrightarrow> (program_step E c)\<^sup>*\<^sup>* p q \<and> s_waiter (psys q) = None \<and>
     (sys_ok (psys p) \<longrightarrow> crash_free (psys q) \<longrightarrow> sys_ok (psys q))"

lemma goes_reached: "goes E c p q \<Longrightarrow> reached E c p q"
  by (auto simp: goes_def reached_def moves_def)

lemma set_psys_simps [simp]: "psys (set_psys t p) = t" "pg_attempt (set_psys t p) = pg_attempt p" "pg_http (set_psys t p) = pg_http p"
  "set_psys (psys p) p = p"
  by (simp_all add: set_psys_def)

lemma goes_start_part: "start_part c w w' \<Longrightarrow> goes E c (wh_main w) (wh_main w')"
proof (induction rule: start_part.induct)
  case (GoesOn w x)
  then show ?case
    by cases (auto intro: goes_other [OF moves_spawn] sys_step.Spawn)
qed simp

lemma goes_handler_step: "handler_step H n w w' \<Longrightarrow> goes E c (wh_main w) (wh_main w')"
  by (induction rule: handler_step.induct) (simp_all add: set_handler_def goes_on_signal goes_on_poll)

lemma whole_step_reached: "whole_step E c w w' \<Longrightarrow> reached E c (wh_main w) (wh_main w')"
proof (induction rule: whole_step.induct)
  case (Parts ev w q)
  then show ?case by (auto intro: goes_reached goes_part)
next
  case (Requests w seed req rsp s')
  have "moves (mc_host c) (mc_systemd c) (psys (wh_main w)) (ss_sys s')"
    by (rule moves_serve [OF by_stepsD [OF by_steps_dispatch Requests(2)]])
  with Requests show ?case by (intro goes_reached goes_step) (auto intro: program_step.Request)
next
  case (Tasks w t)
  have s: "sys_step (mc_host c) (mc_systemd c) (psys (wh_main w)) t" "s_waiter t = s_waiter (psys (wh_main w))"
    using polled_sys [OF Tasks] polled_same [OF Tasks] by (auto simp: same_procs_def)
  from program_step.Other [OF s(1)] s sys_ok_step [OF _ _ s(1)] show ?case by (auto simp: reached_def set_psys_def)
next
  case (Starts w w')
  then show ?case by (intro goes_reached goes_start_part)
next
  case (Handler n w w')
  then show ?case by (intro goes_reached goes_handler_step)
qed (simp add: reached_def)

interpretation handled: simulation "whole_step E c" "(program_step E c)\<^sup>*\<^sup>*" wh_main "\<lambda>w. s_waiter (psys (wh_main w)) = None"
  for E :: http_env and c :: "'k setting"
proof
  show "s_waiter (psys (wh_main w')) = None" if "s_waiter (psys (wh_main w)) = None" "whole_step E c w w'" for w w' :: "'k whole"
    using whole_step_reached [OF that(2)] that(1) by (simp add: reached_def)
  show "wh_main w' = wh_main w \<or> (program_step E c)\<^sup>*\<^sup>* (wh_main w) (wh_main w')"
    if "s_waiter (psys (wh_main w)) = None" "whole_step E c w w'" for w w' :: "'k whole"
    using whole_step_reached [OF that(2)] that(1) by (simp add: reached_def)
qed


section \<open>The invariant with the handlers\<close>

fun phase_subs :: "handler_phase \<Rightarrow> nat" where
  "phase_subs (TermWaits _ _) = 1"
| "phase_subs (KillWaits _ _) = 1"
| "phase_subs _ = 0"

fun in_time :: "nat \<Rightarrow> handler_phase \<Rightarrow> bool" where
  "in_time now (TermWaits _ deadline) = (deadline \<le> now + TERM_TIMEOUT)"
| "in_time now (KillWaits _ deadline) = (deadline \<le> now + KILL_TIMEOUT)"
| "in_time now _ = True"

abbreviation handler_subs :: "handler list \<Rightarrow> nat" where
  "handler_subs hs \<equiv> sum_list (map (phase_subs \<circ> hd_phase) hs)"

definition whole_ok :: "'k whole \<Rightarrow> bool" where
  "whole_ok w \<longleftrightarrow> main_ok (handler_subs (wh_handlers w)) (wh_main w) \<and> s_waiter (psys (wh_main w)) = None \<and>
     (\<forall>h \<in> set (wh_handlers w). in_time (wh_now w) (hd_phase h))"

text \<open>A step of the tasks.\<close>

lemma sys_step_serves:
  assumes "sys_step H S s t" "serves (s_reg s) n oa" "reg_receivers (s_reg t) = reg_receivers (s_reg s)"
  shows "serves (s_reg t) n oa"
  using assms(1)
proof (cases rule: sys_cases)
  case (Spawn p i)
  with serves_op [OF assms(2), of "OpStart i p"] show ?thesis by (simp add: spawn_def Let_def)
next
  case (Removed i res r)
  with serves_op [OF assms(2), of "OpRemove i"] show ?thesis by simp
next
  case (Popped res r)
  with serves_op [OF assms(2), of OpPop] show ?thesis by simp
next
  case (Collected k res r k')
  with serves_op [OF assms(2), of OpForget] collect_keys show ?thesis by fastforce
next
  case (Shutdown st)
  with serves_op [OF assms(2), of "OpShutdown st"] show ?thesis by simp
next
  case (Finished n t)
  with serves_op [OF assms(2), of "OpNotRunning (t_id t)"] show ?thesis by simp
next
  case (WaitEnds w)
  then have "reg_receivers (s_reg s) = 0" using assms(3) by (auto simp: unsubscribe_def)
  then have "unsubscribe (s_reg s) = s_reg s" by (simp add: unsubscribe_def)
  with WaitEnds(1) assms(2) show ?thesis by simp
qed (use assms(2,3) in \<open>auto simp: append_errors_def mark_reaped_def record_exit_def serves_update subscribe_def unsubscribe_def
    set_task_def set_reg_def Let_def split: outcome.splits prod.splits if_splits\<close>)

text \<open>Main and the handlers.\<close>

lemma main_ok_reg: "main_ok m p \<Longrightarrow> serves r (m' + exit_subs (pg_exit p) + idle_subs (pg_idle p)) (pg_agent p) \<Longrightarrow> main_ok m' (set_preg r p)"
  by (simp add: main_ok_def)

lemma main_ok_signal: "signal_procs H signum p = Some q \<Longrightarrow> main_ok m q = main_ok m p"
  by (auto simp: signal_procs_def main_ok_def server_reg_def split: prod.splits outcome.splits)

lemma main_ok_begin:
  assumes "main_ok m p" "begin_wait kind p = (w, q)"
  shows "main_ok (Suc m) q"
  using assms serves_waiter [of "preg p" "m + exit_subs (pg_exit p) + idle_subs (pg_idle p)" "pg_agent p" kind]
  by (auto simp: begin_wait_def main_ok_def split: prod.splits)

lemma main_ok_end: "main_ok (Suc m) p \<Longrightarrow> main_ok m (end_wait p)"
  unfolding end_wait_def by (rule main_ok_reg [where m = "Suc m"]) (auto simp: main_ok_def intro: serves_unsubscribe)

lemma main_ok_shutdown: "main_ok m p \<Longrightarrow> main_ok m (set_preg (set_shutdown st (preg p)) p)"
  using serves_op [of "preg p" "m + exit_subs (pg_exit p) + idle_subs (pg_idle p)" "pg_agent p" "OpShutdown st"]
  by (simp add: main_ok_def)

definition handler_ok :: "nat \<Rightarrow> nat \<Rightarrow> handler_phase \<times> 'k program \<Rightarrow> bool" where
  "handler_ok m now r \<longleftrightarrow> main_ok (m + phase_subs (fst r)) (snd r) \<and> in_time now (fst r)"

lemma final_wait_ok: "main_ok m p \<Longrightarrow> handler_ok m now (final_wait now p)"
  using main_ok_begin [of m p WaitIdle] by (auto simp: final_wait_def handler_ok_def split: prod.split)

lemma kill_procs_ok:
  assumes "main_ok m p"
  shows "handler_ok m now (kill_procs H now p)"
proof (cases "signal_procs H SIGKILL p")
  case None
  with assms show ?thesis by (simp add: kill_procs_def handler_ok_def)
next
  case (Some q)
  with assms have "main_ok m q" by (simp add: main_ok_signal)
  with Some show ?thesis by (simp add: kill_procs_def final_wait_ok)
qed

lemma handler_end_ok: "main_ok m p \<Longrightarrow> handler_ok m now (handler_end p)"
  by (simp add: handler_end_def handler_ok_def main_ok_shutdown)

lemma on_signal_ok:
  assumes "main_ok m p"
  shows "handler_ok m now (on_signal H now style p)"
proof (cases style)
  case TermThenKill
  show ?thesis
  proof (cases "signal_procs H SIGTERM p")
    case None
    with assms TermThenKill show ?thesis by (simp add: on_signal_def handler_ok_def)
  next
    case (Some q)
    obtain w q' where b: "begin_wait WaitRunning q = (w, q')" by (cases "begin_wait WaitRunning q")
    have "main_ok (Suc m) q'" by (rule main_ok_begin [OF _ b]) (simp add: main_ok_signal [OF Some] assms)
    with Some b TermThenKill show ?thesis by (simp add: on_signal_def handler_ok_def)
  qed
next
  case ShutdownOnIdle
  with assms show ?thesis by (simp add: on_signal_def handler_ok_def main_ok_shutdown)
next
  case KillAll
  with kill_procs_ok [OF assms] show ?thesis by (simp add: on_signal_def)
qed

lemma on_poll_ok:
  assumes "main_ok (m + phase_subs ph) p" "in_time now ph" "on_poll H now ph p = Some r"
  shows "handler_ok m now r"
proof (cases "phase_subs ph = 1")
  case True
  with assms(1) have e: "main_ok m (end_wait p)" by (simp add: main_ok_end)
  have "handler_ok m now (final_wait now (end_wait p))" "handler_ok m now (kill_procs H now (end_wait p))"
      "handler_ok m now (handler_end (end_wait p))" "handler_ok m now (HandlerCrashed, end_wait p)"
    using e by (simp_all add: final_wait_ok kill_procs_ok handler_end_ok) (simp add: handler_ok_def)
  with assms True show ?thesis
    by (cases ph) (auto simp: handler_ok_def split: wait_progress.splits if_splits)
qed (use assms(3) in \<open>cases ph; simp\<close>)


text \<open>
  The step of \<open>Agent.registration_gap\<close>, in which the agent subscribes after the final shutdown, which it
  then never hears of.
\<close>

definition subscribes_late :: "'k whole \<Rightarrow> 'k whole \<Rightarrow> bool" where
  "subscribes_late w w' \<longleftrightarrow> pg_attempt (wh_main w) = Some (Ok ()) \<and> get_shutdown (preg (wh_main w)) = Done \<and>
     pg_attempt (wh_main w') = None"

definition timely_step :: "http_env \<Rightarrow> 'k setting \<Rightarrow> 'k whole \<Rightarrow> 'k whole \<Rightarrow> bool" where
  "timely_step E c w w' \<longleftrightarrow> whole_step E c w w' \<and> \<not> subscribes_late w w'"

lemma agent_go_attempt: "main_step c AgentGo p = Some (Ok q) \<Longrightarrow> pg_attempt q = None"
  by (auto simp: agent_go_def Let_def split: option.splits outcome.splits prod.splits agent_phase.splits)

lemma handler_subs_split:
  assumes "n < length hs"
  obtains m where "handler_subs hs = m + phase_subs (hd_phase (hs ! n))"
    "\<And>ph. handler_subs (hs[n := (hs ! n)\<lparr>hd_phase := ph\<rparr>]) = m + phase_subs ph"
proof -
  let ?m = "sum_list (map (phase_subs \<circ> hd_phase) (take n hs)) + sum_list (map (phase_subs \<circ> hd_phase) (drop (Suc n) hs))"
  have "hs = take n hs @ hs ! n # drop (Suc n) hs" using assms by (rule id_take_nth_drop)
  then have "handler_subs hs = sum_list (map (phase_subs \<circ> hd_phase) (take n hs @ hs ! n # drop (Suc n) hs))" by simp
  moreover have "hs[n := h] = take n hs @ h # drop (Suc n) hs" for h using assms by (simp add: upd_conv_take_nth_drop)
  ultimately show thesis by (intro that [of ?m]) (simp_all del: append_take_drop_id)
qed

lemma whole_ok_handler:
  assumes "whole_ok w" "n < length (wh_handlers w)" "goes E c (wh_main w) (snd r)"
    and "\<And>m. main_ok (m + phase_subs (hd_phase (wh_handlers w ! n))) (wh_main w) \<Longrightarrow> handler_ok m (wh_now w) r"
  shows "whole_ok (set_handler n r w)"
proof -
  obtain m where m: "handler_subs (wh_handlers w) = m + phase_subs (hd_phase (wh_handlers w ! n))"
      "\<And>ph. handler_subs ((wh_handlers w)[n := (wh_handlers w ! n)\<lparr>hd_phase := ph\<rparr>]) = m + phase_subs ph"
    by (rule handler_subs_split [OF assms(2)]) blast
  with assms(1) have "main_ok (m + phase_subs (hd_phase (wh_handlers w ! n))) (wh_main w)" by (simp add: whole_ok_def)
  from assms(4) [OF this] have r: "main_ok (m + phase_subs (fst r)) (snd r)" "in_time (wh_now w) (fst r)" by (simp_all add: handler_ok_def)
  have "s_waiter (psys (snd r)) = None" using assms(1,3) by (simp add: whole_ok_def goes_def)
  moreover have "in_time (wh_now w) (hd_phase h)" if "h \<in> set ((wh_handlers w)[n := (wh_handlers w ! n)\<lparr>hd_phase := fst r\<rparr>])" for h
    using that r(2) assms(1) set_update_subset_insert [of "wh_handlers w" n] by (fastforce simp: whole_ok_def)
  ultimately show ?thesis using r(1) m(2) by (simp add: whole_ok_def set_handler_def)
qed

lemma in_time_later: "in_time now ph \<Longrightarrow> in_time (now + d) ph"
  by (cases ph) auto

lemma whole_ok_handles:
  assumes "whole_ok w" "handler_step H n w w'"
  shows "whole_ok w'"
  using assms(2)
proof cases
  case Signal
  show ?thesis unfolding Signal(1)
    by (rule whole_ok_handler [OF assms(1) Signal(2) goes_on_signal]) (simp add: Signal(3) on_signal_ok)
next
  case (Poll r)
  have "in_time (wh_now w) (phase_of n w)" using assms(1) Poll(2) by (simp add: whole_ok_def)
  then show ?thesis unfolding Poll(1)
    using on_poll_ok Poll(3) by (intro whole_ok_handler [OF assms(1) Poll(2) goes_on_poll [OF Poll(3)]]) blast
qed

lemma whole_ok_starts:
  assumes "whole_ok w" "start_part c w w'"
  shows "whole_ok w'"
  using assms(2)
proof cases
  case Begins
  with assms(1) show ?thesis by (simp add: whole_ok_def)
next
  case (GoesOn x)
  have "serves (s_reg (sr_sys x)) n oa \<and> s_waiter (sr_sys x) = s_waiter (psys (wh_main w))"
    if "serves (preg (wh_main w)) n oa" for n oa
    using GoesOn(2)
  proof cases
    case (Registered m p q)
    with serves_op [OF that, of "OpStart (pn_id p) q"] show ?thesis by (simp add: server_reg_def spawn_def Let_def)
  qed (use that in \<open>simp add: server_reg_def\<close>)
  from this [of "handler_subs (wh_handlers w) + exit_subs (pg_exit (wh_main w)) + idle_subs (pg_idle (wh_main w))" "pg_agent (wh_main w)"]
    GoesOn(1) assms(1) show ?thesis by (simp add: whole_ok_def main_ok_def server_reg_def set_psys_def)
qed

lemma whole_ok_step:
  assumes "timely_step E c w w'" "whole_ok w"
  shows "whole_ok w'"
proof -
  from assms(1) have step: "whole_step E c w w'" and late: "\<not> subscribes_late w w'" by (simp_all add: timely_step_def)
  have waiter: "s_waiter (psys (wh_main w')) = None" using whole_step_reached [OF step] assms(2) by (simp add: reached_def whole_ok_def)
  from step show ?thesis
  proof (cases rule: whole_step.cases)
    case (Parts ev q)
    have "\<not> gap ev (wh_main w)" using late agent_go_attempt [of c "wh_main w" q] Parts by (auto simp: gap_def subscribes_late_def)
    with Parts main_step_ok [of _ "wh_main w" ev c q] waiter assms(2) show ?thesis by (simp add: whole_ok_def)
  next
    case (Requests seed req rsp s')
    have "serve_step\<^sup>*\<^sup>* (psys (wh_main w)) (ss_sys s')" using by_stepsD [OF by_steps_dispatch Requests(3)] .
    with Requests(1) waiter assms(2) show ?thesis
      using serves_request [of "psys (wh_main w)" "ss_sys s'"] by (simp add: whole_ok_def main_ok_def server_reg_def)
  next
    case (Tasks t)
    have "serves (s_reg t) n oa" if "serves (preg (wh_main w)) n oa" for n oa
      using sys_step_serves [OF polled_sys [OF Tasks(2)], of n oa] that polled_same [OF Tasks(2)] by (simp add: server_reg_def same_procs_def)
    with Tasks(1) waiter assms(2) show ?thesis by (simp add: whole_ok_def main_ok_def server_reg_def set_psys_def)
  next
    case Starts
    then show ?thesis by (rule whole_ok_starts [OF assms(2)])
  next
    case (Handler n)
    then show ?thesis by (rule whole_ok_handles [OF assms(2)])
  next
    case (Tick d)
    with assms(2) show ?thesis by (auto simp: whole_ok_def in_time_later)
  qed
qed

lemma whole_ok_start: "main_ok 0 p \<Longrightarrow> s_waiter (psys p) = None \<Longrightarrow> whole_ok (whole_start p)"
  by (simp add: whole_ok_def whole_start_def signal_handlers_def)

lemma whole_ok_run: "(timely_step E c)\<^sup>*\<^sup>* w w' \<Longrightarrow> whole_ok w \<Longrightarrow> whole_ok w'"
  by (induction rule: rtranclp_induct) (auto intro: whole_ok_step)


section \<open>A handler ends\<close>

fun not_behind :: "registry \<Rightarrow> handler_phase \<Rightarrow> bool" where
  "not_behind r (TermWaits w _) = (length (reg_log r) - wt_pos w \<le> channel_capacity)"
| "not_behind r (KillWaits w _) = (length (reg_log r) - wt_pos w \<le> channel_capacity)"
| "not_behind r _ = True"

abbreviation wait_next :: "registry \<Rightarrow> waiter \<Rightarrow> waiter \<Rightarrow> bool" where
  "wait_next r w w' \<equiv> wait_step w r = WaitNext w'"

definition wait_left :: "registry \<Rightarrow> waiter \<Rightarrow> nat" where
  "wait_left r w = 2 * (length (reg_log r) - wt_pos w) + (if wt_target w = None then 1 else 0)"

text \<open>A wait on a registry that stays as it is comes to a stop: what it can read is finite.\<close>

lemma wait_next_left:
  assumes "wait_next r w w'"
  shows "wait_left r w' < wait_left r w \<and> length (reg_log r) - wt_pos w' \<le> length (reg_log r) - wt_pos w"
proof (cases "wt_target w")
  case None
  with assms show ?thesis by (auto simp: wait_step_def wait_left_def split: option.splits)
next
  case (Some i)
  with assms have "wt_pos w < length (reg_log r)" "wt_pos w' = wt_pos w + 1"
    by (auto simp: wait_step_def recv_def split: if_splits)
  with Some show ?thesis by (cases "wt_target w'") (auto simp: wait_left_def)
qed

lemma wait_settles:
  assumes "length (reg_log r) - wt_pos w \<le> channel_capacity"
  shows "\<exists>w'. (wait_next r)\<^sup>*\<^sup>* w w' \<and> wait_step w' r \<in> {WaitDone, WaitPending}"
  using assms
proof (induction "wait_left r w" arbitrary: w rule: less_induct)
  case less
  show ?case
  proof (cases "wait_step w r")
    case WaitPanic
    with less.prems show ?thesis by (auto simp: wait_step_def recv_def split: option.splits if_splits)
  next
    case (WaitNext w1)
    note left = wait_next_left [OF WaitNext]
    with less.prems have "length (reg_log r) - wt_pos w1 \<le> channel_capacity" by linarith
    with less.hyps [of w1] left obtain w2 where "(wait_next r)\<^sup>*\<^sup>* w1 w2" "wait_step w2 r \<in> {WaitDone, WaitPending}" by blast
    with WaitNext show ?thesis by (meson converse_rtranclp_into_rtranclp)
  qed blast+
qed

text \<open>Steps of one handler alone, with time passing.\<close>

lemma set_handler_simps [simp]:
  "wh_main (set_handler n r w) = snd r" "wh_now (set_handler n r w) = wh_now w"
  "length (wh_handlers (set_handler n r w)) = length (wh_handlers w)"
  "n < length (wh_handlers w) \<Longrightarrow> hd_phase (wh_handlers (set_handler n r w) ! n) = fst r"
  "set_handler n r' (set_handler n r w) = set_handler n r' w"
  by (simp_all add: set_handler_def)
    (cases "n < length (wh_handlers w)"; simp add: list_update_beyond)

inductive own_step :: "'k host \<Rightarrow> nat \<Rightarrow> 'k whole \<Rightarrow> 'k whole \<Rightarrow> bool" for H n where
  Acts: "handler_step H n w w' \<Longrightarrow> own_step H n w w'"
| Passes: "own_step H n w (w\<lparr>wh_now := wh_now w + d\<rparr>)"

lemma timely_same: "whole_step E c w w' \<Longrightarrow> pg_attempt (wh_main w') = pg_attempt (wh_main w) \<Longrightarrow> timely_step E c w w'"
  by (auto simp: timely_step_def subscribes_late_def)

lemma signal_attempt: "signal_procs H signum p = Some q \<Longrightarrow> pg_attempt q = pg_attempt p"
  by (auto simp: signal_procs_def split: prod.splits outcome.splits)

lemma wait_attempt [simp]:
  "pg_attempt (end_wait p) = pg_attempt p" "pg_attempt (snd (begin_wait kind p)) = pg_attempt p"
  "pg_attempt (snd (final_wait now p)) = pg_attempt p" "pg_attempt (snd (handler_end p)) = pg_attempt p"
  by (simp_all add: end_wait_def begin_wait_def final_wait_def handler_end_def split: prod.split)

lemma kill_attempt [simp]: "pg_attempt (snd (kill_procs H now p)) = pg_attempt p"
  by (auto simp: kill_procs_def signal_attempt split: option.split)

lemma begin_attempt: "begin_wait kind p = (w, q) \<Longrightarrow> pg_attempt q = pg_attempt p"
  using wait_attempt(2) [of kind p] by simp

lemma on_signal_attempt: "pg_attempt (snd (on_signal H now style p)) = pg_attempt p"
  by (cases style) (auto simp: on_signal_def split: option.split prod.split dest!: signal_attempt begin_attempt)

lemma on_poll_attempt: "on_poll H now ph p = Some r \<Longrightarrow> pg_attempt (snd r) = pg_attempt p"
  by (cases ph) (auto split: wait_progress.splits if_splits)

lemma own_timely:
  assumes "own_step (mc_host c) n w w'"
  shows "timely_step E c w w' \<and> pg_attempt (wh_main w') = pg_attempt (wh_main w)"
  using assms
proof cases
  case Acts
  from Acts have "pg_attempt (wh_main w') = pg_attempt (wh_main w)"
    by cases (simp_all add: on_signal_attempt on_poll_attempt)
  with whole_step.Handler [OF Acts] show ?thesis by (simp add: timely_same)
next
  case (Passes d)
  with whole_step.Tick [of E c w d] show ?thesis by (simp add: timely_same)
qed

lemma own_timely_run: "(own_step (mc_host c) n)\<^sup>*\<^sup>* w w' \<Longrightarrow> (timely_step E c)\<^sup>*\<^sup>* w w'"
  by (erule rtranclp_mono [THEN predicate2D, rotated]) (auto dest: own_timely)

lemma polls:
  assumes "(wait_next (preg (wh_main w)))\<^sup>*\<^sup>* wt wt'" "n < length (wh_handlers w)" "P = TermWaits \<or> P = KillWaits"
    and "hd_phase (wh_handlers w ! n) = P wt deadline"
  shows "(own_step H n)\<^sup>*\<^sup>* w (set_handler n (P wt' deadline, wh_main w) w)"
  using assms(1)
proof (induction rule: rtranclp_induct)
  case base
  have "set_handler n (P wt deadline, wh_main w) w = w" using assms(2) by (simp add: set_handler_def assms(4) [symmetric])
  then show ?case by simp
next
  case (step wt1 wt2)
  let ?w = "set_handler n (P wt1 deadline, wh_main w) w"
  have "handler_step H n ?w (set_handler n (P wt2 deadline, wh_main w) ?w)"
    by (rule handler_step.Poll) (use assms(2,3) step.hyps(2) in auto)
  then have "own_step H n ?w (set_handler n (P wt2 deadline, wh_main w) w)" by (simp add: own_step.Acts)
  with step.IH show ?case by (rule rtranclp.rtrancl_into_rtrancl)
qed

text \<open>The wait of a handler is over, at its deadline at the latest: with which step, and when.\<close>

lemma wait_over:
  assumes "n < length (wh_handlers w)" "P = TermWaits \<or> P = KillWaits"
    and "hd_phase (wh_handlers w ! n) = P wt deadline" "not_behind (preg (wh_main w)) (P wt deadline)"
  obtains wt' now where "(own_step H n)\<^sup>*\<^sup>* w (set_handler n (P wt' deadline, wh_main w) (w\<lparr>wh_now := now\<rparr>))"
    "wh_now w \<le> now" "now \<le> max (wh_now w) deadline"
    "wait_step wt' (preg (wh_main w)) = WaitDone \<or> wait_step wt' (preg (wh_main w)) = WaitPending \<and> deadline \<le> now"
proof -
  from assms(2,4) have "length (reg_log (preg (wh_main w))) - wt_pos wt \<le> channel_capacity" by auto
  from wait_settles [OF this] obtain wt' where wt': "(wait_next (preg (wh_main w)))\<^sup>*\<^sup>* wt wt'"
      "wait_step wt' (preg (wh_main w)) \<in> {WaitDone, WaitPending}" by blast
  let ?now = "max (wh_now w) deadline" let ?w = "set_handler n (P wt' deadline, wh_main w) w"
  have run: "(own_step H n)\<^sup>*\<^sup>* w ?w" by (rule polls [OF wt'(1) assms(1-3)])
  have "?w\<lparr>wh_now := wh_now ?w + (?now - wh_now w)\<rparr> = set_handler n (P wt' deadline, wh_main w) (w\<lparr>wh_now := ?now\<rparr>)"
    by (simp add: set_handler_def)
  with own_step.Passes [of H n ?w "?now - wh_now w"] run
  have "(own_step H n)\<^sup>*\<^sup>* w (set_handler n (P wt' deadline, wh_main w) (w\<lparr>wh_now := ?now\<rparr>))"
    by (simp add: rtranclp.rtrancl_into_rtrancl)
  with wt'(2) show thesis by (intro that [of wt' ?now]) auto
qed


text \<open>What a handler leaves alone.\<close>

definition kept :: "'k program \<Rightarrow> 'k program \<Rightarrow> bool" where
  "kept p q \<longleftrightarrow> pg_agent q = pg_agent p \<and> pg_attempt q = pg_attempt p \<and> reg_heap (preg q) = reg_heap (preg p) \<and>
     reg_procs (preg q) = reg_procs (preg p) \<and> reg_log (preg q) = reg_log (preg p) \<and> reg_shutdown (preg q) = reg_shutdown (preg p)"

definition shut_down_from :: "'k program \<Rightarrow> 'k program \<Rightarrow> bool" where
  "shut_down_from p q \<longleftrightarrow> pg_agent q = pg_agent p \<and> pg_attempt q = pg_attempt p \<and> reg_heap (preg q) = reg_heap (preg p) \<and>
     reg_procs (preg q) = reg_procs (preg p) \<and> reg_shutdown (preg q) = Done \<and> length (reg_log (preg q)) \<le> Suc (length (reg_log (preg p)))"

lemma kept_trans: "kept p q \<Longrightarrow> kept q r \<Longrightarrow> kept p r" "kept p q \<Longrightarrow> shut_down_from q r \<Longrightarrow> shut_down_from p r"
  by (simp_all add: kept_def shut_down_from_def)

lemma kept_end_wait: "kept p (end_wait p)"
  by (simp add: kept_def end_wait_def unsubscribe_def)

lemma kept_begin_wait: "begin_wait kind p = (w, q) \<Longrightarrow> kept p q \<and> wt_pos w = length (reg_log (preg q))"
  by (auto simp: kept_def begin_wait_def new_waiter_def subscribe_def)

lemma kept_signal:
  assumes "kill_posix (h_kernel H)"
  obtains q where "signal_procs H signum p = Some q" "kept p q"
proof -
  obtain q k where s: "send_signal_all (h_kernel H) signum (preg p) (ss_k (pg_server p)) = (q, k)"
    by (cases "send_signal_all (h_kernel H) signum (preg p) (ss_k (pg_server p))")
  with signal_all_targets [OF assms, of signum "preg p" "ss_k (pg_server p)"] have "q \<noteq> Panic" by simp
  with s have "signal_procs H signum p = Some (p\<lparr>pg_server := (pg_server p)\<lparr>ss_k := k\<rparr>\<rparr>)"
    by (cases q) (simp_all add: signal_procs_def)
  then show thesis using that by (simp add: kept_def server_reg_def)
qed

definition waits_final :: "nat \<Rightarrow> 'k program \<Rightarrow> handler_phase \<times> 'k program \<Rightarrow> bool" where
  "waits_final now p r \<longleftrightarrow> kept p (snd r) \<and> (\<exists>wt. fst r = KillWaits wt (now + KILL_TIMEOUT) \<and> wt_pos wt = length (reg_log (preg (snd r))))"

lemma waits_final_wait: "waits_final now p (final_wait now p)"
  using kept_begin_wait [of WaitIdle p] by (cases "begin_wait WaitIdle p") (simp add: final_wait_def waits_final_def)

lemma waits_final_kept: "kept p q \<Longrightarrow> waits_final now q r \<Longrightarrow> waits_final now p r"
  by (auto simp: waits_final_def intro: kept_trans)

lemma waits_final_kill: "kill_posix (h_kernel H) \<Longrightarrow> waits_final now p (kill_procs H now p)"
  by (rule kept_signal [of H SIGKILL p]) (auto simp: kill_procs_def intro: waits_final_kept waits_final_wait)

lemma shut_down_end: "shut_down_from p (snd (handler_end (end_wait p)))"
proof -
  have "length (reg_log (set_shutdown Done r)) \<le> Suc (length (reg_log r))" for r
    by (subst set_shutdown.simps) (simp add: Let_def notify_def)
  from this [of "preg (end_wait p)"] kept_end_wait [of p] show ?thesis
    by (simp add: shut_down_from_def handler_end_def kept_def)
qed

text \<open>The three ways on: the first wait, the second, and the arrival of the signal.\<close>

lemma kill_wait_ends:
  assumes "n < length (wh_handlers w)" "hd_phase (wh_handlers w ! n) = KillWaits wt deadline" "not_behind (preg (wh_main w)) (KillWaits wt deadline)"
  obtains w' where "(own_step H n)\<^sup>*\<^sup>* w w'" "shut_down_from (wh_main w) (wh_main w')" "wh_now w' \<le> max (wh_now w) deadline"
    "hd_phase (wh_handlers w' ! n) = HandlerOver" "ss_k (pg_server (wh_main w')) = ss_k (pg_server (wh_main w))"
proof -
  obtain wt' now where run: "(own_step H n)\<^sup>*\<^sup>* w (set_handler n (KillWaits wt' deadline, wh_main w) (w\<lparr>wh_now := now\<rparr>))"
      and now: "now \<le> max (wh_now w) deadline"
      and over: "wait_step wt' (preg (wh_main w)) = WaitDone \<or> wait_step wt' (preg (wh_main w)) = WaitPending \<and> deadline \<le> now"
    by (rule wait_over [where P = KillWaits, OF assms(1) _ assms(2,3)]) auto
  let ?w = "set_handler n (KillWaits wt' deadline, wh_main w) (w\<lparr>wh_now := now\<rparr>)"
  let ?r = "handler_end (end_wait (wh_main w))"
  have "handler_step H n ?w (set_handler n ?r ?w)" by (rule handler_step.Poll) (use assms(1) over in auto)
  from rtranclp.rtrancl_into_rtrancl [OF run own_step.Acts [OF this]]
  have "(own_step H n)\<^sup>*\<^sup>* w (set_handler n ?r ?w)" .
  with now shut_down_end [of "wh_main w"] assms(1) show thesis
    by (intro that [of "set_handler n ?r ?w"]) (simp_all add: handler_end_def end_wait_def set_preg_def put_reg_def)
qed

abbreviation handler_over :: "nat \<Rightarrow> 'k whole \<Rightarrow> 'k whole \<Rightarrow> bool" where
  "handler_over n w w' \<equiv> phase_of n w' = HandlerOver \<and> shut_down_from (wh_main w) (wh_main w')"

lemma final_waits:
  assumes "n < length (wh_handlers w)" "waits_final (wh_now w) p r" "kept (wh_main w0) p"
  obtains w' where "(own_step H n)\<^sup>*\<^sup>* (set_handler n r w) w'" "handler_over n w0 w'" "wh_now w' \<le> wh_now w + KILL_TIMEOUT"
proof -
  from assms(2) obtain wt where r: "kept p (snd r)" "fst r = KillWaits wt (wh_now w + KILL_TIMEOUT)" "wt_pos wt = length (reg_log (preg (snd r)))"
    by (auto simp: waits_final_def)
  let ?w = "set_handler n r w"
  have "n < length (wh_handlers ?w)" "phase_of n ?w = KillWaits wt (wh_now w + KILL_TIMEOUT)"
      "not_behind (preg (wh_main ?w)) (KillWaits wt (wh_now w + KILL_TIMEOUT))"
    using assms(1) r by simp_all
  from kill_wait_ends [OF this] obtain w' where "(own_step H n)\<^sup>*\<^sup>* ?w w'" "handler_over n ?w w'"
      "wh_now w' \<le> max (wh_now ?w) (wh_now w + KILL_TIMEOUT)" by blast
  moreover have "kept (wh_main w0) (wh_main ?w)" using kept_trans(1) [OF assms(3) r(1)] by simp
  ultimately show thesis using kept_trans(2) by (intro that [of w']) auto
qed

lemma term_wait_ends:
  assumes "n < length (wh_handlers w)" "phase_of n w = TermWaits wt deadline" "not_behind (preg (wh_main w)) (TermWaits wt deadline)"
    and "kill_posix (h_kernel H)"
  obtains w' where "(own_step H n)\<^sup>*\<^sup>* w w'" "handler_over n w w'" "wh_now w' \<le> max (wh_now w) deadline + KILL_TIMEOUT"
proof -
  obtain wt' now where run: "(own_step H n)\<^sup>*\<^sup>* w (set_handler n (TermWaits wt' deadline, wh_main w) (w\<lparr>wh_now := now\<rparr>))"
      and now: "now \<le> max (wh_now w) deadline"
      and over: "wait_step wt' (preg (wh_main w)) = WaitDone \<or> wait_step wt' (preg (wh_main w)) = WaitPending \<and> deadline \<le> now"
    by (rule wait_over [where P = TermWaits, OF assms(1) _ assms(2,3)]) auto
  let ?w = "set_handler n (TermWaits wt' deadline, wh_main w) (w\<lparr>wh_now := now\<rparr>)" let ?p = "end_wait (wh_main w)"
  let ?r = "if wait_step wt' (preg (wh_main w)) = WaitDone then final_wait now ?p else kill_procs H now ?p"
  have r: "waits_final now ?p ?r" by (simp add: waits_final_wait waits_final_kill [OF assms(4)])
  have step: "handler_step H n ?w (set_handler n ?r ?w)" by (rule handler_step.Poll) (use assms(1) over in auto)
  have "waits_final (wh_now ?w) ?p ?r" using r by simp
  then obtain w' where "(own_step H n)\<^sup>*\<^sup>* (set_handler n ?r ?w) w'" "handler_over n w w'" "wh_now w' \<le> wh_now ?w + KILL_TIMEOUT"
    by (rule final_waits [of n ?w, rotated]) (use assms(1) kept_end_wait in auto)
  with rtranclp.rtrancl_into_rtrancl [OF run own_step.Acts [OF step]] now show thesis by (intro that [of w']) auto
qed

lemma handler_ends:
  assumes "n < length (wh_handlers w)" "hd_style (wh_handlers w ! n) \<noteq> ShutdownOnIdle"
    and "phase_of n w \<notin> {HandlerOver, HandlerCrashed}" "not_behind (preg (wh_main w)) (phase_of n w)"
    and "in_time (wh_now w) (phase_of n w)" "kill_posix (h_kernel H)"
  obtains w' where "(own_step H n)\<^sup>*\<^sup>* w w'" "handler_over n w w'" "wh_now w' \<le> wh_now w + TERM_TIMEOUT + KILL_TIMEOUT"
proof (cases "phase_of n w")
  case (TermWaits wt deadline)
  from term_wait_ends [OF assms(1) TermWaits assms(4) [unfolded TermWaits] assms(6)] obtain w'
    where "(own_step H n)\<^sup>*\<^sup>* w w'" "handler_over n w w'" "wh_now w' \<le> max (wh_now w) deadline + KILL_TIMEOUT"
    by blast
  with assms(5) TermWaits show thesis by (intro that [of w']) auto
next
  case (KillWaits wt deadline)
  from kill_wait_ends [OF assms(1) KillWaits assms(4) [unfolded KillWaits]] obtain w'
    where "(own_step H n)\<^sup>*\<^sup>* w w'" "handler_over n w w'" "wh_now w' \<le> max (wh_now w) deadline" by blast
  with assms(5) KillWaits show thesis by (intro that [of w']) auto
next
  case Sleeping
  let ?r = "on_signal H (wh_now w) (hd_style (wh_handlers w ! n)) (wh_main w)"
  have step: "own_step H n w (set_handler n ?r w)" by (rule own_step.Acts [OF handler_step.Signal [OF assms(1) Sleeping]])
  show thesis
  proof (cases "hd_style (wh_handlers w ! n)")
    case KillAll
    then have r: "waits_final (wh_now w) (wh_main w) ?r" using waits_final_kill [OF assms(6)] by (simp add: on_signal_def)
    obtain w' where "(own_step H n)\<^sup>*\<^sup>* (set_handler n ?r w) w'" "handler_over n w w'" "wh_now w' \<le> wh_now w + KILL_TIMEOUT"
      by (rule final_waits [OF assms(1) r, of w]) (simp add: kept_def)
    with step show thesis by (intro that [of w']) (auto intro: converse_rtranclp_into_rtranclp)
  next
    case TermThenKill
    obtain q where q: "signal_procs H SIGTERM (wh_main w) = Some q" "kept (wh_main w) q" by (rule kept_signal [OF assms(6)])
    obtain wt q' where b: "begin_wait WaitRunning q = (wt, q')" by (cases "begin_wait WaitRunning q")
    have r: "?r = (TermWaits wt (wh_now w + TERM_TIMEOUT), q')" using TermThenKill q(1) b by (simp add: on_signal_def)
    have kept: "kept (wh_main w) q'" "wt_pos wt = length (reg_log (preg q'))" using kept_begin_wait [OF b] kept_trans(1) [OF q(2)] by auto
    let ?w = "set_handler n ?r w"
    have "n < length (wh_handlers ?w)" "phase_of n ?w = TermWaits wt (wh_now w + TERM_TIMEOUT)"
        "not_behind (preg (wh_main ?w)) (TermWaits wt (wh_now w + TERM_TIMEOUT))"
      using assms(1) r kept(2) by simp_all
    from term_wait_ends [OF this assms(6)] obtain w' where "(own_step H n)\<^sup>*\<^sup>* ?w w'" "handler_over n ?w w'"
        "wh_now w' \<le> max (wh_now ?w) (wh_now w + TERM_TIMEOUT) + KILL_TIMEOUT" by blast
    with step kept(1) r kept_trans(2) show thesis by (intro that [of w']) (auto intro: converse_rtranclp_into_rtranclp)
  qed (use assms(2) in simp)
qed (use assms(3) in simp_all)

section \<open>The whole program\<close>

lemma startup_whole_ok:
  assumes "main_startup L s = Some (Ok (c, p), s')" "ss_sys s = sys_init" "launch_polls L"
  shows "whole_ok (whole_start p)"
proof (rule whole_ok_start)
  have w: "s_waiter sys_init = None" by (simp add: sys_init_def)
  from startup_moved [OF assms(1,3)] show "s_waiter (psys p) = None" by (simp add: moved_def assms(2) w)
  obtain a x where m: "p = main_start c s'" "main_inputs L a s = Some (Ok (), s')"
    by (rule main_startup_Ok [OF assms(1)]) auto
  obtain i :: input where i: "registers (polled_step (la_host L) (launch_systemd L)) (bt_keys (specs i)) sys_init (ss_sys s')"
    by (rule main_inputs_registers [OF m(2) assms(3)]) (simp add: assms(2))
  from sys_reach_life [OF reach_run [OF registers_all(1) [OF i]]] have "reg_ok (server_reg s')" by (simp add: life_inv_def server_reg_def)
  then show "main_ok 0 p" unfolding m(1) by (rule main_ok_start)
qed

text \<open>The agent, if it is online, has room for one more notification.\<close>

definition has_room :: "'k program \<Rightarrow> bool" where
  "has_room p \<longleftrightarrow> (\<forall>a. pg_agent p = Some a \<longrightarrow> ag_phase a = Online \<longrightarrow> length (reg_log (preg p)) - ag_pos a < channel_capacity)"



section \<open>Every handler shuts down in time\<close>

text \<open>
  A state in which the handler \<open>n\<close> is polled in time: not later than \<open>e\<close> after its deadline, and before it has
  fallen behind the notifications.
\<close>

fun polled_by :: "nat \<Rightarrow> nat \<Rightarrow> handler_phase \<Rightarrow> bool" where
  "polled_by e now (TermWaits _ deadline) = (now \<le> deadline + e)"
| "polled_by e now (KillWaits _ deadline) = (now \<le> deadline + e)"
| "polled_by e now _ = True"

definition attends :: "nat \<Rightarrow> nat \<Rightarrow> 'k whole \<Rightarrow> bool" where
  "attends e n w \<longleftrightarrow> polled_by e (wh_now w) (phase_of n w) \<and> not_behind (preg (wh_main w)) (phase_of n w)"

definition attending_step :: "http_env \<Rightarrow> 'k setting \<Rightarrow> nat \<Rightarrow> nat \<Rightarrow> 'k whole \<Rightarrow> 'k whole \<Rightarrow> bool" where
  "attending_step E c e n w w' \<longleftrightarrow> whole_step E c w w' \<and> attends e n w'"

definition handler_limit :: "nat \<Rightarrow> signal_style \<Rightarrow> nat" where
  "handler_limit e style = (if style = TermThenKill then TERM_TIMEOUT + e + KILL_TIMEOUT + e else KILL_TIMEOUT + e)"

text \<open>While it waits, its deadlines are those that its start at the time \<open>t0\<close> set.\<close>

fun on_schedule :: "nat \<Rightarrow> nat \<Rightarrow> signal_style \<Rightarrow> handler_phase \<Rightarrow> bool" where
  "on_schedule e t0 style (TermWaits _ deadline) = (style = TermThenKill \<and> deadline \<le> t0 + TERM_TIMEOUT)"
| "on_schedule e t0 style (KillWaits _ deadline) = (deadline + e \<le> t0 + handler_limit e style)"
| "on_schedule e t0 style HandlerOver = True"
| "on_schedule e t0 style _ = False"

lemma not_behind_no_panic: "length (reg_log r) - wt_pos wt \<le> channel_capacity \<Longrightarrow> wait_step wt r \<noteq> WaitPanic"
  by (auto simp: wait_step_def recv_def split: option.splits if_splits)

lemma whole_step_phase:
  assumes "whole_step E c w w'"
  shows "handler_step (mc_host c) n w w' \<or> phase_of n w' = phase_of n w"
  using assms
proof cases
  case (Handler m)
  from Handler have "phase_of n w' = phase_of n w" if "m \<noteq> n"
    using that by cases (simp_all add: set_handler_def)
  with Handler show ?thesis by blast
next
  case Starts
  then show ?thesis by cases simp_all
qed simp_all

lemma waits_final_schedule:
  assumes "waits_final now p r" "now \<le> t0 + (if style = TermThenKill then TERM_TIMEOUT + e else 0)"
  shows "on_schedule e t0 style (fst r)"
  using assms by (auto simp: waits_final_def handler_limit_def)

lemma on_signal_schedule:
  assumes "kill_posix (h_kernel H)" "style \<noteq> ShutdownOnIdle" "on_signal H now style p = r"
  shows "on_schedule e now style (fst r)" "fst r \<noteq> HandlerOver" "polled_by e now (fst r)" "not_behind (preg (snd r)) (fst r)"
proof -
  have "on_schedule e now style (fst r) \<and> fst r \<noteq> HandlerOver \<and> polled_by e now (fst r) \<and> not_behind (preg (snd r)) (fst r)"
  proof (cases style)
    case TermThenKill
    obtain q where q: "signal_procs H SIGTERM p = Some q" by (rule kept_signal [OF assms(1)])
    obtain wt q' where b: "begin_wait WaitRunning q = (wt, q')" by (cases "begin_wait WaitRunning q")
    with q TermThenKill kept_begin_wait [OF b] show ?thesis unfolding assms(3) [symmetric] by (simp add: on_signal_def)
  next
    case KillAll
    then have "waits_final now p r" using waits_final_kill [OF assms(1), of now p] by (simp add: assms(3) [symmetric] on_signal_def)
    with waits_final_schedule [OF this, of now KillAll e] KillAll show ?thesis by (auto simp: waits_final_def)
  qed (use assms(2) in simp)
  then show "on_schedule e now style (fst r)" "fst r \<noteq> HandlerOver" "polled_by e now (fst r)" "not_behind (preg (snd r)) (fst r)"
    by blast+
qed

text \<open>Whom the arriving signal is passed on to.\<close>

lemma signal_procs_k:
  "kill_posix (h_kernel H) \<Longrightarrow> signal_procs H signum p = Some q \<Longrightarrow>
     ss_k (pg_server q) = fold (\<lambda>pid k. snd (kill (h_kernel H) pid signum k)) (signal_targets (preg p)) (ss_k (pg_server p))"
  using signal_all_fold [of "h_kernel H" signum "preg p" "reg_procs (preg p)" "Ok ()" "ss_k (pg_server p)"]
  by (auto simp: signal_procs_def send_signal_all_def signal_targets_def split: prod.splits outcome.splits)

lemma set_preg_k [simp]: "ss_k (pg_server (set_preg r p)) = ss_k (pg_server p)"
  by (simp add: set_preg_def put_reg_def)

lemma on_signal_k:
  assumes "kill_posix (h_kernel H)" "style \<noteq> ShutdownOnIdle"
  shows "ss_k (pg_server (snd (on_signal H now style p))) =
    fold (\<lambda>pid k. snd (kill (h_kernel H) pid (if style = TermThenKill then SIGTERM else SIGKILL) k))
      (signal_targets (preg p)) (ss_k (pg_server p))"
proof -
  obtain q1 where 1: "signal_procs H SIGTERM p = Some q1" by (rule kept_signal [OF assms(1)])
  obtain q2 where 2: "signal_procs H SIGKILL p = Some q2" by (rule kept_signal [OF assms(1)])
  note k = signal_procs_k [OF assms(1) 1] signal_procs_k [OF assms(1) 2]
  show ?thesis
    using assms(2) 1 2 k
    by (cases style) (auto simp: on_signal_def kill_procs_def final_wait_def begin_wait_def split: prod.split)
qed

lemma on_poll_schedule:
  assumes "on_poll H now ph p = Some r" "on_schedule e t0 style ph" "kill_posix (h_kernel H)"
    and "polled_by e now ph" "not_behind (preg p) ph"
  shows "on_schedule e t0 style (fst r) \<and> ph \<noteq> HandlerOver \<and>
    (fst r = HandlerOver \<longrightarrow> reg_shutdown (preg (snd r)) = Done \<and> now \<le> t0 + handler_limit e style)"
proof (cases ph)
  case (TermWaits wt deadline)
  then have t: "style = TermThenKill" "now \<le> t0 + TERM_TIMEOUT + e" using assms(2,4) by auto
  have final: "on_schedule e t0 style (fst r) \<and> fst r \<noteq> HandlerOver" if "waits_final now q r" for q
    using waits_final_schedule [OF that, of t0 style e] t that by (auto simp: waits_final_def)
  have "wait_step wt (preg p) \<noteq> WaitPanic" using assms(5) TermWaits by (simp add: not_behind_no_panic)
  with assms(1) TermWaits consider (later) wt' where "r = (TermWaits wt' deadline, p)" | (final) "waits_final now (end_wait p) r"
    using waits_final_wait [of now "end_wait p"] waits_final_kill [OF assms(3), of now "end_wait p"]
    by (auto split: wait_progress.splits if_splits)
  then show ?thesis
  proof cases
    case later
    with assms(2) TermWaits show ?thesis by simp
  next
    case final
    with \<open>\<And>q. waits_final now q r \<Longrightarrow> _\<close> TermWaits show ?thesis by simp
  qed
next
  case (KillWaits wt deadline)
  then have t: "now \<le> t0 + handler_limit e style" using assms(2,4) by simp
  have "wait_step wt (preg p) \<noteq> WaitPanic" using assms(5) KillWaits by (simp add: not_behind_no_panic)
  then show ?thesis
    using assms(1,2) KillWaits t by (auto simp: handler_end_def split: wait_progress.splits if_splits)
qed (use assms(1) in simp_all)

text \<open>Hence the invariant of the runs that attend to the handler.\<close>

definition shuts_down_by :: "nat \<Rightarrow> ('k whole \<Rightarrow> 'k whole \<Rightarrow> bool) \<Rightarrow> 'k whole \<Rightarrow> 'k whole \<Rightarrow> bool" where
  "shuts_down_by t R w1 w2 \<longleftrightarrow> (\<exists>v. R\<^sup>*\<^sup>* w1 v \<and> R\<^sup>*\<^sup>* v w2 \<and> get_shutdown (preg (wh_main v)) = Done \<and> wh_now v \<le> t)"

lemma attending_run:
  assumes "(attending_step E c e n)\<^sup>*\<^sup>* w1 w2" "kill_posix (h_kernel (mc_host c))"
    and "attends e n w1" "on_schedule e t0 style (phase_of n w1)" "phase_of n w1 \<noteq> HandlerOver"
  shows "attends e n w2 \<and> on_schedule e t0 style (phase_of n w2) \<and>
    (phase_of n w2 = HandlerOver \<longrightarrow> shuts_down_by (t0 + handler_limit e style) (attending_step E c e n) w1 w2)"
  using assms(1)
proof (induction rule: rtranclp_induct)
  case base
  with assms(3-5) show ?case by simp
next
  case (step u v)
  from step.hyps(2) have v: "attends e n v" "handler_step (mc_host c) n u v \<or> phase_of n v = phase_of n u"
    using whole_step_phase [of E c u v n] by (auto simp: attending_step_def)
  from v(2) show ?case
  proof
    assume "phase_of n v = phase_of n u"
    with step v(1) show ?thesis by (auto simp: shuts_down_by_def intro: rtranclp.rtrancl_into_rtrancl)
  next
    assume "handler_step (mc_host c) n u v"
    then show ?thesis
    proof cases
      case Signal
      with step.IH show ?thesis by simp
    next
      case (Poll r)
      have u: "on_schedule e t0 style (phase_of n u)" "polled_by e (wh_now u) (phase_of n u)" "not_behind (preg (wh_main u)) (phase_of n u)"
        using step.IH by (simp_all add: attends_def)
      note r = on_poll_schedule [OF Poll(3) u(1) assms(2) u(2,3)]
      have "shuts_down_by (t0 + handler_limit e style) (attending_step E c e n) w1 v" if "fst r = HandlerOver"
        using r that Poll(1) rtranclp.rtrancl_into_rtrancl [OF step.hyps] unfolding shuts_down_by_def
        by (intro exI [of _ v]) (simp add: get_shutdown_def)
      with r v(1) Poll(1,2) show ?thesis by simp
    qed
  qed
qed


section \<open>Soundness\<close>

text \<open>A step after which no task has crashed.\<close>

definition calm_step :: "http_env \<Rightarrow> 'k setting \<Rightarrow> 'k whole \<Rightarrow> 'k whole \<Rightarrow> bool" where
  "calm_step E c w w' \<longleftrightarrow> whole_step E c w w' \<and> crash_free (psys (wh_main w'))"

lemma calm_run:
  assumes "(calm_step E c)\<^sup>*\<^sup>* w w'" "sys_ok (psys (wh_main w))" "s_waiter (psys (wh_main w)) = None"
  shows "sys_ok (psys (wh_main w')) \<and> s_waiter (psys (wh_main w')) = None"
  using assms
  by (induction rule: rtranclp_induct) (auto simp: calm_step_def reached_def dest: whole_step_reached)

text \<open>
  C6 The program is sound as a whole, its signal handlers included: started on an empty registry, with its
  HTTP service, its agent, \<open>--exit\<close> and \<open>--wait\<close>, their requests, the tasks of the processes, the
  handlers and, with systemd, the parts of the starts between their awaits interleaving in any way and
  with any delays, every state it comes to is a reachable one of the task system; every process has moved
  only along the edges of its life, and every ID only from process to process; and, in every run in which
  no line of \<open>/proc\<close> has made a task panic so far, each process that is registered and whose end is not
  recorded is still watched by the task that will record it.
\<close>

theorem whole_sound:
  assumes "main_startup L s = Some (Ok (c, p), s')" "ss_sys s = sys_init" "launch_polls L" "(whole_step E c)\<^sup>*\<^sup>* (whole_start p) w"
  shows "sys_reach (la_host L) (launch_systemd L) (psys (wh_main w)) \<and>
    life_step\<^sup>*\<^sup>* (lives_of (preg p)) (lives_of (preg (wh_main w))) \<and> reg_later (preg p) (preg (wh_main w)) \<and>
    (launch_calm L \<longrightarrow> (calm_step E c)\<^sup>*\<^sup>* (whole_start p) w \<longrightarrow>
       (\<forall>i a. procs_get (preg (wh_main w)) i = Some a \<longrightarrow> p_wait_info (proc_at (preg (wh_main w)) a) = None \<longrightarrow>
          exit_pending (s_tasks (psys (wh_main w))) i a))"
proof -
  have waiter: "s_waiter (psys p) = None" using startup_whole_ok [OF assms(1-3)] by (simp add: whole_ok_def whole_start_def)
  with handled.runs [OF assms(4)] have "(program_step E c)\<^sup>*\<^sup>* p (wh_main w)" by (simp add: whole_start_def)
  note sound = program_sound [OF assms(1-3) this]
  have "exit_pending (s_tasks (psys (wh_main w))) i a"
    if "launch_calm L" "(calm_step E c)\<^sup>*\<^sup>* (whole_start p) w" "procs_get (preg (wh_main w)) i = Some a"
      "p_wait_info (proc_at (preg (wh_main w)) a) = None" for i a
  proof -
    have "sys_ok (psys (wh_main w))"
      using calm_run [OF that(2)] startup_ok [OF assms(1) that(1) assms(2)] waiter by (simp add: whole_start_def)
    then have ok: "reg_ok (preg (wh_main w))" "linked (preg (wh_main w)) (s_tasks (psys (wh_main w)))"
      by (simp_all add: sys_ok_def server_reg_def)
    from ok(1) that(3) have "(i, a) \<in> set (reg_procs (preg (wh_main w)))" by (simp add: procs_get_def reg_ok_def bt_get_in_set)
    with ok(2) that(4) show ?thesis by (auto simp: linked_def)
  qed
  with sound show ?thesis by blast
qed


text \<open>The last wait, where something is registered.\<close>

lemma final_wait_pending:
  assumes "reg_procs (preg p) \<noteq> []" "final_wait now p = r"
  obtains wt wt' where "fst r = KillWaits wt (now + KILL_TIMEOUT)" "wait_next (preg (snd r)) wt wt'"
    "wait_step wt' (preg (snd r)) = WaitPending" "wt_pos wt' = length (reg_log (preg (snd r)))" "kept p (snd r)"
proof -
  obtain wt q where b: "begin_wait WaitIdle p = (wt, q)" by (cases "begin_wait WaitIdle p")
  then have r: "r = (KillWaits wt (now + KILL_TIMEOUT), q)" using assms(2) by (simp add: final_wait_def)
  have k: "kept p q" "wt_pos wt = length (reg_log (preg q))" using kept_begin_wait [OF b] by simp_all
  obtain i a rest where e: "reg_procs (preg q) = (i, a) # rest" using k(1) assms(1) by (cases "reg_procs (preg q)") (auto simp: kept_def)
  have "wt_kind wt = WaitIdle" "wt_target wt = None" using b by (auto simp: begin_wait_def new_waiter_def split: prod.splits)
  with e k(2) have "wait_next (preg q) wt (wt\<lparr>wt_target := Some i\<rparr>)" "wait_step (wt\<lparr>wt_target := Some i\<rparr>) (preg q) = WaitPending"
    by (simp_all add: wait_step_def procs_first_def recv_def)
  with r k show thesis by (intro that [of wt "wt\<lparr>wt_target := Some i\<rparr>"]) simp_all
qed

lemma kill_all_pending:
  assumes "n < length (wh_handlers w)" "phase_of n w = Sleeping" "hd_style (wh_handlers w ! n) = KillAll"
    and "kill_posix (h_kernel H)" "reg_procs (preg (wh_main w)) \<noteq> []"
  obtains w1 w2 wt deadline where "handler_step H n w w1" "(own_step H n)\<^sup>*\<^sup>* w1 w2" "phase_of n w2 = KillWaits wt deadline"
    "wait_step wt (preg (wh_main w2)) = WaitPending" "wt_pos wt = length (reg_log (preg (wh_main w2)))"
    "kept (wh_main w) (wh_main w2)" "pg_http (wh_main w2) = pg_http (wh_main w)" "wh_main w2 = wh_main w1"
    "length (wh_handlers w2) = length (wh_handlers w)"
proof -
  obtain q where q: "signal_procs H SIGKILL (wh_main w) = Some q" "kept (wh_main w) q" by (rule kept_signal [OF assms(4)])
  let ?r = "final_wait (wh_now w) q" let ?w1 = "set_handler n ?r w"
  have "handler_step H n w ?w1"
    using handler_step.Signal [OF assms(1,2), of H] q(1) by (simp add: assms(3) on_signal_def kill_procs_def)
  moreover have "reg_procs (preg q) \<noteq> []" using q(2) assms(5) by (simp add: kept_def)
  then obtain wt wt' where r: "fst ?r = KillWaits wt (wh_now w + KILL_TIMEOUT)" "wait_next (preg (snd ?r)) wt wt'"
      "wait_step wt' (preg (snd ?r)) = WaitPending" "wt_pos wt' = length (reg_log (preg (snd ?r)))" "kept q (snd ?r)"
    by (rule final_wait_pending [OF _ refl])
  have "(own_step H n)\<^sup>*\<^sup>* ?w1 (set_handler n (KillWaits wt' (wh_now w + KILL_TIMEOUT), wh_main ?w1) ?w1)"
    by (rule polls [of ?w1 wt]) (use r assms(1) in \<open>auto intro!: r_into_rtranclp\<close>)
  moreover have "pg_http (snd ?r) = pg_http (wh_main w)"
    using q(1) by (auto simp: final_wait_def begin_wait_def set_preg_def signal_procs_def split: prod.splits outcome.splits)
  ultimately show thesis
    using r assms(1) kept_trans(1) [OF q(2) r(5)]
    by (intro that [of ?w1 "set_handler n (KillWaits wt' (wh_now w + KILL_TIMEOUT), wh_main ?w1) ?w1" wt' "wh_now w + KILL_TIMEOUT"]) simp_all
qed

text \<open>
  A start with systemd that is accepted now and whose units are there: its process is registered.
\<close>

lemma start_part_registers:
  assumes "mc_systemd c \<noteq> None" "takes_requests (wh_main w)" "start_checks seed [(i, spec)] (preg (wh_main w)) = Ok ()" "proc_fresh q"
  shows "(start_part c)\<^sup>*\<^sup>* w (w\<lparr>wh_main := set_psys (spawn i q (psys (wh_main w))) (wh_main w)\<rparr>)"
proof -
  let ?p = "\<lparr>pn_id = i, pn_rest = []\<rparr>" let ?w = "w\<lparr>wh_starts := wh_starts w @ [?p]\<rparr>"
  let ?x = "\<lparr>sr_sys = spawn i q (psys (wh_main w)), sr_pending = wh_starts w\<rparr>"
  have "start_part c w ?w" using start_part.Begins [OF assms(1-3)] by simp
  moreover have "units_step \<lparr>sr_sys = psys (wh_main ?w), sr_pending = wh_starts ?w\<rparr> ?x"
    using units_step.Registered [of "length (wh_starts w)" "\<lparr>sr_sys = psys (wh_main ?w), sr_pending = wh_starts ?w\<rparr>" ?p q] assms(4)
    by (simp add: remove_nth_def)
  from start_part.GoesOn [OF this, of c]
  have "start_part c ?w (w\<lparr>wh_main := set_psys (spawn i q (psys (wh_main w))) (wh_main w)\<rparr>)" by simp
  ultimately show ?thesis by (meson converse_rtranclp_into_rtranclp r_into_rtranclp)
qed

lemma start_checks_cong:
  assumes "get_shutdown r = get_shutdown r'" "reg_procs r = reg_procs r'"
  shows "start_checks seed procs r = start_checks seed procs r'"
  unfolding start_checks_def get_proc_ids_def assms ..

lemma spawn_reg: "preg (set_psys (spawn i q (psys p)) p) = procs_insert i (length (reg_heap (preg p))) ((preg p)\<lparr>reg_heap := reg_heap (preg p) @ [q]\<rparr>)"
  by (simp add: server_reg_def set_psys_def spawn_def Let_def)

text \<open>
  C36 A shutdown by signal does not stop new starts: the handler of \<open>SIGQUIT\<close>, when its signal arrives,
  kills and waits for the deletion of all, but leaves the registry active, so that while it waits, any start
  that would have been accepted before the signal is still accepted by \<open>start_procs\<close> of a request, with
  systemd registers its process, and the handler then ends without a signal to it: the shutdown is final
  with the process running, unsignalled and, with the program over, no longer watched.
\<close>

theorem started_while_ending:
  assumes "n < length (wh_handlers w)" "phase_of n w = Sleeping" "hd_style (wh_handlers w ! n) = KillAll"
    and "kill_posix (h_kernel (mc_host c))" "reg_procs (preg (wh_main w)) \<noteq> []"
    and "mc_systemd c \<noteq> None" "pg_http (wh_main w)" "start_checks seed [(i, spec)] (preg (wh_main w)) = Ok ()"
    and "proc_fresh q" "p_errors q = []"
  shows "\<exists>w1 w2 w3 w4 wt deadline a. handler_step (mc_host c) n w w1 \<and> (own_step (mc_host c) n)\<^sup>*\<^sup>* w1 w2 \<and>
    phase_of n w2 = KillWaits wt deadline \<and> wait_step wt (preg (wh_main w2)) = WaitPending \<and>
    (start_part c)\<^sup>*\<^sup>* w2 w3 \<and> (own_step (mc_host c) n)\<^sup>*\<^sup>* w3 w4 \<and> phase_of n w4 = HandlerOver \<and>
    get_shutdown (preg (wh_main w4)) = Done \<and> procs_get (preg (wh_main w2)) i = None \<and> procs_get (preg (wh_main w4)) i = Some a \<and>
    proc_at (preg (wh_main w4)) a = q \<and> get_state q = Running \<and> ss_k (pg_server (wh_main w4)) = ss_k (pg_server (wh_main w1))"
proof -
  obtain w1 w2 wt deadline where 1: "handler_step (mc_host c) n w w1" "(own_step (mc_host c) n)\<^sup>*\<^sup>* w1 w2"
      "phase_of n w2 = KillWaits wt deadline" "wait_step wt (preg (wh_main w2)) = WaitPending"
      "wt_pos wt = length (reg_log (preg (wh_main w2)))" "kept (wh_main w) (wh_main w2)" "pg_http (wh_main w2) = pg_http (wh_main w)"
      "wh_main w2 = wh_main w1" "length (wh_handlers w2) = length (wh_handlers w)"
    by (rule kill_all_pending [OF assms(1-5)])
  let ?p = "wh_main w2" let ?a = "length (reg_heap (preg ?p))"
  let ?w = "w2\<lparr>wh_main := set_psys (spawn i q (psys ?p)) ?p\<rparr>"
  have checks: "start_checks seed [(i, spec)] (preg ?p) = Ok ()"
  proof -
    have "get_shutdown (preg ?p) = get_shutdown (preg (wh_main w))" "reg_procs (preg ?p) = reg_procs (preg (wh_main w))"
      using 1(6) by (simp_all add: kept_def get_shutdown_def)
    from start_checks_cong [OF this] assms(8) show ?thesis by simp
  qed
  have free: "procs_get (preg ?p) i = None"
    using checks procs_get_ids [of "preg ?p" i]
    by (cases "validate_procs_fds seed [(i, spec)]") (auto simp: start_checks_def bt_keys_def reg_ids_def get_proc_ids_def split: if_splits)
  have start: "(start_part c)\<^sup>*\<^sup>* w2 ?w"
    by (rule start_part_registers [OF assms(6) _ checks assms(9)]) (simp add: takes_requests_def 1(7) assms(7))
  have "length (reg_log (preg (wh_main ?w))) \<le> Suc (length (reg_log (preg ?p)))"
    by (simp add: spawn_reg procs_insert_def notify_def)
  then have "not_behind (preg (wh_main ?w)) (KillWaits wt deadline)" using 1(5) by (simp add: channel_capacity_def)
  then obtain w4 where 4: "(own_step (mc_host c) n)\<^sup>*\<^sup>* ?w w4" "shut_down_from (wh_main ?w) (wh_main w4)"
      "phase_of n w4 = HandlerOver" "ss_k (pg_server (wh_main w4)) = ss_k (pg_server (wh_main ?w))"
    by (rule kill_wait_ends [of n ?w, rotated 2]) (use assms(1) 1(3,9) in simp_all)
  have "procs_get (preg (wh_main w4)) i = Some ?a" "proc_at (preg (wh_main w4)) ?a = q" "get_shutdown (preg (wh_main w4)) = Done"
    using 4(2) by (simp_all add: spawn_reg shut_down_from_def procs_get_def proc_at_def procs_insert_def bt_get_insert get_shutdown_def)
  moreover have "get_state q = Running" using assms(9,10) by (simp add: get_state_def proc_fresh_def)
  moreover have "ss_k (pg_server (wh_main w4)) = ss_k (pg_server (wh_main w1))" using 4(4) 1(8) by (simp add: set_psys_def)
  ultimately show ?thesis using 1(1-4) free start 4(1,3) by blast
qed


section \<open>The properties at a concrete launch\<close>

text \<open>A launch without input: \<open>--serve\<close> alone.\<close>

definition serve_args :: args where
  "serve_args = sample_args\<lparr>arg_serve := True, arg_exit := False, arg_print := False, arg_output := None\<rparr>"

definition serve_launch :: "int launch" where
  "serve_launch = sample_launch\<lparr>la_given := serve_args\<rparr>"

lemma serve_args_simps [simp]:
  "arg_serve serve_args" "\<not> arg_exit serve_args" "\<not> arg_wait serve_args" "\<not> arg_agent serve_args" "arg_input serve_args = None"
  "arg_log_level serve_args = None" "arg_restrict_exe serve_args = None"
  by (simp_all add: serve_args_def) (simp_all add: sample_args_def)

lemma serve_launch_simps [simp]:
  "la_host serve_launch = plain_host counting_kernel" "la_output serve_launch = sample_output" "la_given serve_launch = serve_args"
  "la_polls serve_launch = (\<lambda>_ s. s)"
  by (simp_all add: serve_launch_def) (simp add: sample_launch_def)

lemma serve_polls: "launch_polls serve_launch" "launch_calm serve_launch"
  by (simp_all add: sample_polls)

lemma counting_posix: "kill_posix (h_kernel (plain_host counting_kernel))"
  by (simp add: kill_posix_def plain_host_def counting_kernel_def null_kernel_def)

lemma serve_started:
  obtains c p where "main_startup serve_launch sample_start = Some (Ok (c, p), sample_start)"
    "ss_sys sample_start = sys_init" "preg p = procs_new" "psys p = sys_init" "pg_attempt p = None" "pg_agent p = None"
    "pg_http p" "mc_host c = plain_host counting_kernel"
proof -
  have a: "snd (check_args serve_args) = Inr serve_args" by (simp add: check_args_def Let_def serve_args_def sample_args_def)
  have "main_inputs serve_launch serve_args sample_start = Some (Ok (), sample_start)"
    using install_all_sample
    by (simp add: main_inputs_def log_level_of_def launch_input_def get_input_def start_input_def input_new_def serve_launch_def)
  with a obtain x where "main_startup serve_launch sample_start =
      Some (Ok (setting_of serve_launch serve_args x, main_start (setting_of serve_launch serve_args x) sample_start), sample_start)"
    by (auto simp: main_startup_def parse_args_def agent_setup_def)
  moreover have init: "ss_sys sample_start = sys_init" by (simp add: StartProcs.sample_start_def)
  moreover have "mc_host (setting_of serve_launch serve_args x) = plain_host counting_kernel" by (simp add: setting_of_def)
  moreover have "mc_args (setting_of serve_launch serve_args x) = serve_args" by (simp add: setting_of_def)
  then have "pg_server (main_start (setting_of serve_launch serve_args x) sample_start) = sample_start"
      "pg_attempt (main_start (setting_of serve_launch serve_args x) sample_start) = None"
      "pg_agent (main_start (setting_of serve_launch serve_args x) sample_start) = None"
      "pg_http (main_start (setting_of serve_launch serve_args x) sample_start)"
    using put_reg_same [of sample_start] by (simp_all add: main_start_def exit_start_def idle_start_def)
  ultimately show thesis
    by (intro that) (simp_all add: server_reg_def sys_init_def)
qed



text \<open>The same launch after a SIGQUIT.\<close>

lemma serve_quit:
  obtains c p w where "main_startup serve_launch sample_start = Some (Ok (c, p), sample_start)" "ss_sys sample_start = sys_init"
    "handler_step (mc_host c) 2 (whole_start p) w" "phase_of 2 (whole_start p) = Sleeping" "hd_style (wh_handlers (whole_start p) ! 2) = KillAll"
    "2 < length (wh_handlers w)" "phase_of 2 w = KillWaits \<lparr>wt_kind = WaitIdle, wt_pos = 0, wt_target = None\<rparr> 5000"
    "reg_procs (preg (wh_main w)) = []" "wh_now w = 0" "mc_host c = plain_host counting_kernel" "s_tasks (psys (wh_main w)) = []"
proof -
  obtain c p where m: "main_startup serve_launch sample_start = Some (Ok (c, p), sample_start)" "ss_sys sample_start = sys_init"
      "preg p = procs_new" "psys p = sys_init" "mc_host c = plain_host counting_kernel" by (rule serve_started)
  let ?r = "on_signal (mc_host c) 0 KillAll p" let ?w = "set_handler 2 ?r (whole_start p)"
  have h: "2 < length (wh_handlers (whole_start p))" "wh_handlers (whole_start p) ! 2 = \<lparr>hd_style = KillAll, hd_phase = Sleeping\<rparr>"
    by (simp_all add: whole_start_def signal_handlers_def)
  have step: "handler_step (mc_host c) 2 (whole_start p) ?w"
    using handler_step.Signal [OF h(1), of "mc_host c"] h(2) by (simp add: whole_start_def)
  have s: "signal_procs (plain_host counting_kernel) SIGKILL p = Some p"
    by (simp add: signal_procs_def send_signal_all_def m(3)) (simp add: procs_new_def)
  have b: "begin_wait WaitIdle p = (\<lparr>wt_kind = WaitIdle, wt_pos = 0, wt_target = None\<rparr>, set_preg (procs_new\<lparr>reg_receivers := 1\<rparr>) p)"
    by (simp add: begin_wait_def new_waiter_def subscribe_def m(3)) (simp add: procs_new_def)
  from s b have r: "?r = (KillWaits \<lparr>wt_kind = WaitIdle, wt_pos = 0, wt_target = None\<rparr> 5000, set_preg (procs_new\<lparr>reg_receivers := 1\<rparr>) p)"
    by (simp add: on_signal_def kill_procs_def final_wait_def m(5) KILL_TIMEOUT_def)
  show thesis
    by (rule that [OF m(1,2) step])
      (use h in \<open>simp_all add: r [unfolded m(5)] m(4,5) sys_init_def set_reg_def procs_new_def whole_start_def signal_handlers_def\<close>)
qed

theorem whole_sound_witness:
  "\<exists>c p w. main_startup serve_launch sample_start = Some (Ok (c, p), sample_start) \<and> (calm_step sample_http c)\<^sup>*\<^sup>* (whole_start p) w \<and>
     (\<exists>wt. phase_of 2 w = KillWaits wt 5000) \<and> sys_reach (la_host serve_launch) (launch_systemd serve_launch) (psys (wh_main w)) \<and>
     (\<forall>i a. procs_get (preg (wh_main w)) i = Some a \<longrightarrow> p_wait_info (proc_at (preg (wh_main w)) a) = None \<longrightarrow>
        exit_pending (s_tasks (psys (wh_main w))) i a)"
proof -
  obtain c p w where m: "main_startup serve_launch sample_start = Some (Ok (c, p), sample_start)" "ss_sys sample_start = sys_init"
      "handler_step (mc_host c) 2 (whole_start p) w"
      "phase_of 2 w = KillWaits \<lparr>wt_kind = WaitIdle, wt_pos = 0, wt_target = None\<rparr> 5000" "s_tasks (psys (wh_main w)) = []"
    by (rule serve_quit)
  have step: "whole_step sample_http c (whole_start p) w" by (rule whole_step.Handler [OF m(3)])
  then have calm: "calm_step sample_http c (whole_start p) w" using m(5) by (simp add: calm_step_def crash_free_def)
  note sound = whole_sound [OF m(1,2) serve_polls(1) r_into_rtranclp [of "whole_step sample_http c", OF step]]
  with m(1,4) serve_polls(2) r_into_rtranclp [of "calm_step sample_http c", OF calm] show ?thesis by blast
qed




text \<open>With systemd, and one process running.\<close>

definition sample_manager :: "int systemd" where
  "sample_manager = \<lparr>sd_receive_job_removed = (\<lambda>b. (Ok 0, 1000, b)), sd_removed = (\<lambda>_ _. ([], False)),
     sd_start_transient_unit = (\<lambda>_ _ _ b. (Ok ''job'', 1000, b)), sd_stop_unit = (\<lambda>_ _ b. (Ok ''job'', 1000, b)),
     sd_reset_failed_unit = (\<lambda>_ b. (Ok (), 1000, b)), sd_get_unit = (\<lambda>_ b. (Ok ''unit'', 1000, b)),
     sd_slice_proxy = (\<lambda>_ b. (Ok ''p'', 1000, b)), sd_unit_proxy = (\<lambda>_ b. (Ok ''u'', 1000, b)),
     sd_scope_proxy = (\<lambda>_ b. (Ok ''s'', 1000, b)), sd_control_group = (\<lambda>_ b. (Ok ''/x'', 1000, b)),
     sd_active_state = (\<lambda>_ b. (Ok ''failed'', 1000, b)), sd_result = (\<lambda>_ b. (Ok ''success'', 1000, b))\<rparr>"

theorem started_while_ending_witness:
  "\<exists>c p w1 w2 w3 w4 a. mc_systemd c = Some sample_manager \<and> procs_get (preg p) ''a'' = Some 0 \<and>
     handler_step (mc_host c) 2 (whole_start p) w1 \<and> (own_step (mc_host c) 2)\<^sup>*\<^sup>* w1 w2 \<and>
     (start_part c)\<^sup>*\<^sup>* w2 w3 \<and> (own_step (mc_host c) 2)\<^sup>*\<^sup>* w3 w4 \<and> get_shutdown (preg (wh_main w4)) = Done \<and>
     procs_get (preg (wh_main w4)) ''b'' = Some a \<and> get_state (proc_at (preg (wh_main w4)) a) = Running"
proof -
  obtain c0 p0 where m: "main_startup serve_launch sample_start = Some (Ok (c0, p0), sample_start)"
      "pg_http p0" "mc_host c0 = plain_host counting_kernel" by (rule serve_started)
  let ?c = "c0\<lparr>mc_systemd := Some sample_manager\<rparr>" let ?p = "set_psys one_started p0" let ?w = "whole_start ?p"
  have h: "2 < length (wh_handlers ?w)" "phase_of 2 ?w = Sleeping" "hd_style (wh_handlers ?w ! 2) = KillAll"
    by (simp_all add: whole_start_def signal_handlers_def)
  have reg: "preg ?p = s_reg one_started" by (simp add: server_reg_def)
  have "start_checks 0 [(''b'', default_proc\<lparr>argv := [''/bin/echo'']\<rparr>)] (preg (wh_main ?w)) = Ok ()"
    using one_spec_accepted(1) by (simp add: whole_start_def reg one_spec_def)
  moreover have "reg_procs (preg (wh_main ?w)) \<noteq> []" "mc_systemd ?c \<noteq> None" "pg_http (wh_main ?w)"
      "kill_posix (h_kernel (mc_host ?c))" "proc_fresh sample_proc" "p_errors sample_proc = []"
    using m(2,3) counting_posix by (simp_all add: whole_start_def reg sample_proc_def proc_new_def proc_fresh_def)
  ultimately obtain w1 w2 w3 w4 a where "handler_step (mc_host ?c) 2 ?w w1" "(own_step (mc_host ?c) 2)\<^sup>*\<^sup>* w1 w2"
      "(start_part ?c)\<^sup>*\<^sup>* w2 w3" "(own_step (mc_host ?c) 2)\<^sup>*\<^sup>* w3 w4" "get_shutdown (preg (wh_main w4)) = Done"
      "procs_get (preg (wh_main w4)) ''b'' = Some a" "proc_at (preg (wh_main w4)) a = sample_proc" "get_state sample_proc = Running"
    using started_while_ending [OF h, of ?c 0 "''b''" "default_proc\<lparr>argv := [''/bin/echo'']\<rparr>" sample_proc] by blast
  moreover have "mc_systemd ?c = Some sample_manager" "procs_get (preg ?p) ''a'' = Some 0"
    by (simp_all add: reg one_started_get)
  ultimately show ?thesis
    by (intro exI [of _ ?c] exI [of _ ?p] exI [of _ w1] exI [of _ w2] exI [of _ w3] exI [of _ w4] exI [of _ a]) simp
qed

end
