(* ===== verification/Service.thy ===== *)
theory Service
  imports Routes
begin

text \<open>
  The HTTP service itself, \<open>run_http\<close> of \<open>src/http.rs\<close>: it binds, then accepts connections for ever, and
  serves each of them in a task of its own.  What the network does is a list of events.
\<close>

section \<open>The service\<close>

text \<open>
  A connection: its requests are served one after another, each with its response.  A panic in a handler
  ends the connection's task, an error of the connection only is printed.
\<close>

fun serve_connection ::
  "http_env \<Rightarrow> 'k host \<Rightarrow> 'k systemd option \<Rightarrow> 'k services \<Rightarrow> nat \<Rightarrow> http_request list \<Rightarrow> 'k start_state \<Rightarrow>
     (http_response list \<times> 'k start_state) option" where
  "serve_connection E H S V seed [] s = Some ([], s)"
| "serve_connection E H S V seed (req # reqs) s =
     (case dispatch E H S V seed req s of
        None \<Rightarrow> None
      | Some (Ok rsp, s') \<Rightarrow> map_option (\<lambda>(rsps, s2). (rsp # rsps, s2)) (serve_connection E H S V seed reqs s')
      | Some (_, s') \<Rightarrow> Some ([], s'))"

text \<open>An event of the listening socket: a connection, with the requests it will send, or an error.\<close>

datatype accept_event = Accepts "http_request list" | AcceptFails io_error

text \<open>The connections for which a task is spawned, and the result, if the loop has ended.\<close>

fun accept_loop :: "accept_event list \<Rightarrow> http_request list list \<times> (unit, io_error) outcome option" where
  "accept_loop [] = ([], None)"
| "accept_loop (Accepts reqs # evs) = (case accept_loop evs of (conns, r) \<Rightarrow> (reqs # conns, r))"
| "accept_loop (AcceptFails e # evs) = ([], Some (Err e))"

definition run_http :: "(unit, io_error) outcome \<Rightarrow> accept_event list \<Rightarrow> http_request list list \<times> (unit, io_error) outcome option" where
  "run_http bound evs =
     (case bound of
        Ok _ \<Rightarrow> accept_loop evs
      | Err e \<Rightarrow> ([], Some (Err e))
      | Panic \<Rightarrow> ([], Some Panic))"

section \<open>What it does\<close>

text \<open>
  The service never ends normally: it ends with the error of binding or of the first failed accept, and
  until then every connection has its task.
\<close>

theorem http_never_ends:
  "snd (run_http bound evs) \<noteq> Some (Ok ()) \<and>
   (\<forall>reqs. fst (run_http (Ok ()) (map Accepts reqs @ rest)) = reqs @ fst (run_http (Ok ()) rest))"
proof (intro conjI allI)
  have "snd (accept_loop es) \<noteq> Some (Ok ())" for es
    by (induction es rule: accept_loop.induct) (auto split: prod.split)
  then show "snd (run_http bound evs) \<noteq> Some (Ok ())" by (simp add: run_http_def split: outcome.split)
  show "fst (run_http (Ok ()) (map Accepts reqs @ rest)) = reqs @ fst (run_http (Ok ()) rest)" for reqs
    by (induction reqs) (auto simp: run_http_def split: prod.split)
qed

text \<open>A connection changes the task system only by registrations and deletions.\<close>

lemma connection_steps:
  "serve_connection E H S V seed reqs s = Some (rsps, s') \<Longrightarrow> serve_step\<^sup>*\<^sup>* (ss_sys s) (ss_sys s') \<and> length rsps \<le> length reqs"
proof (induction reqs arbitrary: s rsps)
  case (Cons req reqs)
  from Cons.prems obtain r s1 where d: "dispatch E H S V seed req s = Some (r, s1)" by (auto split: option.splits)
  note run = by_stepsD [OF by_steps_dispatch d]
  show ?case
  proof (cases r)
    case (Ok rsp)
    with Cons.prems d obtain rest where "serve_connection E H S V seed reqs s1 = Some (rest, s')" "rsps = rsp # rest" by auto
    with Cons.IH [of s1 rest] run show ?thesis by (auto intro: rtranclp_trans)
  qed (use Cons.prems d run in auto)
qed simp

text \<open>Whatever a connection sends, the system keeps its invariant, and no request has two responses.\<close>

theorem connection_keeps_invariant:
  assumes "checks_safe H" "sys_reach H S (ss_sys s)" "serve_connection E H S V seed reqs s = Some (rsps, s')"
  shows "sys_reach H S (ss_sys s') \<and> sys_ok (ss_sys s') \<and> length rsps \<le> length reqs"
  using connection_steps [OF assms(3)] sys_reach_steps [OF _ assms(2)] sys_reach_ok assms(1) by blast

end
