(* ===== verification/Boot.thy ===== *)
theory Boot
  imports Agent
begin

text \<open>
  What remains of \<open>src/sys.rs\<close>: the statics \<open>BOOT_TIME\<close> and \<open>PAGE_SIZE\<close>, which other theories take as
  parameters, and \<open>execv\<close>, which nothing calls.
\<close>

section \<open>Floating point numbers in text\<close>

text \<open>
  \<open>str::parse\<close> of an \<open>f64\<close>: a sign, digits with a point somewhere among or next to them, an exponent.  The
  names of the infinities and of NaN are left out: the only caller panics on them as on a text that is
  no number, since a duration is neither.
\<close>

definition parse_mantissa :: "string \<Rightarrow> (nat \<times> nat) option" where
  "parse_mantissa s =
     (case split_once CHR ''.'' s of
        None \<Rightarrow> map_option (\<lambda>n. (n, 0)) (digits_value s)
      | Some (a, b) \<Rightarrow> map_option (\<lambda>n. (n, length b)) (digits_value (a @ b)))"

definition parse_exponent :: "string \<Rightarrow> int option" where
  "parse_exponent s =
     (case s of
        [] \<Rightarrow> None
      | c # cs \<Rightarrow>
          if c = CHR ''-'' then map_option (\<lambda>n. - int n) (digits_value cs)
          else if c = CHR ''+'' then map_option int (digits_value cs)
          else map_option int (digits_value s))"

definition exponent_mark :: "char \<Rightarrow> bool" where
  "exponent_mark c \<longleftrightarrow> c = CHR ''e'' \<or> c = CHR ''E''"

definition parse_f64_unsigned :: "int \<Rightarrow> string \<Rightarrow> f64 option" where
  "parse_f64_unsigned sign s =
     (case (parse_mantissa (takeWhile (Not \<circ> exponent_mark) s), dropWhile (Not \<circ> exponent_mark) s) of
        (Some (n, places), []) \<Rightarrow> Some (Lit (sign * int n) (- int places))
      | (Some (n, places), _ # e) \<Rightarrow> map_option (\<lambda>x. Lit (sign * int n) (x - int places)) (parse_exponent e)
      | (None, _) \<Rightarrow> None)"

definition parse_f64 :: "string \<Rightarrow> f64 option" where
  "parse_f64 s =
     (case s of
        c # cs \<Rightarrow>
          if c = CHR ''-'' then parse_f64_unsigned (- 1) cs
          else if c = CHR ''+'' then parse_f64_unsigned 1 cs
          else parse_f64_unsigned 1 s
      | [] \<Rightarrow> None)"

section \<open>The statics\<close>

text \<open>
  The time of boot, in nanoseconds since the epoch: the current time less the first field of
  \<open>/proc/uptime\<close>.  A time before what a \<open>SystemTime\<close> can hold panics, as does every failure before.
\<close>

definition boot_time :: "(string, io_error) outcome \<Rightarrow> int \<Rightarrow> (int, error) outcome" where
  "boot_time uptime now =
     and_then (unwrap uptime) (\<lambda>text.
     and_then (unwrap_opt (parse_f64 (hd (split_char CHR '' '' (trim text))))) (\<lambda>secs.
     and_then (from_secs_f64 secs) (\<lambda>d.
       if now - int d < - (2 ^ 63) * int SECOND then Panic else Ok (now - int d))))"

text \<open>The page size: what \<open>sysconf\<close> returns is cast, also when it is the \<open>-1\<close> of a failure.\<close>

definition page_size :: "('k \<Rightarrow> int \<times> 'k) \<Rightarrow> 'k \<Rightarrow> 64 word \<times> 'k" where
  "page_size sysconf k = (case sysconf k of (val, k') \<Rightarrow> (word_of_int val, k'))"

lemma page_size_bounds:
  "sysconf k = (val, k') \<Longrightarrow> 0 \<le> val \<Longrightarrow> val < 2 ^ 63 \<Longrightarrow> uint (fst (page_size sysconf k)) = val"
  "sysconf k = (-1, k') \<Longrightarrow> uint (fst (page_size sysconf k)) = 2 ^ 64 - 1"
  by (simp_all add: page_size_def uint_word_of_int) (simp add: unsigned_minus_1_eq_mask mask_eq_exp_minus_1)

section \<open>A call that is not used\<close>

text \<open>
  \<open>execv\<close> passes the bytes of a \<open>String\<close>, which no nul ends: the library reads on to the next nul in memory.
  \<open>beyond\<close> are the bytes there; the path is what precedes the first nul.
\<close>

definition execv ::
  "(string \<Rightarrow> string list \<Rightarrow> 'k \<Rightarrow> int \<times> int \<times> 'k) \<Rightarrow> string \<Rightarrow> string \<Rightarrow> string list \<Rightarrow> 'k \<Rightarrow> (unit, io_error) outcome \<times> 'k" where
  "execv libc_execv beyond path args k =
     (if \<not> all_cstrings args then (Panic, k)
      else case libc_execv (takeWhile (\<lambda>c. c \<noteq> CHR 0x00) (path @ beyond)) args k of (res, errno, k') \<Rightarrow>
        (if res = -1 then Err (OsError errno) else Panic, k'))"

lemma execv_path:
  assumes "CHR 0x00 \<notin> set path"
  shows "takeWhile (\<lambda>c. c \<noteq> CHR 0x00) (path @ beyond) = path \<longleftrightarrow> beyond = [] \<or> hd beyond = CHR 0x00"
proof -
  have "takeWhile (\<lambda>c. c \<noteq> CHR 0x00) (path @ beyond) = path @ takeWhile (\<lambda>c. c \<noteq> CHR 0x00) beyond"
    using assms by (intro takeWhile_append2) auto
  then show ?thesis by (cases beyond) auto
qed

section \<open>The time of boot\<close>

lemma digits_no_mark: "digits_acc a s = Some n \<Longrightarrow> c \<in> set s \<Longrightarrow> \<not> exponent_mark c \<and> c \<noteq> CHR ''.''"
  by (induction s arbitrary: a) (auto simp: digit_of_def Let_def exponent_mark_def split: option.splits if_splits)

lemma parse_f64_centis:
  assumes "x < 10" "y < 10"
  shows "parse_f64 (show_nat n @ [CHR ''.'', digit_char x, digit_char y]) = Some (Lit (int (100 * n + 10 * x + y)) (- 2))"
proof -
  let ?s = "show_nat n @ [CHR ''.'', digit_char x, digit_char y]"
  have digits: "digits_acc 0 (show_nat n @ [digit_char x, digit_char y]) = Some (100 * n + 10 * x + y)"
    using assms by (simp add: digits_acc_append digits_acc_show_nat)
  have none: "\<not> exponent_mark c \<and> (c \<noteq> CHR ''.'' \<or> c \<notin> set (show_nat n))" if "c \<in> set ?s" for c
    using that digits_no_mark [OF digits, of c] by (auto simp: exponent_mark_def)
  have "takeWhile (Not \<circ> exponent_mark) ?s = ?s" using none by (subst takeWhile_eq_all_conv) auto
  moreover have "dropWhile (Not \<circ> exponent_mark) ?s = []" using none by (subst dropWhile_eq_Nil_conv) auto
  moreover have "split_once CHR ''.'' ?s = Some (show_nat n, [digit_char x, digit_char y])"
    using none by (intro split_once_append) auto
  then have "parse_mantissa ?s = Some (100 * n + 10 * x + y, 2)" using digits by (simp add: parse_mantissa_def digits_value_def)
  ultimately have u: "parse_f64_unsigned 1 ?s = Some (Lit (int (100 * n + 10 * x + y)) (- 2))"
    by (simp add: parse_f64_unsigned_def)
  obtain c cs where c: "show_nat n = c # cs" by (cases "show_nat n") auto
  from u show_nat_no_sign [OF c] show ?thesis by (simp add: parse_f64_def c)
qed

text \<open>
  On the text that the kernel writes, seconds with two decimals before a space, the time of boot is the
  current time less that many hundredths of a second, exactly.
\<close>

theorem boot_time_exact:
  assumes "trim text = show_nat n @ [CHR ''.'', digit_char x, digit_char y] @ CHR '' '' # rest" "x < 10" "y < 10"
    and "n < 2 ^ 60" "0 \<le> now"
  shows "boot_time (Ok text) now = Ok (now - int ((100 * n + 10 * x + y) * 10 ^ 7))"
proof -
  let ?s = "show_nat n @ [CHR ''.'', digit_char x, digit_char y]" let ?c = "100 * n + 10 * x + y"
  have digits: "digits_acc 0 (show_nat n @ [digit_char x, digit_char y]) = Some ?c"
    using assms(2,3) by (simp add: digits_acc_append digits_acc_show_nat)
  have "digit_of (CHR '' '') = None" by code_simp
  then have "CHR '' '' \<notin> set (show_nat n)" using show_nat_all_digits [of n] by auto
  moreover have "digit_char d \<noteq> CHR '' ''" if "d < 10" for d
    using digit_of_digit_char [OF that] \<open>digit_of (CHR '' '') = None\<close> by auto
  ultimately have "split_char CHR '' '' (?s @ CHR '' '' # rest) = ?s # split_char CHR '' '' rest"
    using assms(2,3) by (intro split_char_append) (auto dest: sym)
  moreover have "trim text = ?s @ CHR '' '' # rest" using assms(1) by simp
  ultimately have hd: "hd (split_char CHR '' '' (trim text)) = ?s" by (simp only: list.sel)
  have v: "f64_value (Lit (int ?c) (- 2)) * of_nat SECOND = of_nat (?c * 10 ^ 7)" by (simp add: SECOND_def)
  have "?c * 10 ^ 7 < 2 ^ 64 * SECOND" using assms(2-4) by (simp add: SECOND_def)
  then have "(of_nat (?c * 10 ^ 7) :: rat) < of_nat (2 ^ 64 * SECOND)" by (simp only: of_nat_less_iff)
  moreover have "nat (round (of_nat (?c * 10 ^ 7) :: rat)) = ?c * 10 ^ 7" by (metis nat_int of_int_of_nat_eq round_of_int)
  ultimately have d: "from_secs_f64 (Lit (int ?c) (- 2)) = (Ok (?c * 10 ^ 7) :: (duration, error) outcome)"
    unfolding from_secs_f64_def v duration_of_def by (simp del: of_nat_mult of_nat_add)
  have "int (?c * 10 ^ 7) \<le> 2 ^ 63 * int SECOND" using assms(2-4) by (simp add: SECOND_def)
  then show ?thesis using d hd parse_f64_centis [OF assms(2,3), of n] assms(5) by (simp add: boot_time_def)
qed

lemma digit_chars: "digit_char 0 = CHR ''0''" "digit_char 3 = CHR ''3''" "digit_char 4 = CHR ''4''" "digit_char 5 = CHR ''5''"
    "digit_char 7 = CHR ''7''"
  by code_simp+

lemma boot_time_sample: "boot_time (Ok (''350735.47 234388.90'' @ [CHR 0x0A])) (10 ^ 18) = Ok 999649264530000000"
proof -
  have "show_nat 350735 = ''350735''" by (simp add: show_nat.simps digit_chars)
  moreover have "trim (''350735.47 234388.90'' @ [CHR 0x0A]) = ''350735.47 234388.90''" by code_simp
  ultimately have "trim (''350735.47 234388.90'' @ [CHR 0x0A]) =
      show_nat 350735 @ [CHR ''.'', digit_char 4, digit_char 7] @ CHR '' '' # ''234388.90''"
    by (simp add: digit_chars)
  from boot_time_exact [OF this, of "10 ^ 18"] show ?thesis by simp
qed

end
